(* ===== verification/Prelude.thy ===== *)
theory Prelude
  imports Main "HOL-Library.Word" "HOL-Library.Code_Target_Nat"
begin

text \<open>
  Shared vocabulary of the development: the ways a call of the program can fail, the
  error monad the operations are written in, \<open>size_t\<close> and \<open>int\<close> conversions with their
  wrap-around, and the memory primitives of the C and C++ library the sources use
  (\<open>std::copy\<close>, \<open>vector::resize\<close>, \<open>std::search\<close>, \<open>memchr\<close>, \<open>memcmp\<close>).
\<close>

section \<open>Failures\<close>

text \<open>
  A call that does not return normally ends in one of these: a failed \<open>assert\<close>
  (the build of CMakeLists.txt does not define NDEBUG), \<open>std::length_error\<close> of a vector,
  \<open>std::bad_function_call\<close> of an empty \<open>std::function\<close>, \<open>abort()\<close> of a LOG_FATAL line or of
  \<open>std::terminate\<close>, the use of a null pointer, an access outside of an object, or \<open>std::system_error\<close>
  of a thread.
\<close>

datatype fault =
    AssertFailed
  | LengthError
  | BadFunctionCall
  | FatalAbort
  | NullDeref
  | OutOfBounds
  | SystemError

type_synonym 'a res = "fault + 'a"

definition bindE :: "'a res \<Rightarrow> ('a \<Rightarrow> 'b res) \<Rightarrow> 'b res" where
  "bindE m f = (case m of Inl e \<Rightarrow> Inl e | Inr x \<Rightarrow> f x)"

definition assertE :: "bool \<Rightarrow> unit res" where
  "assertE P = (if P then Inr () else Inl AssertFailed)"

lemma bindE_simps [simp]:
  "bindE (Inl e) f = Inl e"
  "bindE (Inr x) f = f x"
  by (simp_all add: bindE_def)

lemma bindE_eq_Inr [simp]: "bindE m f = Inr y \<longleftrightarrow> (\<exists>x. m = Inr x \<and> f x = Inr y)"
  by (cases m) auto

lemma bindE_eq_Inl: "bindE m f = Inl e \<longleftrightarrow> m = Inl e \<or> (\<exists>x. m = Inr x \<and> f x = Inl e)"
  by (cases m) auto

lemma bindE_assoc: "bindE (bindE m f) g = bindE m (\<lambda>x. bindE (f x) g)"
  by (cases m) auto

lemma assertE_simps [simp]:
  "assertE True = Inr ()"
  "assertE False = Inl AssertFailed"
  "assertE P = Inr u \<longleftrightarrow> P"
  "assertE P = Inl e \<longleftrightarrow> \<not> P \<and> e = AssertFailed"
  by (auto simp: assertE_def)

lemma res_caseE:
  "(case x of Inl e \<Rightarrow> False | Inr a \<Rightarrow> P a) \<Longrightarrow> (\<And>a. x = Inr a \<Longrightarrow> P a \<Longrightarrow> thesis) \<Longrightarrow> thesis"
  by (cases x) auto

section \<open>Integer types\<close>

text \<open>
  \<open>size_t\<close> is 64 bits wide; its sums and differences wrap. \<open>int_of_size\<close> is
  \<open>static_cast<int>(n)\<close> (the low 32 bits, read as two's complement), \<open>size_of_int\<close> the implicit
  conversion of an \<open>int\<close> to \<open>size_t\<close>.
\<close>

definition SIZE_MOD :: nat where
  "SIZE_MOD = 18446744073709551616"

definition sz_add :: "nat \<Rightarrow> nat \<Rightarrow> nat" where
  "sz_add a b = (a + b) mod SIZE_MOD"

definition sz_sub :: "nat \<Rightarrow> nat \<Rightarrow> nat" where
  "sz_sub a b = (a + (SIZE_MOD - b mod SIZE_MOD)) mod SIZE_MOD"

definition int_of_size :: "nat \<Rightarrow> int" where
  "int_of_size n = (let m = int n mod 4294967296 in if m < 2147483648 then m else m - 4294967296)"

definition size_of_int :: "int \<Rightarrow> nat" where
  "size_of_int i = nat (i mod int SIZE_MOD)"

lemma SIZE_MOD_pow: "SIZE_MOD = 2 ^ 64"
  by (simp add: SIZE_MOD_def)

lemma sz_add_small: "a + b < SIZE_MOD \<Longrightarrow> sz_add a b = a + b"
  by (simp add: sz_add_def)

lemma sz_sub_le:
  assumes "b \<le> a" "a < SIZE_MOD"
  shows "sz_sub a b = a - b"
proof -
  from assms have "b mod SIZE_MOD = b" by simp
  moreover have "a + (SIZE_MOD - b) = (a - b) + SIZE_MOD" using assms by linarith
  ultimately have "sz_sub a b = ((a - b) + SIZE_MOD) mod SIZE_MOD"
    by (simp only: sz_sub_def)
  also have "\<dots> = a - b" using assms by (simp only: mod_add_self2) simp
  finally show ?thesis .
qed

lemma sz_add_less [simp]: "sz_add a b < SIZE_MOD"
  by (simp add: sz_add_def SIZE_MOD_def)

lemma sz_sub_less [simp]: "sz_sub a b < SIZE_MOD"
  by (simp add: sz_sub_def SIZE_MOD_def)

lemma int_of_size_small: "n < 2147483648 \<Longrightarrow> int_of_size n = int n"
  by (simp add: int_of_size_def)

lemma size_of_int_nonneg: "0 \<le> i \<Longrightarrow> i < 2147483648 \<Longrightarrow> size_of_int i = nat i"
  by (simp add: size_of_int_def SIZE_MOD_def)

lemma size_of_int_of_size: "n < 2147483648 \<Longrightarrow> size_of_int (int_of_size n) = n"
  by (simp add: int_of_size_small size_of_int_nonneg)

text \<open>The logical negation of C: \<open>!x\<close> is 1 for zero and 0 for everything else.\<close>

definition c_not :: "32 word \<Rightarrow> 32 word" where
  "c_not x = (if x = 0 then 1 else 0)"

section \<open>Memory primitives\<close>

text \<open>
  \<open>copy_to dst i src\<close> is \<open>std::copy\<close> or \<open>memcpy\<close> of the bytes \<open>src\<close> to the vector \<open>dst\<close> from
  index \<open>i\<close> on; outside of the vector it is an out-of-bounds write.
\<close>

definition copy_to :: "'a list \<Rightarrow> nat \<Rightarrow> 'a list \<Rightarrow> 'a list res" where
  "copy_to dst i src =
     (if i + length src \<le> length dst
      then Inr (take i dst @ src @ drop (i + length src) dst)
      else Inl OutOfBounds)"

text \<open>\<open>PTRDIFF_MAX\<close>, the largest size of a \<open>std::vector<char>\<close> of libstdc++.\<close>

definition VEC_MAX :: nat where
  "VEC_MAX = 9223372036854775807"

lemma VEC_MAX_less: "VEC_MAX < SIZE_MOD"
  by (simp add: VEC_MAX_def SIZE_MOD_def)

definition vec_resize :: "char list \<Rightarrow> nat \<Rightarrow> char list res" where
  "vec_resize v n =
     (if VEC_MAX < n then Inl LengthError
      else Inr (take n v @ replicate (n - length v) (CHR 0x00)))"

text \<open>\<open>std::search\<close>: the offset of the first occurrence of the pattern, or the length.\<close>

fun std_search :: "'a list \<Rightarrow> 'a list \<Rightarrow> nat" where
  "std_search xs pat =
     (if take (length pat) xs = pat then 0
      else (case xs of [] \<Rightarrow> 0 | x # xs' \<Rightarrow> Suc (std_search xs' pat)))"

declare std_search.simps [simp del]

text \<open>\<open>memchr\<close>: the offset of the first occurrence of a byte.\<close>

primrec memchr :: "'a list \<Rightarrow> 'a \<Rightarrow> nat option" where
  "memchr [] c = None"
| "memchr (x # xs) c = (if x = c then Some 0 else map_option Suc (memchr xs c))"

lemma copy_to_eq_Inr:
  "copy_to dst i src = Inr v \<longleftrightarrow>
     i + length src \<le> length dst \<and> v = take i dst @ src @ drop (i + length src) dst"
  by (auto simp: copy_to_def)

lemma copy_to_length: "copy_to dst i src = Inr v \<Longrightarrow> length v = length dst"
  by (auto simp: copy_to_eq_Inr)

lemma vec_resize_eq_Inr:
  "vec_resize v n = Inr u \<longleftrightarrow> n \<le> VEC_MAX \<and> u = take n v @ replicate (n - length v) (CHR 0x00)"
  by (auto simp: vec_resize_def)

lemma std_search_Nil [simp]: "std_search [] pat = 0"
  by (simp add: std_search.simps)

lemma std_search_Cons:
  "std_search (x # xs) pat =
     (if take (length pat) (x # xs) = pat then 0 else Suc (std_search xs pat))"
  by (subst std_search.simps) simp

lemma std_search_le: "std_search xs pat \<le> length xs"
  by (induction xs) (auto simp: std_search_Cons)

lemma std_search_found:
  "std_search xs pat < length xs \<Longrightarrow> take (length pat) (drop (std_search xs pat) xs) = pat"
  by (induction xs) (auto simp: std_search_Cons split: if_splits)

lemma std_search_first:
  "i < std_search xs pat \<Longrightarrow> take (length pat) (drop i xs) \<noteq> pat"
proof (induction xs arbitrary: i)
  case Nil
  then show ?case by simp
next
  case (Cons x xs)
  then show ?case by (cases i) (auto simp: std_search_Cons split: if_splits)
qed

lemma memchr_SomeD:
  "memchr xs c = Some i \<Longrightarrow> i < length xs \<and> xs ! i = c \<and> c \<notin> set (take i xs)"
  by (induction xs arbitrary: i) (auto split: if_splits)

lemma memchr_None: "memchr xs c = None \<longleftrightarrow> c \<notin> set xs"
  by (induction xs) auto

text \<open>
  \<open>memcmp\<close> reads \<open>n\<close> bytes of each object as unsigned values; the model returns the sign
  of the result, which is all the C standard says about it.
\<close>

definition ubyte :: "char \<Rightarrow> nat" where
  "ubyte c = of_char c"

lemma ubyte_eq_iff [simp]: "ubyte a = ubyte b \<longleftrightarrow> a = b"
  by (simp add: ubyte_def)

primrec cmp_bytes :: "nat \<Rightarrow> char list \<Rightarrow> char list \<Rightarrow> int" where
  "cmp_bytes 0 xs ys = 0"
| "cmp_bytes (Suc n) xs ys =
     (if ubyte (hd xs) < ubyte (hd ys) then -1
      else if ubyte (hd ys) < ubyte (hd xs) then 1
      else cmp_bytes n (tl xs) (tl ys))"

definition memcmp :: "char list \<Rightarrow> char list \<Rightarrow> nat \<Rightarrow> int res" where
  "memcmp xs ys n =
     (if n \<le> length xs \<and> n \<le> length ys then Inr (cmp_bytes n xs ys) else Inl OutOfBounds)"

section \<open>Signed division\<close>

text \<open>Division of C rounds towards zero.\<close>

definition c_div :: "int \<Rightarrow> int \<Rightarrow> int" where
  "c_div a b = sgn a * sgn b * (\<bar>a\<bar> div \<bar>b\<bar>)"

definition c_mod :: "int \<Rightarrow> int \<Rightarrow> int" where
  "c_mod a b = a - b * c_div a b"

lemma c_div_zero_iff: "0 < b \<Longrightarrow> c_div a b = 0 \<longleftrightarrow> \<bar>a\<bar> < b"
  by (auto simp: c_div_def sgn_if div_eq_0_iff zdiv_eq_0_iff split: if_splits)

lemma c_div_abs: "0 < b \<Longrightarrow> \<bar>c_div a b\<bar> = \<bar>a\<bar> div b"
  by (simp add: c_div_def abs_mult sgn_if pos_imp_zdiv_nonneg_iff)

lemma c_mod_abs: "0 < b \<Longrightarrow> \<bar>c_mod a b\<bar> = \<bar>a\<bar> mod b"
proof -
  assume b: "0 < b"
  have "a - b * c_div a b = sgn a * (\<bar>a\<bar> mod b)"
    using b by (cases "a < 0") (simp_all add: c_div_def sgn_if minus_mult_div_eq_mod [symmetric] algebra_simps)
  with b show ?thesis by (simp add: c_mod_def abs_mult sgn_if)
qed

section \<open>Lists\<close>

lemma take_drop_append: "take n (drop m xs) @ drop (m + n) xs = drop m xs"
  by (metis add.commute append_take_drop_id drop_drop)

lemma take_add_drop: "m \<le> n \<Longrightarrow> take (n - m) (drop m xs) = drop m (take n xs)"
  by (simp add: drop_take)

end
