(* ===== verification/Chan.thy ===== *)
theory Chan
  imports Prelude
begin

unbundle bit_operations_syntax

text \<open>
  \<open>Channel\<close> (src/net/channel.h, src/net/channel.cpp): a descriptor, the events its owner wants,
  the events the poller registered last and the events that became active, and
  the handlers for them. Event sets are \<open>int\<close> bit masks, here 32-bit words. A handler is a
  value of the type \<open>'h\<close>; a \<open>std::function\<close> member is an \<open>'h option\<close>, and calling an empty one
  throws. \<open>handleEvent\<close> says which handler it calls.
\<close>

section \<open>Event masks\<close>

definition CHANNEL_CONN :: "32 word" where "CHANNEL_CONN = 1"
definition CHANNEL_READ :: "32 word" where "CHANNEL_READ = 2"
definition CHANNEL_WRITE :: "32 word" where "CHANNEL_WRITE = 4"
definition CHANNEL_TIMER :: "32 word" where "CHANNEL_TIMER = 8"

definition has :: "32 word \<Rightarrow> 32 word \<Rightarrow> bool" where
  "has evt m \<longleftrightarrow> evt AND m \<noteq> 0"

lemmas channel_masks =
  CHANNEL_CONN_def CHANNEL_READ_def CHANNEL_WRITE_def CHANNEL_TIMER_def

lemma has_zero [simp]: "\<not> has 0 m"
  by (simp add: has_def)

lemma has_or: "has (a OR b) m \<longleftrightarrow> has a m \<or> has b m"
  by (simp add: has_def bit.conj_disj_distrib2 or_eq_0_iff)

section \<open>State and operations\<close>

record 'h channel =
  ch_events :: "32 word"
  ch_active :: "32 word"
  ch_last :: "32 word"
  ch_fd :: int
  ch_isListen :: bool
  ch_interval :: int
  ch_repeat :: bool
  ch_readHandler :: "'h option"
  ch_writeHandler :: "'h option"
  ch_errorHandler :: "'h option"
  ch_connHandler :: "'h option"
  ch_timerHandler :: "'h option"

text \<open>Neither constructor initialises \<open>active_events_\<close>: it holds the arbitrary value \<open>junk\<close>.\<close>

definition Channel_ctor :: "32 word \<Rightarrow> int \<Rightarrow> bool \<Rightarrow> 'h channel" where
  "Channel_ctor junk fd isListen =
     \<lparr>ch_events = 0, ch_active = junk, ch_last = 0, ch_fd = fd, ch_isListen = isListen,
      ch_interval = 0, ch_repeat = False, ch_readHandler = None, ch_writeHandler = None,
      ch_errorHandler = None, ch_connHandler = None, ch_timerHandler = None\<rparr>"

definition Channel_default_ctor :: "32 word \<Rightarrow> 'h channel" where
  "Channel_default_ctor junk = Channel_ctor junk 0 False"

definition setFd :: "int \<Rightarrow> 'h channel \<Rightarrow> 'h channel" where
  "setFd fd c = c\<lparr>ch_fd := fd\<rparr>"

definition setRepeat :: "bool \<Rightarrow> 'h channel \<Rightarrow> 'h channel" where
  "setRepeat r c = c\<lparr>ch_repeat := r\<rparr>"

definition setInterval :: "int \<Rightarrow> 'h channel \<Rightarrow> 'h channel" where
  "setInterval i c = c\<lparr>ch_interval := i\<rparr>"

definition setReadHandler :: "'h \<Rightarrow> 'h channel \<Rightarrow> 'h channel" where
  "setReadHandler h c = c\<lparr>ch_readHandler := Some h\<rparr>"

definition setWriteHandler :: "'h \<Rightarrow> 'h channel \<Rightarrow> 'h channel" where
  "setWriteHandler h c = c\<lparr>ch_writeHandler := Some h\<rparr>"

definition setErrorHandler :: "'h \<Rightarrow> 'h channel \<Rightarrow> 'h channel" where
  "setErrorHandler h c = c\<lparr>ch_errorHandler := Some h\<rparr>"

definition setConnHandler :: "'h \<Rightarrow> 'h channel \<Rightarrow> 'h channel" where
  "setConnHandler h c = c\<lparr>ch_connHandler := Some h\<rparr>"

definition setTimerHandler :: "'h \<Rightarrow> 'h channel \<Rightarrow> 'h channel" where
  "setTimerHandler h c = c\<lparr>ch_timerHandler := Some h\<rparr>"

definition setEvent :: "32 word \<Rightarrow> 'h channel \<Rightarrow> 'h channel" where
  "setEvent e c = c\<lparr>ch_events := e\<rparr>"

definition updateEvent :: "'h channel \<Rightarrow> 'h channel" where
  "updateEvent c = c\<lparr>ch_last := ch_events c\<rparr>"

definition setActiveEvent :: "32 word \<Rightarrow> 'h channel \<Rightarrow> 'h channel" where
  "setActiveEvent e c = c\<lparr>ch_active := e\<rparr>"

definition isWriting :: "'h channel \<Rightarrow> bool" where
  "isWriting c = has (ch_events c) CHANNEL_WRITE"

definition isReading :: "'h channel \<Rightarrow> bool" where
  "isReading c = has (ch_events c) CHANNEL_READ"

lemmas channel_ops = setFd_def setRepeat_def setInterval_def setReadHandler_def
  setWriteHandler_def setErrorHandler_def setConnHandler_def setTimerHandler_def
  setEvent_def updateEvent_def setActiveEvent_def

definition call_handler :: "'h option \<Rightarrow> 'h option res" where
  "call_handler f = (case f of None \<Rightarrow> Inl BadFunctionCall | Some h \<Rightarrow> Inr (Some h))"

definition handleEvent :: "'h channel \<Rightarrow> 'h option res" where
  "handleEvent c =
     (if ch_isListen c then call_handler (ch_connHandler c)
      else if has (ch_active c) CHANNEL_READ then call_handler (ch_readHandler c)
      else if has (ch_active c) CHANNEL_WRITE then call_handler (ch_writeHandler c)
      else if has (ch_active c) CHANNEL_TIMER then call_handler (ch_timerHandler c)
      else Inr None)"

section \<open>The heap of channels\<close>

text \<open>
  Pollers, timers and connections share channels by pointer. A pointer is a number, and
  the heap maps it to the channel; an operation of a poller reads and updates the heap.
\<close>

type_synonym chan_ptr = nat
type_synonym 'h heap = "chan_ptr \<Rightarrow> 'h channel"

definition on_chan :: "chan_ptr \<Rightarrow> ('h channel \<Rightarrow> 'h channel) \<Rightarrow> 'h heap \<Rightarrow> 'h heap" where
  "on_chan c f h = h(c := f (h c))"

lemma on_chan_same [simp]: "on_chan c f h c = f (h c)"
  by (simp add: on_chan_def)

lemma on_chan_other [simp]: "c \<noteq> d \<Longrightarrow> on_chan c f h d = h d"
  by (simp add: on_chan_def)

lemma ch_fd_ops [simp]:
  "ch_fd (setEvent e c) = ch_fd c" "ch_fd (updateEvent c) = ch_fd c"
  "ch_fd (setActiveEvent e c) = ch_fd c"
  by (simp_all add: channel_ops)

text \<open>A channel is dispatched to at most one handler, in the order listen, read, write, timer.\<close>

lemma handleEvent_inactive:
  "\<not> ch_isListen c \<Longrightarrow> ch_active c = 0 \<Longrightarrow> handleEvent c = Inr None"
  by (simp add: handleEvent_def)

lemma handleEvent_read:
  "\<not> ch_isListen c \<Longrightarrow> has (ch_active c) CHANNEL_READ \<Longrightarrow> ch_readHandler c = Some h \<Longrightarrow>
   handleEvent c = Inr (Some h)"
  by (simp add: handleEvent_def call_handler_def)

lemma handleEvent_write:
  "\<not> ch_isListen c \<Longrightarrow> ch_active c = CHANNEL_WRITE \<Longrightarrow> ch_writeHandler c = Some h \<Longrightarrow>
   handleEvent c = Inr (Some h)"
  by (simp add: handleEvent_def call_handler_def has_def channel_masks)

lemma handleEvent_timer:
  "\<not> ch_isListen c \<Longrightarrow> ch_active c = CHANNEL_TIMER \<Longrightarrow> ch_timerHandler c = Some h \<Longrightarrow>
   handleEvent c = Inr (Some h)"
  by (simp add: handleEvent_def call_handler_def has_def channel_masks)

end
