(* ===== verification/Poller.thy ===== *)
theory Poller
  imports Chan
begin

text \<open>
  \<open>Poller\<close> (src/net/poller.h): the state the two pollers share, the map from descriptors
  to registered channels, and the interface the event loop uses through virtual calls.
  The locale \<open>poller_iface\<close> holds what the loop relies on; Epoller and Kqueue interpret it.
\<close>

record poller =
  channels :: "int \<rightharpoonup> chan_ptr"
  wakeup_channel :: chan_ptr

text \<open>Every registered channel sits under its own descriptor.\<close>

definition reg_ok :: "(int \<rightharpoonup> chan_ptr) \<Rightarrow> 'h heap \<Rightarrow> bool" where
  "reg_ok m h \<longleftrightarrow> (\<forall>fd c. m fd = Some c \<longrightarrow> ch_fd (h c) = fd)"

lemma reg_okD: "reg_ok m h \<Longrightarrow> m fd = Some c \<Longrightarrow> ch_fd (h c) = fd"
  by (simp add: reg_ok_def)

lemma reg_ok_heap: "reg_ok m h \<Longrightarrow> (\<And>c. ch_fd (h' c) = ch_fd (h c)) \<Longrightarrow> reg_ok m h'"
  by (simp add: reg_ok_def)

text \<open>
  \<open>upd\<close> and \<open>rem\<close> are \<open>update\<close> and \<open>remove\<close>, \<open>chans\<close> the registered channels. A successful
  \<open>update\<close> registers the channel under its descriptor and marks its events as the last
  registered ones; a failed one changes nothing. \<open>remove\<close> at most forgets one descriptor.
\<close>

locale poller_iface =
  fixes upd :: "'p \<Rightarrow> 'h heap \<Rightarrow> chan_ptr \<Rightarrow> 'p \<times> 'h heap"
    and rem :: "'p \<Rightarrow> 'h heap \<Rightarrow> chan_ptr \<Rightarrow> 'p"
    and chans :: "'p \<Rightarrow> int \<rightharpoonup> chan_ptr"
  assumes upd_law: "upd p h c = (p', h') \<Longrightarrow>
      (chans p' = (chans p)(ch_fd (h c) \<mapsto> c) \<and> h' = on_chan c updateEvent h) \<or>
      (chans p' = chans p \<and> h' = h)"
    and rem_law: "chans (rem p h c) = (chans p)(ch_fd (h c) := None) \<or>
      chans (rem p h c) = chans p"
begin

lemma upd_fd: "upd p h c = (p', h') \<Longrightarrow> ch_fd (h' d) = ch_fd (h d)"
  using upd_law [of p h c p' h'] by (cases "c = d") auto

lemma upd_events: "upd p h c = (p', h') \<Longrightarrow> ch_events (h' d) = ch_events (h d)"
  using upd_law [of p h c p' h'] by (cases "c = d") (auto simp: updateEvent_def)

lemma upd_other: "upd p h c = (p', h') \<Longrightarrow> d \<noteq> c \<Longrightarrow> h' d = h d"
  using upd_law [of p h c p' h'] by auto

lemma upd_reg_ok:
  assumes "reg_ok (chans p) h" "upd p h c = (p', h')"
  shows "reg_ok (chans p') h'"
proof -
  have fd: "ch_fd (h' d) = ch_fd (h d)" for d
    using assms(2) by (rule upd_fd)
  from upd_law [OF assms(2)] show ?thesis
  proof (elim disjE conjE)
    assume "chans p' = (chans p)(ch_fd (h c) \<mapsto> c)"
    then show ?thesis using assms(1) fd by (auto simp: reg_ok_def split: if_splits)
  next
    assume "chans p' = chans p"
    then show ?thesis using assms(1) fd by (auto simp: reg_ok_def)
  qed
qed

lemma rem_reg_ok: "reg_ok (chans p) h \<Longrightarrow> reg_ok (chans (rem p h c)) h"
  using rem_law [of p h c] by (auto simp: reg_ok_def split: if_splits)

lemma rem_dom: "dom (chans (rem p h c)) \<subseteq> dom (chans p)"
  using rem_law [of p h c] by (auto split: if_splits)

lemma upd_dom: "upd p h c = (p', h') \<Longrightarrow> dom (chans p') \<subseteq> insert (ch_fd (h c)) (dom (chans p))"
  using upd_law [of p h c p' h'] by (auto split: if_splits)

end

end
