(* ===== verification/Epoller.thy ===== *)
theory Epoller
  imports Poller
begin

text \<open>
  \<open>Epoller\<close> (src/net/linux/epoller.h, src/net/linux/epoller.cpp). System calls are not under
  src/: an operation takes the function \<open>sys\<close> from the calls it makes to their return
  values and returns the list of calls, in order, besides the new state.
\<close>

section \<open>Kernel interface\<close>

definition EPOLLIN :: "32 word" where "EPOLLIN = 1"
definition EPOLLOUT :: "32 word" where "EPOLLOUT = 4"

datatype epoll_op = EPOLL_CTL_ADD | EPOLL_CTL_MOD | EPOLL_CTL_DEL

record itimerspec =
  value_sec :: int
  value_nsec :: int
  interval_sec :: int
  interval_nsec :: int

datatype sys_call =
    EpollCtl epoll_op int "32 word"
  | TimerfdSettime int itimerspec
  | ReadCounter int
  | WriteCounter int
  | CloseFd int

section \<open>State and operations\<close>

record epoller = poller +
  epollfd :: int

definition timer_spec :: "'h channel \<Rightarrow> itimerspec" where
  "timer_spec c =
     (let second = c_div (ch_interval c) 1000; mill = c_mod (ch_interval c) 1000
      in \<lparr>value_sec = second, value_nsec = 0, interval_sec = second,
          interval_nsec = (if ch_repeat c then mill * 1000000 else 0)\<rparr>)"

text \<open>
  \<open>event.events\<close> starts uninitialised; its first value is the argument \<open>junk\<close>.
\<close>

definition epoll_mask :: "32 word \<Rightarrow> 32 word \<Rightarrow> 32 word" where
  "epoll_mask junk evt =
     (let e1 = (if has evt CHANNEL_READ \<or> has evt CHANNEL_CONN then junk OR EPOLLIN else junk);
          e2 = (if has evt CHANNEL_WRITE then e1 OR EPOLLOUT else e1)
      in if has evt CHANNEL_TIMER then EPOLLIN else e2)"

definition epoll_update ::
  "(sys_call \<Rightarrow> int) \<Rightarrow> 32 word \<Rightarrow> epoller \<Rightarrow> 'h heap \<Rightarrow> chan_ptr \<Rightarrow>
   epoller \<times> 'h heap \<times> sys_call list" where
  "epoll_update sys junk p h c =
     (let fd = ch_fd (h c); evt = ch_events (h c);
          settime = TimerfdSettime fd (timer_spec (h c));
          timer_calls = (if has evt CHANNEL_TIMER then [settime] else [])
      in if has evt CHANNEL_TIMER \<and> sys settime = -1
         then (p, h, timer_calls)
         else
           let modify = (channels p fd \<noteq> None);
               ctl = EpollCtl (if modify then EPOLL_CTL_MOD else EPOLL_CTL_ADD) fd (epoll_mask junk evt)
           in if sys ctl < 0
              then (p, h, timer_calls @ [ctl])
              else (p\<lparr>channels := (channels p)(fd \<mapsto> c)\<rparr>, on_chan c updateEvent h,
                    timer_calls @ [ctl]))"

definition epoll_remove ::
  "(sys_call \<Rightarrow> int) \<Rightarrow> epoller \<Rightarrow> 'h heap \<Rightarrow> chan_ptr \<Rightarrow> epoller \<times> sys_call list" where
  "epoll_remove sys p h c =
     (let fd = ch_fd (h c); ctl = EpollCtl EPOLL_CTL_DEL fd 0
      in if channels p fd \<noteq> None
         then (if sys ctl < 0 then (p, [ctl])
               else (p\<lparr>channels := (channels p)(fd := None)\<rparr>, [ctl]))
         else (p, []))"

text \<open>
  The loop of \<open>poll\<close> over what \<open>epoll_wait\<close> returned, pairs of a descriptor and an event
  mask. The conjunction with \<open>!CHANNEL_READ\<close> is the one in the code.
\<close>

definition epoll_active :: "32 word \<Rightarrow> 'h channel \<Rightarrow> 32 word" where
  "epoll_active revents c =
     (let e1 = (if revents AND EPOLLIN \<noteq> 0 then CHANNEL_READ else 0);
          e2 = (if revents = EPOLLOUT then e1 OR CHANNEL_WRITE else e1)
      in if has (ch_events c) CHANNEL_TIMER
         then (e2 OR CHANNEL_TIMER) AND c_not CHANNEL_READ
         else e2)"

fun epoll_poll ::
  "(int \<times> 32 word) list \<Rightarrow> epoller \<Rightarrow> 'h heap \<Rightarrow> 'h heap \<times> chan_ptr list \<times> sys_call list" where
  "epoll_poll [] p h = (h, [], [])"
| "epoll_poll ((fd, revents) # evs) p h =
     (case channels p fd of
        None \<Rightarrow> epoll_poll evs p h
      | Some c \<Rightarrow>
          let calls = (if has (ch_events (h c)) CHANNEL_TIMER then [ReadCounter (ch_fd (h c))] else []);
              h1 = on_chan c (setActiveEvent (epoll_active revents (h c))) h;
              (h2, cs, calls2) = epoll_poll evs p h1
          in (h2, c # cs, calls @ calls2))"

definition epoll_wakeup :: "epoller \<Rightarrow> 'h heap \<Rightarrow> sys_call" where
  "epoll_wakeup p h = WriteCounter (ch_fd (h (wakeup_channel p)))"

definition wakeupRead :: "int \<Rightarrow> sys_call" where
  "wakeupRead fd = ReadCounter fd"

definition epoll_getTimerFd :: "int \<Rightarrow> int res" where
  "epoll_getTimerFd fd = (if fd < 0 then Inl FatalAbort else Inr fd)"

text \<open>
  The constructor: \<open>efd\<close> and \<open>epfd\<close> are the results of \<open>eventfd\<close> and \<open>epoll_create\<close>, \<open>w\<close> the
  address of the new wakeup channel, \<open>wakeH\<close> the closure \<open>std::bind(wakeupRead, efd)\<close>.
\<close>

definition Epoller_ctor ::
  "(sys_call \<Rightarrow> int) \<Rightarrow> 32 word \<Rightarrow> int \<Rightarrow> int \<Rightarrow> chan_ptr \<Rightarrow> 'h \<Rightarrow> 'h heap \<Rightarrow>
   (epoller \<times> 'h heap \<times> sys_call list) res" where
  "Epoller_ctor sys junk epfd efd w wakeH h =
     (if epfd = -1 then Inl FatalAbort
      else if efd < 0 then Inl FatalAbort
      else
        let h1 = h(w := setReadHandler wakeH (setEvent CHANNEL_READ (Channel_ctor junk efd False)));
            p = \<lparr>channels = Map.empty, wakeup_channel = w, epollfd = epfd\<rparr>
        in Inr (epoll_update sys junk p h1 w))"

definition Epoller_dtor ::
  "(sys_call \<Rightarrow> int) \<Rightarrow> epoller \<Rightarrow> 'h heap \<Rightarrow> epoller \<times> sys_call list" where
  "Epoller_dtor sys p h =
     (let (p1, calls) = epoll_remove sys p h (wakeup_channel p)
      in (p1, calls @ [CloseFd (ch_fd (h (wakeup_channel p))), CloseFd (epollfd p)]))"

section \<open>Lemmas\<close>

lemma epoll_update_success:
  assumes "0 \<le> sys (EpollCtl (if channels p (ch_fd (h c)) \<noteq> None then EPOLL_CTL_MOD else EPOLL_CTL_ADD)
                    (ch_fd (h c)) (epoll_mask junk (ch_events (h c))))"
    and "has (ch_events (h c)) CHANNEL_TIMER \<longrightarrow> sys (TimerfdSettime (ch_fd (h c)) (timer_spec (h c))) \<noteq> -1"
  shows "\<exists>calls. epoll_update sys junk p h c =
           (p\<lparr>channels := (channels p)(ch_fd (h c) \<mapsto> c)\<rparr>, on_chan c updateEvent h, calls)"
  using assms by (auto simp: epoll_update_def Let_def)

lemma epoll_update_cases:
  assumes "epoll_update sys junk p h c = (p', h', calls)"
  shows "(p' = p\<lparr>channels := (channels p)(ch_fd (h c) \<mapsto> c)\<rparr> \<and> h' = on_chan c updateEvent h) \<or>
         (p' = p \<and> h' = h)"
  using assms by (auto simp: epoll_update_def Let_def split: if_splits)

lemma epoll_remove_cases:
  "fst (epoll_remove sys p h c) = p\<lparr>channels := (channels p)(ch_fd (h c) := None)\<rparr> \<or>
   fst (epoll_remove sys p h c) = p"
  by (auto simp: epoll_remove_def Let_def)

definition epoll_upd where
  "epoll_upd sys junk p h c = (let (p', h', calls) = epoll_update sys junk p h c in (p', h'))"

definition epoll_rem where
  "epoll_rem sys p h c = fst (epoll_remove sys p h c)"

interpretation ep: poller_iface "epoll_upd sys junk" "epoll_rem sys" channels
  for sys junk
proof unfold_locales
  fix p p' :: epoller and h h' :: "'a heap" and c
  assume "epoll_upd sys junk p h c = (p', h')"
  then obtain calls where "epoll_update sys junk p h c = (p', h', calls)"
    by (auto simp: epoll_upd_def split: prod.splits)
  from epoll_update_cases [OF this]
  show "(channels p' = (channels p)(ch_fd (h c) \<mapsto> c) \<and> h' = on_chan c updateEvent h) \<or>
        (channels p' = channels p \<and> h' = h)" by auto
next
  fix p :: epoller and h :: "'a heap" and c
  show "channels (epoll_rem sys p h c) = (channels p)(ch_fd (h c) := None) \<or>
        channels (epoll_rem sys p h c) = channels p"
    using epoll_remove_cases [of sys p h c] by (auto simp: epoll_rem_def)
qed

lemma epoll_poll_fd: "epoll_poll evs p h = (h', cs, calls) \<Longrightarrow> ch_fd (h' d) = ch_fd (h d)"
proof (induction evs p h arbitrary: h' cs calls rule: epoll_poll.induct)
  case (2 fd revents evs p h)
  then show ?case
    by (auto simp: Let_def split: option.splits prod.splits) (metis ch_fd_ops(3) on_chan_other on_chan_same)+
qed auto

lemma epoll_active_timer: "has (ch_events c) CHANNEL_TIMER \<Longrightarrow> epoll_active revents c = 0"
  by (simp add: epoll_active_def c_not_def Let_def channel_masks)

lemma epoll_poll_other:
  "epoll_poll evs p h = (h', cs, calls) \<Longrightarrow>
   ch_events (h' d) = ch_events (h d) \<and> ch_isListen (h' d) = ch_isListen (h d)"
proof (induction evs p h arbitrary: h' cs calls rule: epoll_poll.induct)
  case (2 fd revents evs p h)
  show ?case
  proof (cases "channels p fd")
    case None
    with 2 show ?thesis by simp
  next
    case (Some c)
    let ?h1 = "on_chan c (setActiveEvent (epoll_active revents (h c))) h"
    obtain h2 cs2 calls2 where r: "epoll_poll evs p ?h1 = (h2, cs2, calls2)"
      by (cases "epoll_poll evs p ?h1") auto
    have "ch_events (?h1 d) = ch_events (h d) \<and> ch_isListen (?h1 d) = ch_isListen (h d)"
      by (cases "c = d") (auto simp: setActiveEvent_def)
    with 2(2) [OF Some refl refl r] 2(3) Some r show ?thesis
      by (auto simp: Let_def)
  qed
qed auto

text \<open>\<open>poll\<close> returns registered channels only, one for each reported event of a registered
  descriptor, in the order of the reports.\<close>

lemma epoll_poll_returned:
  "epoll_poll evs p h = (h', cs, calls) \<Longrightarrow>
   cs = map (\<lambda>(fd, _). the (channels p fd)) (filter (\<lambda>(fd, _). channels p fd \<noteq> None) evs)"
proof (induction evs p h arbitrary: h' cs calls rule: epoll_poll.induct)
  case (2 fd revents evs p h)
  show ?case
  proof (cases "channels p fd")
    case None
    with 2 show ?thesis by simp
  next
    case (Some c)
    let ?h1 = "on_chan c (setActiveEvent (epoll_active revents (h c))) h"
    obtain h2 cs2 calls2 where r: "epoll_poll evs p ?h1 = (h2, cs2, calls2)"
      by (cases "epoll_poll evs p ?h1") auto
    with 2(2) [OF Some refl refl r] 2(3) Some show ?thesis by (auto simp: Let_def)
  qed
qed auto

text \<open>A timer channel stays inactive: whatever \<open>epoll_wait\<close> reported for it, \<open>poll\<close> leaves it
  with no active event, because the code conjoins with \<open>!CHANNEL_READ\<close>, which is zero.\<close>

lemma epoll_poll_timer_inactive:
  "epoll_poll evs p h = (h', cs, calls) \<Longrightarrow> has (ch_events (h c)) CHANNEL_TIMER \<Longrightarrow>
   c \<in> set cs \<or> ch_active (h c) = 0 \<Longrightarrow> ch_active (h' c) = 0"
proof (induction evs p h arbitrary: h' cs calls rule: epoll_poll.induct)
  case (2 fd revents evs p h)
  show ?case
  proof (cases "channels p fd")
    case None
    with 2 show ?thesis by simp
  next
    case (Some d)
    let ?h1 = "on_chan d (setActiveEvent (epoll_active revents (h d))) h"
    obtain h2 cs2 calls2 where r: "epoll_poll evs p ?h1 = (h2, cs2, calls2)"
      by (cases "epoll_poll evs p ?h1") auto
    have t: "has (ch_events (?h1 c)) CHANNEL_TIMER"
      using 2(4) by (cases "c = d") (auto simp: setActiveEvent_def on_chan_def)
    have "c \<in> set cs2 \<or> ch_active (?h1 c) = 0"
      using 2(3-5) Some r epoll_active_timer [OF 2(4)]
      by (cases "c = d") (auto simp: Let_def setActiveEvent_def on_chan_def)
    from 2(2) [OF Some refl refl r t this] 2(3) Some r show ?thesis by (auto simp: Let_def)
  qed
qed auto

lemma epoll_active_cong: "ch_events c = ch_events d \<Longrightarrow> epoll_active revents c = epoll_active revents d"
  by (simp add: epoll_active_def)

lemma epoll_poll_untouched:
  "epoll_poll evs p h = (h', cs, calls) \<Longrightarrow> c \<notin> set cs \<Longrightarrow> h' c = h c"
proof (induction evs p h arbitrary: h' cs calls rule: epoll_poll.induct)
  case (2 fd revents evs p h)
  show ?case
  proof (cases "channels p fd")
    case None
    with 2 show ?thesis by simp
  next
    case (Some d)
    let ?h1 = "on_chan d (setActiveEvent (epoll_active revents (h d))) h"
    obtain h2 cs2 calls2 where r: "epoll_poll evs p ?h1 = (h2, cs2, calls2)"
      by (cases "epoll_poll evs p ?h1") auto
    with 2(2) [OF Some refl refl r] 2(3,4) Some show ?thesis by (auto simp: Let_def)
  qed
qed auto

lemma epoll_poll_translates:
  "epoll_poll evs p h = (h', cs, calls) \<Longrightarrow> reg_ok (channels p) h \<Longrightarrow>
   \<forall>c\<in>set cs. \<exists>revents. (ch_fd (h c), revents) \<in> set evs \<and>
                         ch_active (h' c) = epoll_active revents (h c)"
proof (induction evs p h arbitrary: h' cs calls rule: epoll_poll.induct)
  case (2 fd revents evs p h)
  show ?case
  proof (cases "channels p fd")
    case None
    with 2 show ?thesis by fastforce
  next
    case (Some d)
    let ?h1 = "on_chan d (setActiveEvent (epoll_active revents (h d))) h"
    obtain h2 cs2 calls2 where r: "epoll_poll evs p ?h1 = (h2, cs2, calls2)"
      by (cases "epoll_poll evs p ?h1") auto
    have same: "ch_fd (?h1 c) = ch_fd (h c)" "epoll_active rv (?h1 c) = epoll_active rv (h c)" for c rv
      by (cases "c = d", auto simp: setActiveEvent_def epoll_active_def)+
    have "reg_ok (channels p) ?h1" using 2(4) same(1) by (rule reg_ok_heap)
    note ih = 2(2) [OF Some refl refl r this]
    have cs: "cs = d # cs2" and h': "h' = h2" using 2(3) Some r by (auto simp: Let_def)
    have fd: "ch_fd (h d) = fd" using 2(4) Some by (rule reg_okD)
    have "\<exists>rv. (ch_fd (h d), rv) \<in> set ((fd, revents) # evs) \<and> ch_active (h2 d) = epoll_active rv (h d)"
    proof (cases "d \<in> set cs2")
      case True
      with ih same show ?thesis by fastforce
    next
      case False
      then have "ch_active (h2 d) = epoll_active revents (h d)"
        using epoll_poll_untouched [OF r] by (simp add: setActiveEvent_def)
      with fd show ?thesis by auto
    qed
    with ih same cs h' show ?thesis by fastforce
  qed
qed auto

lemma epoll_active_values:
  "epoll_active revents x = 0 \<or> epoll_active revents x = CHANNEL_READ \<or>
   epoll_active revents x = CHANNEL_WRITE \<and> revents = EPOLLOUT"
  by (simp add: epoll_active_def c_not_def Let_def channel_masks EPOLLIN_def EPOLLOUT_def)

lemma epoll_poll_active_only:
  "epoll_poll evs p h = (h', cs, calls) \<Longrightarrow> \<exists>a. h' d = (h d)\<lparr>ch_active := a\<rparr>"
proof (induction evs p h arbitrary: h' cs calls rule: epoll_poll.induct)
  case (1 p h)
  then show ?case by (auto intro!: exI [of _ "ch_active (h d)"])
next
  case (2 fd revents evs p h)
  show ?case
  proof (cases "channels p fd")
    case None
    with 2 show ?thesis by simp
  next
    case (Some c)
    let ?h1 = "on_chan c (setActiveEvent (epoll_active revents (h c))) h"
    obtain h2 cs2 calls2 where r: "epoll_poll evs p ?h1 = (h2, cs2, calls2)"
      by (cases "epoll_poll evs p ?h1") auto
    have "h' = h2" using 2(3) Some r by (auto simp: Let_def)
    with 2(2) [OF Some refl refl r] show ?thesis
      by (cases "c = d") (auto simp: setActiveEvent_def)
  qed
qed

lemma epoll_poll_distinct:
  assumes "epoll_poll evs p h = (h', cs, calls)" "reg_ok (channels p) h" "distinct (map fst evs)"
  shows "distinct cs"
proof -
  let ?es = "filter (\<lambda>(fd, _). channels p fd \<noteq> None) evs"
  have cs: "cs = map (\<lambda>(fd, _). the (channels p fd)) ?es" using epoll_poll_returned [OF assms(1)] .
  have "distinct (map fst ?es)" using assms(3) by (simp add: distinct_map_filter)
  moreover have "map fst ?es = map (\<lambda>c. ch_fd (h c)) cs"
    unfolding cs using assms(2) by (auto simp: reg_ok_def)
  ultimately have "distinct (map (\<lambda>c. ch_fd (h c)) cs)" by simp
  then show ?thesis by (simp add: distinct_map)
qed

section \<open>Properties\<close>

text \<open>On Linux no timer handler ever runs: after any \<open>poll\<close>, a returned channel that
  waits for CHANNEL_TIMER and is no listener is dispatched by \<open>handleEvent\<close> to no handler at
  all, whatever the kernel reported, although its expiration counter was read.\<close>

theorem epoll_timer_never_dispatched:
  assumes "epoll_poll evs p h = (h', cs, calls)" "c \<in> set cs"
    and "has (ch_events (h c)) CHANNEL_TIMER" "\<not> ch_isListen (h c)"
  shows "handleEvent (h' c) = Inr None"
proof -
  have "ch_active (h' c) = 0"
    using epoll_poll_timer_inactive [OF assms(1,3)] assms(2) by blast
  moreover have "\<not> ch_isListen (h' c)"
    using epoll_poll_other [OF assms(1)] assms(4) by simp
  ultimately show ?thesis by (simp add: handleEvent_inactive)
qed

definition timer_heap :: "nat heap" where
  "timer_heap = (\<lambda>c. setTimerHandler 7 (setEvent CHANNEL_TIMER (Channel_ctor 0 5 False)))"

theorem epoll_timer_never_dispatched_witness:
  "\<exists>h' cs calls. epoll_poll [(5, EPOLLIN)] \<lparr>channels = [5 \<mapsto> 3], wakeup_channel = 0, epollfd = 9\<rparr> timer_heap
     = (h', cs, calls) \<and> cs = [3] \<and> handleEvent (h' 3) = Inr None"
proof -
  let ?p = "\<lparr>channels = [5 \<mapsto> 3], wakeup_channel = 0, epollfd = 9\<rparr>"
  obtain h' cs calls where r: "epoll_poll [(5, EPOLLIN)] ?p timer_heap = (h', cs, calls)"
    by (cases "epoll_poll [(5, EPOLLIN)] ?p timer_heap") auto
  have cs: "cs = [3]" using epoll_poll_returned [OF r] by simp
  have "has (ch_events (timer_heap 3)) CHANNEL_TIMER" "\<not> ch_isListen (timer_heap 3)"
    by (simp_all add: timer_heap_def channel_ops Channel_ctor_def has_def channel_masks)
  from epoll_timer_never_dispatched [OF r _ this] cs r show ?thesis by auto
qed

text \<open>What a report means to a channel, in the constants of \<open>sys/epoll.h\<close>: a timer channel gets nothing;
  any report with the bit of EPOLLIN (1) is a read and only a read, so that readable and writable at once is
  not writable; a write is the report that is exactly EPOLLOUT (4); anything else, an error or a hangup alone
  among it, is nothing.\<close>

lemma epoll_active_cases:
  "epoll_active revents c =
     (if has (ch_events c) CHANNEL_TIMER then 0 else if revents AND 1 \<noteq> 0 then CHANNEL_READ
      else if revents = 4 then CHANNEL_WRITE else 0)"
proof (cases "has (ch_events c) CHANNEL_TIMER")
  case True
  then show ?thesis by (simp add: epoll_active_timer)
next
  case False
  then show ?thesis by (auto simp: epoll_active_def EPOLLIN_def EPOLLOUT_def)
qed

lemma epoll_poll_handler:
  assumes "epoll_poll evs p h = (h', cs, calls)" "ch_active (h' c) = epoll_active revents (h c)"
  shows "handleEvent (h' c) =
    (if ch_isListen (h c) then call_handler (ch_connHandler (h c))
     else if has (ch_events (h c)) CHANNEL_TIMER then Inr None
     else if revents AND 1 \<noteq> 0 then call_handler (ch_readHandler (h c))
     else if revents = 4 then call_handler (ch_writeHandler (h c)) else Inr None)"
proof -
  obtain a where "h' c = (h c)\<lparr>ch_active := a\<rparr>" using epoll_poll_active_only [OF assms(1)] by blast
  with assms(2) show ?thesis
    unfolding epoll_active_cases by (auto simp: handleEvent_def has_def channel_masks)
qed

text \<open>C22. \<open>poll\<close> on Linux: the channels returned are registered ones, one per report on a
  registered descriptor in the order of the reports, and every other channel is untouched. For each channel
  returned there is a report on its own descriptor that decides what \<open>handleEvent\<close> will do with it: a
  listening channel accepts, whatever was reported; a timer channel does nothing; otherwise a report with the
  bit 1 (EPOLLIN) calls the read handler, also when the descriptor is writable as well, the report 4
  (EPOLLOUT) alone the write handler, and any other report nothing. An empty handler throws.\<close>

theorem epoll_poll_correct:
  assumes "epoll_poll evs p h = (h', cs, calls)" "reg_ok (channels p) h"
  shows "cs = map (\<lambda>(fd, _). the (channels p fd)) (filter (\<lambda>(fd, _). channels p fd \<noteq> None) evs) \<and>
         (\<forall>c\<in>set cs. \<exists>revents. (ch_fd (h c), revents) \<in> set evs \<and>
            handleEvent (h' c) =
              (if ch_isListen (h c) then call_handler (ch_connHandler (h c))
               else if has (ch_events (h c)) CHANNEL_TIMER then Inr None
               else if revents AND 1 \<noteq> 0 then call_handler (ch_readHandler (h c))
               else if revents = 4 then call_handler (ch_writeHandler (h c)) else Inr None)) \<and>
         (\<forall>c. c \<notin> set cs \<longrightarrow> h' c = h c)"
proof -
  have "\<exists>revents. (ch_fd (h c), revents) \<in> set evs \<and> ch_active (h' c) = epoll_active revents (h c)"
    if "c \<in> set cs" for c
    using epoll_poll_translates [OF assms] that by blast
  with epoll_poll_handler [OF assms(1)] epoll_poll_returned [OF assms(1)] epoll_poll_untouched [OF assms(1)]
  show ?thesis by fast
qed

text \<open>Descriptor 5 is reported readable and writable: only its read handler is called. Descriptor 9 is not registered.\<close>

theorem epoll_poll_correct_witness:
  "\<exists>h' cs calls. epoll_poll [(9, 4), (5, 5)] \<lparr>channels = [5 \<mapsto> 3], wakeup_channel = 0, epollfd = 9\<rparr>
      (\<lambda>c. setWriteHandler 2 (setReadHandler 1 (Channel_ctor 0 5 False :: nat channel))) = (h', cs, calls) \<and>
     cs = [3] \<and> handleEvent (h' 3) = Inr (Some 1)"
proof -
  let ?p = "\<lparr>channels = [5 \<mapsto> 3], wakeup_channel = 0, epollfd = 9\<rparr>"
  let ?h = "\<lambda>c. setWriteHandler 2 (setReadHandler 1 (Channel_ctor 0 5 False :: nat channel))"
  obtain h' cs calls where r: "epoll_poll [(9, 4), (5, 5)] ?p ?h = (h', cs, calls)"
    by (cases "epoll_poll [(9, 4), (5, 5)] ?p ?h") auto
  have ok: "reg_ok (channels ?p) ?h"
    by (auto simp: reg_ok_def channel_ops Channel_ctor_def split: if_splits)
  have c3: "ch_fd (?h 3) = 5" "\<not> ch_isListen (?h 3)" "\<not> has (ch_events (?h 3)) CHANNEL_TIMER" "ch_readHandler (?h 3) = Some 1"
    by (simp_all add: channel_ops Channel_ctor_def has_def)
  note t = epoll_poll_correct [OF r ok]
  then have cs: "cs = [3]" by simp
  with t c3(1) have "\<exists>rev. (5 :: int, rev) \<in> set [(9, 4), (5, 5 :: 32 word)] \<and> handleEvent (h' 3) =
      (if ch_isListen (?h 3) then call_handler (ch_connHandler (?h 3))
       else if has (ch_events (?h 3)) CHANNEL_TIMER then Inr None
       else if rev AND 1 \<noteq> 0 then call_handler (ch_readHandler (?h 3))
       else if rev = 4 then call_handler (ch_writeHandler (?h 3)) else Inr None)" by fastforce
  then have "handleEvent (h' 3) = Inr (Some 1)" using c3 by (auto simp: call_handler_def)
  then show ?thesis using r cs by auto
qed

text \<open>The event mask \<open>update\<close> registers for a channel that is no timer is the
  uninitialised word of its stack frame with EPOLLIN added for a wanted read or accept and
  EPOLLOUT for a wanted write: every wanted event is in the mask, it is exact when the
  word was zero, and for a channel that wants nothing it is that word.\<close>

theorem epoll_mask_correct:
  assumes "\<not> has evt CHANNEL_TIMER"
  shows "epoll_mask junk evt = junk OR epoll_mask 0 evt \<and>
         ((has evt CHANNEL_READ \<or> has evt CHANNEL_CONN) \<longleftrightarrow> has (epoll_mask 0 evt) EPOLLIN) \<and>
         (has evt CHANNEL_WRITE \<longleftrightarrow> has (epoll_mask 0 evt) EPOLLOUT) \<and>
         epoll_mask junk 0 = junk"
proof -
  have bits: "has EPOLLIN EPOLLIN" "has EPOLLOUT EPOLLOUT" "\<not> has EPOLLIN EPOLLOUT"
    "\<not> has EPOLLOUT EPOLLIN"
    by (simp_all add: has_def EPOLLIN_def EPOLLOUT_def)
  show ?thesis
    using assms by (auto simp: epoll_mask_def Let_def has_or bits or.assoc)
qed

theorem epoll_mask_correct_witness:
  "epoll_mask 16 CHANNEL_WRITE = 20 \<and> has (epoll_mask 0 CHANNEL_WRITE) EPOLLOUT"
proof -
  have "\<not> has CHANNEL_WRITE CHANNEL_TIMER" by (simp add: has_def channel_masks)
  from epoll_mask_correct [OF this, of 16] show ?thesis
    by (simp add: epoll_mask_def has_def channel_masks EPOLLIN_def EPOLLOUT_def)
qed

text \<open>The \<open>itimerspec\<close> of a timer channel with interval \<open>i\<close> milliseconds, \<open>i \<ge> 0\<close>: the
  initial expiration drops the milliseconds, so it is zero (which disarms a timerfd) below
  one second; the reload interval has the full seconds whether or not the timer repeats, so
  a one-shot timer of a second or more is armed to fire again.\<close>

theorem timer_spec_correct:
  assumes "0 \<le> ch_interval c"
  shows "value_sec (timer_spec c) = ch_interval c div 1000 \<and> value_nsec (timer_spec c) = 0 \<and>
         (ch_interval c < 1000 \<longrightarrow> value_sec (timer_spec c) = 0) \<and>
         interval_sec (timer_spec c) = ch_interval c div 1000 \<and>
         interval_nsec (timer_spec c) =
           (if ch_repeat c then (ch_interval c mod 1000) * 1000000 else 0) \<and>
         (1000 \<le> ch_interval c \<longrightarrow> 0 < interval_sec (timer_spec c))"
proof -
  have d: "c_div (ch_interval c) 1000 = ch_interval c div 1000"
    using assms by (cases "ch_interval c = 0") (simp_all add: c_div_def)
  have m: "c_mod (ch_interval c) 1000 = ch_interval c mod 1000"
    by (simp add: c_mod_def d minus_mult_div_eq_mod)
  show ?thesis using assms by (simp add: timer_spec_def Let_def d m pos_imp_zdiv_pos_iff)
qed

theorem timer_spec_correct_witness:
  "value_sec (timer_spec (setInterval 500 (Channel_ctor 0 5 False :: nat channel))) = 0 \<and>
   0 < interval_sec (timer_spec (setInterval 2500 (Channel_ctor 0 5 False :: nat channel)))"
  using timer_spec_correct [of "setInterval 500 (Channel_ctor 0 5 False :: nat channel)"]
    timer_spec_correct [of "setInterval 2500 (Channel_ctor 0 5 False :: nat channel)"]
  by (simp add: channel_ops Channel_ctor_def)

end
