(* ===== verification/Kqueue.thy ===== *)
theory Kqueue
  imports Poller
begin

text \<open>
  \<open>KqueuePoller\<close> (src/net/mac/kqueue_poller.h, src/net/mac/kqueue_poller.cpp), the poller of the
  macOS build. An operation returns the change list it hands to \<open>kevent\<close>; the result
  of that call only decides what is logged. The constants are those of \<open>sys/event.h\<close>.
\<close>

section \<open>Kernel interface\<close>

definition EVFILT_READ :: int where "EVFILT_READ = -1"
definition EVFILT_WRITE :: int where "EVFILT_WRITE = -2"
definition EVFILT_TIMER :: int where "EVFILT_TIMER = -7"
definition EVFILT_USER :: int where "EVFILT_USER = -10"

datatype kev_flag = EV_ADD | EV_DELETE | EV_ENABLE | EV_DISABLE | EV_ONESHOT | EV_CLEAR

record kev =
  kv_ident :: int
  kv_filter :: int
  kv_flags :: "kev_flag list"
  kv_trigger :: bool
  kv_data :: int

definition EV_SET :: "int \<Rightarrow> int \<Rightarrow> kev_flag list \<Rightarrow> int \<Rightarrow> kev" where
  "EV_SET ident filt flags dat =
     \<lparr>kv_ident = ident, kv_filter = filt, kv_flags = flags, kv_trigger = False, kv_data = dat\<rparr>"

section \<open>State and operations\<close>

record kqueue = poller +
  kq_fd :: int

definition WAKEUP_FD :: int where "WAKEUP_FD = 50000"
definition TIMER_FD_BEGIN :: int where "TIMER_FD_BEGIN = 40000"

text \<open>The constructor takes the static counter of wakeup descriptors and returns it advanced.\<close>

definition Kqueue_ctor ::
  "int \<Rightarrow> 32 word \<Rightarrow> int \<Rightarrow> chan_ptr \<Rightarrow> 'h heap \<Rightarrow> kqueue \<times> 'h heap \<times> int \<times> kev list" where
  "Kqueue_ctor kq junk counter w h =
     (\<lparr>channels = Map.empty, wakeup_channel = w, kq_fd = kq\<rparr>,
      h(w := Channel_ctor junk counter False), counter + 1,
      [EV_SET counter EVFILT_USER [EV_ADD, EV_CLEAR] 0])"

definition kq_changes :: "'h channel \<Rightarrow> kev list" where
  "kq_changes c =
     (let fd = ch_fd c; last = ch_last c; evt = ch_events c in
      (if has evt CHANNEL_READ \<or> has last CHANNEL_READ \<or> has evt CHANNEL_CONN
       then [EV_SET fd EVFILT_READ
               (if has evt CHANNEL_READ \<or> has evt CHANNEL_CONN then [EV_ADD, EV_ENABLE]
                else [EV_DISABLE]) 0] else []) @
      (if has last CHANNEL_WRITE \<or> has evt CHANNEL_WRITE
       then [EV_SET fd EVFILT_WRITE
               (if has evt CHANNEL_WRITE then [EV_ADD, EV_ENABLE] else [EV_DISABLE]) 0] else []) @
      (if has evt CHANNEL_TIMER
       then [EV_SET fd EVFILT_TIMER
               (if ch_repeat c then [EV_ADD] else [EV_ADD, EV_ONESHOT]) (ch_interval c)] else []))"

definition kq_update :: "kqueue \<Rightarrow> 'h heap \<Rightarrow> chan_ptr \<Rightarrow> kqueue \<times> 'h heap \<times> kev list" where
  "kq_update p h c =
     (p\<lparr>channels := (channels p)(ch_fd (h c) \<mapsto> c)\<rparr>, on_chan c updateEvent h, kq_changes (h c))"

text \<open>The filter of the second change is the constant CHANNEL_WRITE, as in the code.\<close>

definition kq_remove_changes :: "'h channel \<Rightarrow> kev list" where
  "kq_remove_changes c =
     (let fd = ch_fd c; evt = ch_events c in
      (if has evt CHANNEL_READ then [EV_SET fd EVFILT_READ [EV_DELETE] 0] else []) @
      (if has evt CHANNEL_WRITE then [EV_SET fd (uint CHANNEL_WRITE) [EV_DELETE] 0] else []) @
      (if has evt CHANNEL_TIMER then [EV_SET fd EVFILT_TIMER [EV_DELETE] 0] else []))"

definition kq_remove :: "kqueue \<Rightarrow> 'h heap \<Rightarrow> chan_ptr \<Rightarrow> kqueue \<times> kev list" where
  "kq_remove p h c =
     (if channels p (ch_fd (h c)) \<noteq> None
      then (p\<lparr>channels := (channels p)(ch_fd (h c) := None)\<rparr>, kq_remove_changes (h c))
      else (p, []))"

text \<open>The static counter of timer descriptors: the new value is the result.\<close>

definition kq_getTimerFd :: "int \<Rightarrow> int" where
  "kq_getTimerFd fd = (if fd + 1 \<ge> WAKEUP_FD then TIMER_FD_BEGIN else fd + 1)"

definition kq_active :: "int \<Rightarrow> 32 word" where
  "kq_active filt =
     (let e1 = (if filt = EVFILT_READ then CHANNEL_READ else 0);
          e2 = (if filt = EVFILT_WRITE then e1 OR CHANNEL_WRITE else e1)
      in if filt = EVFILT_TIMER then e2 OR CHANNEL_TIMER else e2)"

text \<open>The loop of \<open>poll\<close> over the pairs of a descriptor and a filter \<open>kevent\<close> returned.\<close>

fun kq_poll :: "(int \<times> int) list \<Rightarrow> kqueue \<Rightarrow> 'h heap \<Rightarrow> 'h heap \<times> chan_ptr list" where
  "kq_poll [] p h = (h, [])"
| "kq_poll ((fd, filt) # evs) p h =
     (case channels p fd of
        None \<Rightarrow> kq_poll evs p h
      | Some c \<Rightarrow>
          let (h2, cs) = kq_poll evs p (on_chan c (setActiveEvent (kq_active filt)) h)
          in (h2, c # cs))"

definition kq_wakeup :: "kqueue \<Rightarrow> 'h heap \<Rightarrow> kev" where
  "kq_wakeup p h =
     (EV_SET (ch_fd (h (wakeup_channel p))) EVFILT_USER [] 0)\<lparr>kv_trigger := True\<rparr>"

section \<open>Lemmas\<close>

definition kq_upd where
  "kq_upd p h c = (let (p', h', ch) = kq_update p h c in (p', h'))"

definition kq_rem where
  "kq_rem p h c = fst (kq_remove p h c)"

interpretation kq: poller_iface kq_upd kq_rem channels
proof unfold_locales
  fix p p' :: kqueue and h h' :: "'a heap" and c
  assume "kq_upd p h c = (p', h')"
  then show "(channels p' = (channels p)(ch_fd (h c) \<mapsto> c) \<and> h' = on_chan c updateEvent h) \<or>
        (channels p' = channels p \<and> h' = h)"
    by (auto simp: kq_upd_def kq_update_def)
next
  fix p :: kqueue and h :: "'a heap" and c
  show "channels (kq_rem p h c) = (channels p)(ch_fd (h c) := None) \<or>
        channels (kq_rem p h c) = channels p"
    by (simp add: kq_rem_def kq_remove_def)
qed

lemma kq_timer_fd_range:
  "TIMER_FD_BEGIN \<le> fd \<Longrightarrow> fd < WAKEUP_FD \<Longrightarrow>
   TIMER_FD_BEGIN \<le> kq_getTimerFd fd \<and> kq_getTimerFd fd < WAKEUP_FD"
  by (auto simp: kq_getTimerFd_def TIMER_FD_BEGIN_def WAKEUP_FD_def)

lemma kq_poll_returned:
  "kq_poll evs p h = (h', cs) \<Longrightarrow>
   cs = map (\<lambda>(fd, _). the (channels p fd)) (filter (\<lambda>(fd, _). channels p fd \<noteq> None) evs)"
proof (induction evs p h arbitrary: h' cs rule: kq_poll.induct)
  case (2 fd filt evs p h)
  then show ?case by (auto simp: Let_def split: option.splits prod.splits)
qed auto

lemma kq_poll_events: "kq_poll evs p h = (h', cs) \<Longrightarrow> ch_events (h' d) = ch_events (h d)"
proof (induction evs p h arbitrary: h' cs rule: kq_poll.induct)
  case (2 fd filt evs p h)
  show ?case
  proof (cases "channels p fd")
    case None
    with 2 show ?thesis by simp
  next
    case (Some c)
    obtain h2 cs2 where r: "kq_poll evs p (on_chan c (setActiveEvent (kq_active filt)) h) = (h2, cs2)"
      by (cases "kq_poll evs p (on_chan c (setActiveEvent (kq_active filt)) h)") auto
    with 2(2) [OF Some r] 2(3) Some show ?thesis
      by (cases "c = d") (auto simp: setActiveEvent_def)
  qed
qed auto

text \<open>Deleting a registered write filter names filter 4, which is none of the filters
  \<open>update\<close> adds, so the write filter stays in the kernel queue.\<close>

lemma kq_remove_misses_write:
  "has (ch_events c) CHANNEL_WRITE \<Longrightarrow>
   \<not> (\<exists>e\<in>set (kq_remove_changes c). kv_filter e = EVFILT_WRITE)"
  by (auto simp: kq_remove_changes_def EV_SET_def Let_def channel_masks EVFILT_READ_def
      EVFILT_WRITE_def EVFILT_TIMER_def split: if_splits)

end
