(* ===== verification/Pollers.thy ===== *)
theory Pollers
  imports Epoller Kqueue
begin

text \<open>
  The two pollers side by side (src/net/linux/epoller.cpp and src/net/mac/kqueue_poller.cpp). A
  program of updates, removals, changes of events and polls runs over either poller through the
  same interface, which is that of the virtual calls of \<open>Poller\<close>; \<open>ready\<close> is what the
  kernel has to report, a descriptor with one direction each, in the words of either.
\<close>

section \<open>Programs over a poller\<close>

datatype ready = Readable int | WritableFd int

datatype poller_op =
    PUpdate chan_ptr
  | PRemove chan_ptr
  | PSetEvent chan_ptr "32 word"
  | PPoll "ready list"

text \<open>The handler \<open>handleEvent\<close> picks for each active channel is what a caller of \<open>poll\<close> sees.\<close>

fun poller_run ::
  "('p \<Rightarrow> 'h heap \<Rightarrow> chan_ptr \<Rightarrow> 'p \<times> 'h heap) \<Rightarrow> ('p \<Rightarrow> 'h heap \<Rightarrow> chan_ptr \<Rightarrow> 'p) \<Rightarrow>
   (ready list \<Rightarrow> 'p \<Rightarrow> 'h heap \<Rightarrow> 'h heap \<times> chan_ptr list) \<Rightarrow> poller_op list \<Rightarrow> 'p \<Rightarrow> 'h heap \<Rightarrow>
   (chan_ptr \<times> 'h option res) list list \<times> 'p \<times> 'h heap" where
  "poller_run upd rem pol [] p h = ([], p, h)"
| "poller_run upd rem pol (PUpdate c # ops) p h =
     (let (p1, h1) = upd p h c in poller_run upd rem pol ops p1 h1)"
| "poller_run upd rem pol (PRemove c # ops) p h = poller_run upd rem pol ops (rem p h c) h"
| "poller_run upd rem pol (PSetEvent c e # ops) p h =
     poller_run upd rem pol ops p (on_chan c (setEvent e) h)"
| "poller_run upd rem pol (PPoll rs # ops) p h =
     (let (h1, cs) = pol rs p h; (outs, p2, h2) = poller_run upd rem pol ops p h1
      in (map (\<lambda>c. (c, handleEvent (h1 c))) cs # outs, p2, h2))"

fun epoll_report :: "ready \<Rightarrow> int \<times> 32 word" where
  "epoll_report (Readable fd) = (fd, EPOLLIN)"
| "epoll_report (WritableFd fd) = (fd, EPOLLOUT)"

fun kq_report :: "ready \<Rightarrow> int \<times> int" where
  "kq_report (Readable fd) = (fd, EVFILT_READ)"
| "kq_report (WritableFd fd) = (fd, EVFILT_WRITE)"

definition epoll_run where
  "epoll_run sys junk = poller_run (epoll_upd sys junk) (epoll_rem sys)
     (\<lambda>rs p h. let (h1, cs, calls) = epoll_poll (map epoll_report rs) p h in (h1, cs))"

definition kq_run where
  "kq_run = poller_run kq_upd kq_rem (\<lambda>rs. kq_poll (map kq_report rs))"

definition no_timers :: "'h heap \<Rightarrow> bool" where
  "no_timers h \<longleftrightarrow> (\<forall>c. \<not> has (ch_events (h c)) CHANNEL_TIMER)"

definition no_timer_op :: "poller_op \<Rightarrow> bool" where
  "no_timer_op op = (case op of PSetEvent c e \<Rightarrow> \<not> has e CHANNEL_TIMER | _ \<Rightarrow> True)"

section \<open>Agreement\<close>

text \<open>One direction at a time, \<open>epoll_active\<close> and \<open>kq_active\<close> translate alike.\<close>

lemma active_agree:
  assumes "\<not> has (ch_events c) CHANNEL_TIMER"
  shows "epoll_active (snd (epoll_report r)) c = kq_active (snd (kq_report r))"
  using assms by (cases r) (simp_all add: epoll_active_def kq_active_def EPOLLIN_def EPOLLOUT_def
      EVFILT_READ_def EVFILT_WRITE_def EVFILT_TIMER_def)

lemma report_fd: "fst (epoll_report r) = fst (kq_report r)"
  by (cases r) simp_all

lemma no_timers_on_chan:
  "no_timers h \<Longrightarrow> (\<not> has (ch_events (h c)) CHANNEL_TIMER \<Longrightarrow> \<not> has (ch_events (f (h c))) CHANNEL_TIMER) \<Longrightarrow>
   no_timers (on_chan c f h)"
  by (simp add: no_timers_def on_chan_def)

lemma poll_agree:
  "channels p = channels q \<Longrightarrow> no_timers h \<Longrightarrow>
   epoll_poll (map epoll_report rs) p h = (h1, cs, calls) \<Longrightarrow>
   kq_poll (map kq_report rs) q h = (h1, cs) \<and> no_timers h1"
proof (induction rs arbitrary: h h1 cs calls)
  case (Cons r rs)
  obtain fd ev where r: "epoll_report r = (fd, ev)" by (cases "epoll_report r")
  show ?case
  proof (cases "channels p fd")
    case None
    with Cons r report_fd [of r] show ?thesis by (cases "kq_report r") auto
  next
    case (Some c)
    have t: "\<not> has (ch_events (h c)) CHANNEL_TIMER" using Cons.prems(2) by (simp add: no_timers_def)
    obtain filt where k: "kq_report r = (fd, filt)" "kq_active filt = epoll_active ev (h c)"
      using active_agree [OF t, of r] report_fd [of r] r by (cases "kq_report r") auto
    let ?h = "on_chan c (setActiveEvent (epoll_active ev (h c))) h"
    obtain h2 cs2 calls2 where e: "epoll_poll (map epoll_report rs) p ?h = (h2, cs2, calls2)"
      by (cases "epoll_poll (map epoll_report rs) p ?h") auto
    have "no_timers ?h" using Cons.prems(2) by (rule no_timers_on_chan) (simp add: setActiveEvent_def)
    from Cons.IH [OF Cons.prems(1) this e] Cons.prems(1,3) Some e r k t show ?thesis
      by (auto simp: Let_def)
  qed
qed auto

lemma update_agree:
  assumes "\<And>call. 0 \<le> sys call" "channels p = channels q" "no_timers h"
    and "epoll_upd sys junk p h c = (p1, h1)" "kq_upd q h c = (q1, h2)"
  shows "channels p1 = channels q1 \<and> h1 = h2 \<and> no_timers h1"
proof -
  have sysn: "\<not> sys call < 0" for call using assms(1) [of call] by simp
  have t: "\<not> has (ch_events (h c)) CHANNEL_TIMER" using assms(3) by (simp add: no_timers_def)
  have "channels p1 = (channels p)(ch_fd (h c) \<mapsto> c)" "h1 = on_chan c updateEvent h"
    using assms(4) t sysn by (auto simp: epoll_upd_def epoll_update_def Let_def)
  moreover have "channels q1 = (channels q)(ch_fd (h c) \<mapsto> c)" "h2 = on_chan c updateEvent h"
    using assms(5) by (auto simp: kq_upd_def kq_update_def)
  ultimately show ?thesis
    using assms(2,3) by (simp add: no_timers_on_chan updateEvent_def)
qed

lemma remove_agree:
  assumes "\<And>call. 0 \<le> sys call" "channels p = channels q"
  shows "channels (epoll_rem sys p h c) = channels (kq_rem q h c)"
proof -
  have "\<not> sys call < 0" for call using assms(1) [of call] by simp
  with assms(2) show ?thesis
    by (simp add: epoll_rem_def kq_rem_def epoll_remove_def kq_remove_def Let_def)
qed

section \<open>Properties\<close>

text \<open>C19. Where the pollers agree. When all system calls succeed, no channel is or becomes a timer, and a poll
  reports each descriptor in one direction only, then over any program of updates, removals, changes of events and
  polls, started with the same map of channels, both return the same active channels in the same order with the
  same handlers, leave every channel the same, and the same map of channels (\<open>channels_\<close>). What they have told the
  kernel is not compared, and differs: \<open>KqueuePoller::remove\<close> names a wrong filter for writing. Nor do they agree outside of
  these conditions: on timers (\<open>TimerProgram\<close>), and on a descriptor that is readable and writable at once.\<close>

theorem pollers_agree:
  assumes "\<And>call. 0 \<le> sys call" "channels p = channels q" "no_timers h"
    and "\<forall>op\<in>set ops. no_timer_op op"
  shows "case epoll_run sys junk ops p h of (outs, p', h') \<Rightarrow>
         \<exists>q'. kq_run ops q h = (outs, q', h') \<and> channels q' = channels p'"
  using assms(2-4)
proof (induction ops arbitrary: p q h)
  case Nil
  then show ?case by (simp add: epoll_run_def kq_run_def)
next
  case (Cons op ops)
  have rest: "\<forall>op\<in>set ops. no_timer_op op" using Cons.prems(3) by simp
  note ih = Cons.IH [OF _ _ rest]
  show ?case
  proof (cases op)
    case (PUpdate c)
    obtain p1 h1 q1 h2 where u: "epoll_upd sys junk p h c = (p1, h1)" "kq_upd q h c = (q1, h2)"
      by (cases "epoll_upd sys junk p h c"; cases "kq_upd q h c")
    from update_agree [OF assms(1) Cons.prems(1,2) u]
    have "channels p1 = channels q1" "h1 = h2" "no_timers h1" by auto
    from ih [OF this(1,3)] this(2) PUpdate u show ?thesis by (simp add: epoll_run_def kq_run_def)
  next
    case (PRemove c)
    have "channels (epoll_rem sys p h c) = channels (kq_rem q h c)"
      using assms(1) Cons.prems(1) by (rule remove_agree)
    from ih [OF this Cons.prems(2)] PRemove show ?thesis by (simp add: epoll_run_def kq_run_def)
  next
    case (PSetEvent c e)
    have "no_timers (on_chan c (setEvent e) h)"
      using Cons.prems(2,3) PSetEvent by (simp add: no_timers_on_chan setEvent_def no_timer_op_def)
    from Cons.prems(1) this PSetEvent ih [of p q "on_chan c (setEvent e) h"] show ?thesis
      by (simp add: epoll_run_def kq_run_def)
  next
    case (PPoll rs)
    obtain h1 cs calls where e: "epoll_poll (map epoll_report rs) p h = (h1, cs, calls)"
      by (cases "epoll_poll (map epoll_report rs) p h") auto
    from poll_agree [OF Cons.prems(1,2) e] Cons.prems(1) PPoll e ih [of p q h1] show ?thesis
      by (auto simp: epoll_run_def kq_run_def split: prod.splits)
  qed
qed

definition two_fd_heap :: "nat heap" where
  "two_fd_heap = (\<lambda>c. setWriteHandler 2 (setReadHandler 1 (Channel_ctor 0 (int c) False)))"

theorem pollers_agree_witness:
  "\<exists>q'. kq_run [PSetEvent 5 CHANNEL_READ, PUpdate 5, PPoll [Readable 5, WritableFd 6], PRemove 5,
                PPoll [Readable 5]]
          \<lparr>channels = Map.empty, wakeup_channel = 0, kq_fd = 3\<rparr> two_fd_heap =
        ([[(5, Inr (Some 1))], []], q', snd (snd (epoll_run (\<lambda>_. 0) 0
          [PSetEvent 5 CHANNEL_READ, PUpdate 5, PPoll [Readable 5, WritableFd 6], PRemove 5,
           PPoll [Readable 5]] \<lparr>channels = Map.empty, wakeup_channel = 0, epollfd = 3\<rparr> two_fd_heap)))"
proof -
  let ?ops = "[PSetEvent 5 CHANNEL_READ, PUpdate 5, PPoll [Readable 5, WritableFd 6], PRemove 5,
               PPoll [Readable 5]]"
  let ?p = "\<lparr>channels = Map.empty, wakeup_channel = 0, epollfd = 3\<rparr>"
  let ?q = "\<lparr>channels = Map.empty, wakeup_channel = 0, kq_fd = 3\<rparr>"
  have t: "no_timers two_fd_heap" "\<forall>op\<in>set ?ops. no_timer_op op"
    by (auto simp: no_timers_def no_timer_op_def two_fd_heap_def channel_ops Channel_ctor_def has_def
        channel_masks)
  have "fst (epoll_run (\<lambda>_. 0) 0 ?ops ?p two_fd_heap) = [[(5, Inr (Some 1))], []]" by code_simp
  with pollers_agree [OF _ _ t, of "\<lambda>_. 0" ?p ?q 0] show ?thesis
    by (cases "epoll_run (\<lambda>_. 0) 0 ?ops ?p two_fd_heap") auto
qed

end
