(* ===== verification/EventLoop.thy ===== *)
theory EventLoop
  imports Poller Epoller Kqueue
begin

text \<open>
  \<open>EventLoop\<close> (src/net/event_loop.h, src/net/event_loop.cpp). The state is a record with the
  poller, the heap of channels, the queue of pending functors and the timers. A functor is
  a closure: in the queue it is a value of the type \<open>'f\<close>, and \<open>exec\<close> says what calling it
  does. The loop's own closures are the constructors of \<open>loop_fn\<close>; \<open>UserFn\<close> holds
  those of its clients. The thread that makes a call is the argument \<open>tid\<close>. Everything
  is polymorphic in the fields that clients add to the record.
\<close>

section \<open>State\<close>

datatype 'u loop_fn =
    UpdateFn chan_ptr
  | RemoveFn chan_ptr
  | AddTimerFn int int bool 'u
  | CancelFn int
  | UserFn 'u

record ('u, 'p, 'h) event_loop =
  el_running :: bool
  el_calling_pending :: bool
  el_thread_id :: nat
  el_poller :: 'p
  el_heap :: "'h heap"
  el_next_ptr :: chan_ptr
  el_pending :: "'u loop_fn list"
  el_timers :: "int \<rightharpoonup> chan_ptr"
  el_wakeups :: nat

text \<open>
  The virtual calls of the poller as a table, and \<open>tm_handler\<close>, the handler a timer channel
  gets for a callback. \<open>el_wakeups\<close> counts the calls of \<open>poller_->wakeup()\<close>; \<open>el_next_ptr\<close> is the
  address the next allocated channel gets.
\<close>

record ('p, 'h, 'u) loop_env =
  vt_update :: "'p \<Rightarrow> 'h heap \<Rightarrow> chan_ptr \<Rightarrow> 'p \<times> 'h heap"
  vt_remove :: "'p \<Rightarrow> 'h heap \<Rightarrow> chan_ptr \<Rightarrow> 'p"
  tm_handler :: "'u \<Rightarrow> 'h"
  tm_junk :: "32 word"

section \<open>Operations\<close>

definition isLoopThread :: "nat \<Rightarrow> ('u, 'p, 'h, 'z) event_loop_scheme \<Rightarrow> bool" where
  "isLoopThread tid L \<longleftrightarrow> el_thread_id L = tid"

text \<open>
  The constructor in thread \<open>tid\<close>: a second loop in a thread is fatal. \<open>existing\<close> is
  \<open>t_loopInThisThread\<close> of that thread.
\<close>

definition EventLoop_ctor ::
  "bool \<Rightarrow> nat \<Rightarrow> 'p \<Rightarrow> 'h heap \<Rightarrow> chan_ptr \<Rightarrow> ('u, 'p, 'h) event_loop res" where
  "EventLoop_ctor existing tid p h nxt =
     (if existing then Inl FatalAbort
      else Inr \<lparr>el_running = False, el_calling_pending = False, el_thread_id = tid,
                el_poller = p, el_heap = h, el_next_ptr = nxt, el_pending = [],
                el_timers = Map.empty, el_wakeups = 0\<rparr>)"

definition loop_wakeup :: "('u, 'p, 'h, 'z) event_loop_scheme \<Rightarrow> ('u, 'p, 'h, 'z) event_loop_scheme" where
  "loop_wakeup L = L\<lparr>el_wakeups := Suc (el_wakeups L)\<rparr>"

definition quit :: "nat \<Rightarrow> ('u, 'p, 'h, 'z) event_loop_scheme \<Rightarrow> ('u, 'p, 'h, 'z) event_loop_scheme" where
  "quit tid L =
     (let L1 = L\<lparr>el_running := False\<rparr>
      in if isLoopThread tid L1 then L1 else loop_wakeup L1)"

text \<open>The destructor only calls \<open>quit\<close>; what is still pending is dropped uncalled.\<close>

definition EventLoop_dtor ::
  "nat \<Rightarrow> ('u, 'p, 'h, 'z) event_loop_scheme \<Rightarrow> ('u, 'p, 'h, 'z) event_loop_scheme" where
  "EventLoop_dtor tid L = quit tid L"

definition queueInLoop ::
  "nat \<Rightarrow> 'u loop_fn \<Rightarrow> ('u, 'p, 'h, 'z) event_loop_scheme \<Rightarrow> ('u, 'p, 'h, 'z) event_loop_scheme" where
  "queueInLoop tid f L =
     (let L1 = L\<lparr>el_pending := el_pending L @ [f]\<rparr>
      in if \<not> isLoopThread tid L1 \<or> el_calling_pending L1 then loop_wakeup L1 else L1)"

text \<open>\<open>runInLoop\<close>: \<open>now\<close> is the effect of calling the closure \<open>f\<close>.\<close>

definition runInLoop ::
  "nat \<Rightarrow> (('u, 'p, 'h, 'z) event_loop_scheme \<Rightarrow> ('u, 'p, 'h, 'z) event_loop_scheme res) \<Rightarrow>
   'u loop_fn \<Rightarrow> ('u, 'p, 'h, 'z) event_loop_scheme \<Rightarrow> ('u, 'p, 'h, 'z) event_loop_scheme res" where
  "runInLoop tid now f L = (if isLoopThread tid L then now L else Inr (queueInLoop tid f L))"

subsection \<open>The closures of the loop\<close>

definition do_update where
  "do_update env c L =
     (let (p, h) = vt_update env (el_poller L) (el_heap L) c
      in L\<lparr>el_poller := p, el_heap := h\<rparr>)"

definition do_remove where
  "do_remove env c L = L\<lparr>el_poller := vt_remove env (el_poller L) (el_heap L) c\<rparr>"

definition do_add_timer where
  "do_add_timer env fd interval rep cb L =
     (let c = el_next_ptr L;
          ch = setFd fd (setTimerHandler (tm_handler env cb) (setEvent CHANNEL_TIMER
                 (setInterval interval (setRepeat rep (Channel_default_ctor (tm_junk env))))));
          L1 = L\<lparr>el_heap := (el_heap L)(c := ch), el_next_ptr := Suc c\<rparr>;
          L2 = do_update env c L1
      in L2\<lparr>el_timers := (el_timers L2)(fd \<mapsto> c)\<rparr>)"

definition do_cancel where
  "do_cancel env i L =
     (case el_timers L i of
        None \<Rightarrow> L
      | Some c \<Rightarrow> (do_remove env c L)\<lparr>el_timers := (el_timers L)(i := None)\<rparr>)"

definition exec_fn ::
  "('p, 'h, 'u) loop_env \<Rightarrow>
   ('u \<Rightarrow> ('u, 'p, 'h, 'z) event_loop_scheme \<Rightarrow> ('u, 'p, 'h, 'z) event_loop_scheme res) \<Rightarrow>
   'u loop_fn \<Rightarrow> ('u, 'p, 'h, 'z) event_loop_scheme \<Rightarrow> ('u, 'p, 'h, 'z) event_loop_scheme res" where
  "exec_fn env user f L =
     (case f of
        UpdateFn c \<Rightarrow> Inr (do_update env c L)
      | RemoveFn c \<Rightarrow> Inr (do_remove env c L)
      | AddTimerFn fd i r cb \<Rightarrow> Inr (do_add_timer env fd i r cb L)
      | CancelFn i \<Rightarrow> Inr (do_cancel env i L)
      | UserFn u \<Rightarrow> user u L)"

subsection \<open>The public calls\<close>

definition updateChannel where
  "updateChannel env tid c = runInLoop tid (\<lambda>L. Inr (do_update env c L)) (UpdateFn c)"

definition removeChannel where
  "removeChannel env tid c = runInLoop tid (\<lambda>L. Inr (do_remove env c L)) (RemoveFn c)"

text \<open>\<open>fd\<close> is the result of \<open>poller_->getTimerFd()\<close>, which the caller gets back as the timer's id.\<close>

definition runAfter where
  "runAfter env tid fd delay cb L =
     bindE (runInLoop tid (\<lambda>L. Inr (do_add_timer env fd delay False cb L))
              (AddTimerFn fd delay False cb) L) (\<lambda>L'. Inr (fd, L'))"

definition runEvery where
  "runEvery env tid fd interval cb L =
     bindE (runInLoop tid (\<lambda>L. Inr (do_add_timer env fd interval True cb L))
              (AddTimerFn fd interval True cb) L) (\<lambda>L'. Inr (fd, L'))"

definition cancel where
  "cancel env tid i = runInLoop tid (\<lambda>L. Inr (do_cancel env i L)) (CancelFn i)"

subsection \<open>Running\<close>

fun run_functors ::
  "('f \<Rightarrow> 'l \<Rightarrow> 'l res) \<Rightarrow> 'f list \<Rightarrow> 'l \<Rightarrow> 'l res" where
  "run_functors exec [] L = Inr L"
| "run_functors exec (f # fs) L = bindE (exec f L) (run_functors exec fs)"

text \<open>An exception that leaves a functor leaves \<open>calling_pending_\<close> set.\<close>

definition doPendingFunctors where
  "doPendingFunctors exec L =
     (let fs = el_pending L; L1 = L\<lparr>el_calling_pending := True, el_pending := []\<rparr>
      in bindE (run_functors exec fs L1) (\<lambda>L2. Inr (L2\<lparr>el_calling_pending := False\<rparr>)))"

text \<open>Dispatch of the active channels; \<open>handler\<close> says what calling a handler does.\<close>

fun handle_active where
  "handle_active handler [] L = Inr L"
| "handle_active handler (c # cs) L =
     bindE (handleEvent (el_heap L c)) (\<lambda>r.
     bindE (case r of None \<Rightarrow> Inr L | Some h \<Rightarrow> handler h L) (handle_active handler cs))"

text \<open>
  One iteration of \<open>loop\<close>: \<open>poll\<close> yields the heap with the active events set and the active
  channels. \<open>loop_run fuel\<close> runs at most \<open>fuel\<close> iterations and is None when the loop is
  still running after them; \<open>poll n\<close> is what the poller does in iteration \<open>n\<close>.
\<close>

definition loop_iteration where
  "loop_iteration poll handler exec L =
     (let (h, cs) = poll (el_poller L) (el_heap L)
      in bindE (handle_active handler cs (L\<lparr>el_heap := h\<rparr>)) (doPendingFunctors exec))"

fun loop_run where
  "loop_run 0 n poll handler exec L = (if el_running L then None else Some (Inr L))"
| "loop_run (Suc fuel) n poll handler exec L =
     (if el_running L
      then (case loop_iteration (poll n) handler exec L of
              Inl e \<Rightarrow> Some (Inl e)
            | Inr L' \<Rightarrow> loop_run fuel (Suc n) poll handler exec L')
      else Some (Inr L))"

definition loop where
  "loop fuel tid poll handler exec L =
     (if isLoopThread tid L \<and> \<not> el_running L
      then loop_run fuel 0 poll handler exec (L\<lparr>el_running := True\<rparr>)
      else Some (Inl AssertFailed))"

section \<open>Elementary facts\<close>

lemmas loop_fn_defs = do_update_def do_remove_def do_add_timer_def do_cancel_def

lemma do_update_frame [simp]:
  "el_running (do_update env c L) = el_running L"
  "el_calling_pending (do_update env c L) = el_calling_pending L"
  "el_thread_id (do_update env c L) = el_thread_id L"
  "el_next_ptr (do_update env c L) = el_next_ptr L"
  "el_pending (do_update env c L) = el_pending L"
  "el_timers (do_update env c L) = el_timers L"
  "el_wakeups (do_update env c L) = el_wakeups L"
  by (simp_all add: do_update_def split: prod.split)

lemma do_remove_frame [simp]:
  "el_running (do_remove env c L) = el_running L"
  "el_calling_pending (do_remove env c L) = el_calling_pending L"
  "el_thread_id (do_remove env c L) = el_thread_id L"
  "el_heap (do_remove env c L) = el_heap L"
  "el_next_ptr (do_remove env c L) = el_next_ptr L"
  "el_pending (do_remove env c L) = el_pending L"
  "el_timers (do_remove env c L) = el_timers L"
  by (simp_all add: do_remove_def)

lemma run_functors_append:
  "run_functors exec (fs @ gs) L = bindE (run_functors exec fs L) (run_functors exec gs)"
proof (induction fs arbitrary: L)
  case (Cons f fs)
  then show ?case by (cases "exec f L") auto
qed simp

lemma runInLoop_here: "isLoopThread tid L \<Longrightarrow> runInLoop tid now f L = now L"
  by (simp add: runInLoop_def)

lemma runInLoop_elsewhere:
  "\<not> isLoopThread tid L \<Longrightarrow>
   runInLoop tid now f L = Inr (L\<lparr>el_pending := el_pending L @ [f], el_wakeups := Suc (el_wakeups L)\<rparr>)"
  by (simp add: runInLoop_def queueInLoop_def loop_wakeup_def isLoopThread_def Let_def)

section \<open>The loop invariant\<close>

text \<open>
  A functor in the queue refers to allocated channels only.
\<close>

definition fn_ok :: "chan_ptr \<Rightarrow> 'u loop_fn \<Rightarrow> bool" where
  "fn_ok n f = (case f of UpdateFn c \<Rightarrow> c < n | RemoveFn c \<Rightarrow> c < n | _ \<Rightarrow> True)"

lemma fn_ok_mono: "fn_ok n f \<Longrightarrow> n \<le> m \<Longrightarrow> fn_ok m f"
  by (auto simp: fn_ok_def split: loop_fn.splits)

definition loop_ok :: "('p \<Rightarrow> int \<rightharpoonup> chan_ptr) \<Rightarrow> ('u, 'p, 'h, 'z) event_loop_scheme \<Rightarrow> bool" where
  "loop_ok chans L \<longleftrightarrow>
     reg_ok (chans (el_poller L)) (el_heap L) \<and>
     reg_ok (el_timers L) (el_heap L) \<and>
     (\<forall>c\<in>ran (chans (el_poller L)). c < el_next_ptr L) \<and>
     (\<forall>c\<in>ran (el_timers L). c < el_next_ptr L) \<and>
     (\<forall>f\<in>set (el_pending L). fn_ok (el_next_ptr L) f)"

text \<open>What a client's closure must keep: the invariant, and allocated addresses stay allocated.\<close>

definition keeps_loop :: "('p \<Rightarrow> int \<rightharpoonup> chan_ptr) \<Rightarrow>
  (('u, 'p, 'h, 'z) event_loop_scheme \<Rightarrow> ('u, 'p, 'h, 'z) event_loop_scheme res) \<Rightarrow> bool" where
  "keeps_loop chans f \<longleftrightarrow>
     (\<forall>L L'. loop_ok chans L \<longrightarrow> f L = Inr L' \<longrightarrow>
        loop_ok chans L' \<and> el_next_ptr L \<le> el_next_ptr L')"

lemma keeps_loopD:
  "keeps_loop chans f \<Longrightarrow> loop_ok chans L \<Longrightarrow> f L = Inr L' \<Longrightarrow>
   loop_ok chans L' \<and> el_next_ptr L \<le> el_next_ptr L'"
  by (simp add: keeps_loop_def)

context poller_iface
begin

lemma do_update_ok:
  assumes "vt_update env = upd" "loop_ok chans L" "c < el_next_ptr L"
  shows "loop_ok chans (do_update env c L)"
proof -
  obtain p h where u: "upd (el_poller L) (el_heap L) c = (p, h)"
    by (cases "upd (el_poller L) (el_heap L) c") auto
  have old: "\<forall>d\<in>ran (chans (el_poller L)). d < el_next_ptr L"
    using assms(2) by (simp add: loop_ok_def)
  have "\<forall>d\<in>ran (chans p). d < el_next_ptr L"
    using upd_law [OF u]
  proof (elim disjE conjE)
    assume "chans p = (chans (el_poller L))(ch_fd (el_heap L c) \<mapsto> c)"
    with old assms(3) show ?thesis by (auto simp: ran_def split: if_splits)
  next
    assume "chans p = chans (el_poller L)"
    with old show ?thesis by simp
  qed
  moreover have "reg_ok (chans p) h"
    using upd_reg_ok [OF _ u] assms(2) by (simp add: loop_ok_def)
  moreover have "reg_ok (el_timers L) h"
    using reg_ok_heap [OF _ upd_fd [OF u]] assms(2) by (simp add: loop_ok_def)
  ultimately show ?thesis
    using assms(2) by (simp add: loop_ok_def do_update_def assms(1) u)
qed

lemma do_remove_ok:
  assumes "vt_remove env = rem" "loop_ok chans L"
  shows "loop_ok chans (do_remove env c L)"
proof -
  have "ran (chans (rem (el_poller L) (el_heap L) c)) \<subseteq> ran (chans (el_poller L))"
    using rem_law [of "el_poller L" "el_heap L" c] by (auto simp: ran_def split: if_splits)
  then show ?thesis
    using assms rem_reg_ok [of "el_poller L" "el_heap L" c] by (auto simp: loop_ok_def do_remove_def)
qed

lemma fresh_heap_ok:
  assumes "loop_ok chans L"
  shows "loop_ok chans (L\<lparr>el_heap := (el_heap L)(el_next_ptr L := ch), el_next_ptr := Suc (el_next_ptr L)\<rparr>)"
proof -
  let ?n = "el_next_ptr L"
  have p: "c \<noteq> ?n" if "chans (el_poller L) fd = Some c" for fd c
    using assms that by (auto simp: loop_ok_def dest: ranI)
  have t: "c \<noteq> ?n" if "el_timers L fd = Some c" for fd c
    using assms that by (auto simp: loop_ok_def dest: ranI)
  have "reg_ok (chans (el_poller L)) ((el_heap L)(?n := ch))" "reg_ok (el_timers L) ((el_heap L)(?n := ch))"
    using assms p t by (auto simp: loop_ok_def reg_ok_def)
  with assms show ?thesis
    by (auto simp: loop_ok_def less_SucI intro: fn_ok_mono)
qed

lemma do_add_timer_ok:
  assumes "vt_update env = upd" "loop_ok chans L"
  shows "loop_ok chans (do_add_timer env fd i r cb L)"
proof -
  let ?c = "el_next_ptr L"
  define ch where "ch = setFd fd (setTimerHandler (tm_handler env cb) (setEvent CHANNEL_TIMER
      (setInterval i (setRepeat r (Channel_default_ctor (tm_junk env))))))"
  define L1 where "L1 = L\<lparr>el_heap := (el_heap L)(?c := ch), el_next_ptr := Suc ?c\<rparr>"
  have L1: "loop_ok chans L1" unfolding L1_def using assms(2) by (rule fresh_heap_ok)
  have n: "?c < el_next_ptr L1" by (simp add: L1_def)
  have ok2: "loop_ok chans (do_update env ?c L1)" by (rule do_update_ok [OF assms(1) L1 n])
  have fd: "ch_fd (el_heap (do_update env ?c L1) ?c) = fd"
    using upd_fd [of "el_poller L1" "el_heap L1" ?c]
    by (auto simp: do_update_def assms(1) split: prod.split)
       (auto simp: L1_def ch_def setFd_def)
  have "do_add_timer env fd i r cb L =
      (do_update env ?c L1)\<lparr>el_timers := (el_timers (do_update env ?c L1))(fd \<mapsto> ?c)\<rparr>"
    by (simp add: do_add_timer_def Let_def L1_def ch_def)
  with ok2 fd n show ?thesis
    by (auto simp: loop_ok_def reg_ok_def ran_def split: if_splits)
qed

lemma do_cancel_ok:
  assumes "vt_remove env = rem" "loop_ok chans L"
  shows "loop_ok chans (do_cancel env i L)"
proof (cases "el_timers L i")
  case None
  then show ?thesis using assms(2) by (simp add: do_cancel_def)
next
  case (Some c)
  have "loop_ok chans (do_remove env c L)" by (rule do_remove_ok [OF assms])
  with Some show ?thesis
    by (auto simp: do_cancel_def loop_ok_def reg_ok_def ran_def split: if_splits)
qed

lemma do_next_ptr:
  "el_next_ptr L \<le> el_next_ptr (do_add_timer env fd i r cb L)"
  "el_next_ptr (do_cancel env i L) = el_next_ptr L"
  by (auto simp: do_add_timer_def do_cancel_def Let_def split: option.split)

lemma exec_fn_ok:
  assumes env: "vt_update env = upd" "vt_remove env = rem"
    and user: "\<And>u. keeps_loop chans (user u)"
    and ok: "loop_ok chans L" "fn_ok (el_next_ptr L) f" and e: "exec_fn env user f L = Inr L'"
  shows "loop_ok chans L' \<and> el_next_ptr L \<le> el_next_ptr L'"
proof (cases f)
  case (UpdateFn c)
  with ok e do_update_ok [OF env(1)] show ?thesis by (auto simp: exec_fn_def fn_ok_def)
next
  case (RemoveFn c)
  with ok e do_remove_ok [OF env(2)] show ?thesis by (auto simp: exec_fn_def)
next
  case (AddTimerFn fd i r cb)
  with ok e do_add_timer_ok [OF env(1)] show ?thesis by (auto simp: exec_fn_def do_next_ptr)
next
  case (CancelFn i)
  with ok e do_cancel_ok [OF env(2)] show ?thesis by (auto simp: exec_fn_def do_next_ptr)
next
  case (UserFn u)
  with ok e user [of u] show ?thesis by (auto simp: exec_fn_def dest: keeps_loopD)
qed

lemma run_functors_ok:
  assumes env: "vt_update env = upd" "vt_remove env = rem"
    and user: "\<And>u. keeps_loop chans (user u)"
  shows "loop_ok chans L \<Longrightarrow> \<forall>f\<in>set fs. fn_ok (el_next_ptr L) f \<Longrightarrow>
         run_functors (exec_fn env user) fs L = Inr L' \<Longrightarrow>
         loop_ok chans L' \<and> el_next_ptr L \<le> el_next_ptr L'"
proof (induction fs arbitrary: L)
  case Nil
  then show ?case by simp
next
  case (Cons f fs)
  then obtain L1 where L1: "exec_fn env user f L = Inr L1"
    and r: "run_functors (exec_fn env user) fs L1 = Inr L'" by auto
  have s: "loop_ok chans L1" "el_next_ptr L \<le> el_next_ptr L1"
    using exec_fn_ok [OF env user Cons.prems(1) _ L1] Cons.prems(2) by auto
  have "\<forall>f\<in>set fs. fn_ok (el_next_ptr L1) f"
    using Cons.prems(2) fn_ok_mono [OF _ s(2)] by auto
  from Cons.IH [OF s(1) this r] s(2) show ?case by auto
qed

lemma doPendingFunctors_ok:
  assumes env: "vt_update env = upd" "vt_remove env = rem"
    and user: "\<And>u. keeps_loop chans (user u)"
    and ok: "loop_ok chans L" and d: "doPendingFunctors (exec_fn env user) L = Inr L'"
  shows "loop_ok chans L' \<and> el_next_ptr L \<le> el_next_ptr L' \<and> \<not> el_calling_pending L'"
proof -
  let ?L1 = "L\<lparr>el_calling_pending := True, el_pending := []\<rparr>"
  obtain L2 where r: "run_functors (exec_fn env user) (el_pending L) ?L1 = Inr L2"
    and L': "L' = L2\<lparr>el_calling_pending := False\<rparr>"
    using d by (auto simp: doPendingFunctors_def Let_def)
  have "loop_ok chans ?L1" "\<forall>f\<in>set (el_pending L). fn_ok (el_next_ptr ?L1) f"
    using ok by (auto simp: loop_ok_def)
  from run_functors_ok [OF env user this r] show ?thesis by (simp add: L' loop_ok_def)
qed

lemma handle_active_ok:
  assumes "\<And>x. keeps_loop chans (handler x)"
  shows "loop_ok chans L \<Longrightarrow> handle_active handler cs L = Inr L' \<Longrightarrow>
         loop_ok chans L' \<and> el_next_ptr L \<le> el_next_ptr L'"
proof (induction cs arbitrary: L)
  case Nil
  then show ?case by simp
next
  case (Cons c cs)
  then obtain r L1 where e: "handleEvent (el_heap L c) = Inr r"
    and h: "(case r of None \<Rightarrow> Inr L | Some x \<Rightarrow> handler x L) = Inr L1"
    and k: "handle_active handler cs L1 = Inr L'" by auto
  have "loop_ok chans L1 \<and> el_next_ptr L \<le> el_next_ptr L1"
  proof (cases r)
    case None
    with h Cons.prems(1) show ?thesis by simp
  next
    case (Some x)
    with h have "handler x L = Inr L1" by simp
    with assms [of x] Cons.prems(1) show ?thesis by (rule keeps_loopD)
  qed
  with Cons.IH [OF _ k] show ?case by auto
qed

lemma loop_iteration_ok:
  assumes env: "vt_update env = upd" "vt_remove env = rem"
    and user: "\<And>u. keeps_loop chans (user u)" and hd: "\<And>x. keeps_loop chans (handler x)"
    and poll: "\<And>p h h' cs c. poll p h = (h', cs) \<Longrightarrow> ch_fd (h' c) = ch_fd (h c)"
    and ok: "loop_ok chans L"
    and it: "loop_iteration poll handler (exec_fn env user) L = Inr L'"
  shows "loop_ok chans L' \<and> \<not> el_calling_pending L'"
proof -
  obtain h cs where p: "poll (el_poller L) (el_heap L) = (h, cs)"
    by (cases "poll (el_poller L) (el_heap L)") auto
  let ?L0 = "L\<lparr>el_heap := h\<rparr>"
  obtain L1 where a: "handle_active handler cs ?L0 = Inr L1"
    and d: "doPendingFunctors (exec_fn env user) L1 = Inr L'"
    using it p by (auto simp: loop_iteration_def)
  have "loop_ok chans ?L0"
    using ok poll [OF p] by (auto simp: loop_ok_def intro: reg_ok_heap)
  from handle_active_ok [OF hd this a] have "loop_ok chans L1" by simp
  from doPendingFunctors_ok [OF env user this d] show ?thesis by simp
qed

end

section \<open>Properties\<close>

definition epoll_poll_call ::
  "(int \<times> 32 word) list \<Rightarrow> epoller \<Rightarrow> 'h heap \<Rightarrow> 'h heap \<times> chan_ptr list" where
  "epoll_poll_call evs p h = (let (h', cs, calls) = epoll_poll evs p h in (h', cs))"

lemma epoll_poll_call_fd: "epoll_poll_call evs p h = (h', cs) \<Longrightarrow> ch_fd (h' c) = ch_fd (h c)"
  by (auto simp: epoll_poll_call_def split: prod.splits dest: epoll_poll_fd)

text \<open>One iteration of the loop over the Linux poller, with any reported events, keeps
  the loop invariant: every registered channel and every timer sits under its own
  descriptor, all of them and all channels named by queued functors are allocated; and
  \<open>calling_pending_\<close> is down again. Handlers and client closures are arbitrary, as long as
  each keeps the invariant.\<close>

theorem epoll_loop_iteration_invariant:
  assumes "vt_update env = epoll_upd sys junk" "vt_remove env = epoll_rem sys"
    and "\<And>u. keeps_loop channels (user u)" "\<And>x. keeps_loop channels (handler x)"
    and "loop_ok channels L"
    and "loop_iteration (epoll_poll_call evs) handler (exec_fn env user) L = Inr L'"
  shows "loop_ok channels L' \<and> \<not> el_calling_pending L'"
  using ep.loop_iteration_ok [where user = user and handler = handler and poll = "epoll_poll_call evs",
      OF assms(1-4) _ assms(5,6)] epoll_poll_call_fd by blast

definition demo_env :: "(epoller, nat, nat) loop_env" where
  "demo_env = \<lparr>vt_update = epoll_upd (\<lambda>_. 0) 0, vt_remove = epoll_rem (\<lambda>_. 0),
               tm_handler = (\<lambda>u. u), tm_junk = 0\<rparr>"

definition demo_loop :: "nat loop_fn list \<Rightarrow> (nat, epoller, nat) event_loop" where
  "demo_loop fs = \<lparr>el_running = False, el_calling_pending = False, el_thread_id = 0,
     el_poller = \<lparr>channels = Map.empty, wakeup_channel = 0, epollfd = 3\<rparr>,
     el_heap = (\<lambda>_. Channel_ctor 0 5 False), el_next_ptr = 1, el_pending = fs,
     el_timers = Map.empty, el_wakeups = 0\<rparr>"

lemma demo_loop_ok: "\<forall>f\<in>set fs. fn_ok 1 f \<Longrightarrow> loop_ok channels (demo_loop fs)"
  by (simp add: loop_ok_def demo_loop_def reg_ok_def)

lemma keeps_loop_Inr: "keeps_loop chans Inr"
  by (simp add: keeps_loop_def)

theorem epoll_loop_iteration_invariant_witness:
  "\<exists>L'. loop_iteration (epoll_poll_call [(5, 1)]) (\<lambda>_. Inr) (exec_fn demo_env (\<lambda>_. Inr))
          (demo_loop [UpdateFn 0, AddTimerFn 8 2000 True 4, RemoveFn 0]) = Inr L' \<and>
        loop_ok channels L' \<and> \<not> el_calling_pending L'"
proof -
  let ?L = "demo_loop [UpdateFn 0, AddTimerFn 8 2000 True 4, RemoveFn 0]"
  have "\<exists>L'. loop_iteration (epoll_poll_call [(5, 1)]) (\<lambda>_. Inr) (exec_fn demo_env (\<lambda>_. Inr)) ?L = Inr L'"
    by (simp add: loop_iteration_def epoll_poll_call_def demo_loop_def doPendingFunctors_def Let_def
        exec_fn_def)
  then obtain L' where it:
    "loop_iteration (epoll_poll_call [(5, 1)]) (\<lambda>_. Inr) (exec_fn demo_env (\<lambda>_. Inr)) ?L = Inr L'" ..
  have env: "vt_update demo_env = epoll_upd (\<lambda>_. 0) 0" "vt_remove demo_env = epoll_rem (\<lambda>_. 0)"
    by (simp_all add: demo_env_def)
  have "loop_ok channels ?L" by (rule demo_loop_ok) (simp add: fn_ok_def)
  from epoll_loop_iteration_invariant [OF env keeps_loop_Inr keeps_loop_Inr this it] it
  show ?thesis by blast
qed

text \<open>A timer of the Linux loop: when the kernel accepts the calls, \<open>runEvery\<close> on the loop
  thread returns the descriptor as the timer's id and leaves a freshly allocated timer
  channel, with the interval, the repeat flag and the callback, registered under it;
  \<open>cancel\<close> of that id then forgets both the registration and the timer.\<close>

theorem timer_lifecycle:
  assumes "vt_update env = epoll_upd sys junk" "vt_remove env = epoll_rem sys"
    and "\<And>call. 0 \<le> sys call" "isLoopThread tid L"
  shows "\<exists>L1 L2. runEvery env tid fd i cb L = Inr (fd, L1) \<and>
           el_timers L1 fd = Some (el_next_ptr L) \<and>
           channels (el_poller L1) fd = Some (el_next_ptr L) \<and>
           ch_events (el_heap L1 (el_next_ptr L)) = CHANNEL_TIMER \<and>
           ch_interval (el_heap L1 (el_next_ptr L)) = i \<and> ch_repeat (el_heap L1 (el_next_ptr L)) \<and>
           ch_timerHandler (el_heap L1 (el_next_ptr L)) = Some (tm_handler env cb) \<and>
           cancel env tid fd L1 = Inr L2 \<and> el_timers L2 fd = None \<and>
           channels (el_poller L2) fd = None"
proof -
  have sys: "\<not> sys call < 0" "sys call \<noteq> -1" for call
    using assms(3) [of call] by auto
  show ?thesis
    using assms(4)
    by (simp add: runEvery_def cancel_def runInLoop_def do_add_timer_def do_cancel_def do_update_def
        do_remove_def assms(1,2) epoll_upd_def epoll_rem_def epoll_update_def epoll_remove_def sys
        Let_def isLoopThread_def channel_ops Channel_default_ctor_def Channel_ctor_def on_chan_def)
qed

theorem timer_lifecycle_witness:
  "\<exists>L1 L2. runEvery demo_env 0 8 2000 4 (demo_loop []) = Inr (8, L1) \<and> el_timers L1 8 = Some 1 \<and>
           cancel demo_env 0 8 L1 = Inr L2 \<and> channels (el_poller L2) 8 = None"
proof -
  have env: "vt_update demo_env = epoll_upd (\<lambda>_. 0) 0" "vt_remove demo_env = epoll_rem (\<lambda>_. 0)"
    by (simp_all add: demo_env_def)
  have "isLoopThread 0 (demo_loop [])" "el_next_ptr (demo_loop []) = 1"
    by (simp_all add: isLoopThread_def demo_loop_def)
  with timer_lifecycle [OF env _ this(1), of 8 2000 4] show ?thesis by auto
qed

definition loop_closure :: "'u loop_fn \<Rightarrow> bool" where
  "loop_closure f = (case f of UserFn u \<Rightarrow> False | _ \<Rightarrow> True)"

definition same_effect where
  "same_effect L M \<longleftrightarrow> el_poller L = el_poller M \<and> el_heap L = el_heap M \<and>
     el_next_ptr L = el_next_ptr M \<and> el_timers L = el_timers M"

text \<open>Thread confinement: a call the loop receives from another thread (\<open>updateChannel\<close>,
  \<open>removeChannel\<close>, \<open>runAfter\<close>, \<open>runEvery\<close>, \<open>cancel\<close> through \<open>runInLoop\<close>) touches neither the poller nor
  the channels nor the timers; it queues one functor and wakes the loop. The next
  \<open>doPendingFunctors\<close> of an otherwise empty queue has the effect the call would have had
  on the loop thread, and empties the queue.\<close>

theorem deferred_call:
  assumes "\<not> isLoopThread tid L" "el_pending L = []" "loop_closure f"
  shows "\<exists>L1 L2 Ld. runInLoop tid (exec_fn env user f) f L = Inr L1 \<and> same_effect L1 L \<and>
           el_pending L1 = [f] \<and> el_wakeups L1 = Suc (el_wakeups L) \<and>
           doPendingFunctors (exec_fn env user) L1 = Inr L2 \<and>
           exec_fn env user f L = Inr Ld \<and> same_effect L2 Ld \<and> el_pending L2 = []"
  using assms
  by (cases f)
     (auto simp: runInLoop_elsewhere same_effect_def doPendingFunctors_def exec_fn_def Let_def
       loop_closure_def loop_fn_defs split: prod.splits option.splits)

theorem deferred_call_witness:
  "\<exists>L1 L2. runInLoop 1 (exec_fn demo_env (\<lambda>_. Inr) (UpdateFn 0)) (UpdateFn 0) (demo_loop []) = Inr L1 \<and>
     el_pending L1 = [UpdateFn 0] \<and> doPendingFunctors (exec_fn demo_env (\<lambda>_. Inr)) L1 = Inr L2 \<and>
     el_pending L2 = []"
proof -
  have "\<not> isLoopThread 1 (demo_loop [])" "el_pending (demo_loop []) = []" "loop_closure (UpdateFn 0)"
    by (simp_all add: isLoopThread_def demo_loop_def loop_closure_def)
  from deferred_call [OF this, of demo_env "\<lambda>_. Inr"] show ?thesis by blast
qed

fun iterate where
  "iterate 0 n poll handler exec L = Inr L"
| "iterate (Suc k) n poll handler exec L =
     bindE (loop_iteration (poll n) handler exec L) (iterate k (Suc n) poll handler exec)"

lemma loop_run_iterate:
  "loop_run fuel n poll handler exec L = Some (Inr L') \<longleftrightarrow>
     (\<exists>k\<le>fuel. iterate k n poll handler exec L = Inr L' \<and> \<not> el_running L' \<and>
        (\<forall>j<k. \<exists>M. iterate j n poll handler exec L = Inr M \<and> el_running M))"
proof (induction fuel arbitrary: n L)
  case 0
  then show ?case by auto
next
  case (Suc fuel)
  let ?it = "loop_iteration (poll n) handler exec L"
  show ?case
  proof (cases "el_running L")
    case False
    have "k = 0" if "\<forall>j<k. \<exists>M. iterate j n poll handler exec L = Inr M \<and> el_running M" for k
      using that False by (cases k) fastforce+
    then show ?thesis using False by fastforce
  next
    case True
    have shift: "(\<forall>j<Suc k. \<exists>M. iterate j n poll handler exec L = Inr M \<and> el_running M) \<longleftrightarrow>
        (\<forall>j<k. \<exists>M. bindE ?it (iterate j (Suc n) poll handler exec) = Inr M \<and> el_running M)" for k
      using True by (simp add: All_less_Suc2)
    have "(\<exists>k\<le>Suc fuel. iterate k n poll handler exec L = Inr L' \<and> \<not> el_running L' \<and>
             (\<forall>j<k. \<exists>M. iterate j n poll handler exec L = Inr M \<and> el_running M)) \<longleftrightarrow>
          (\<exists>k\<le>fuel. bindE ?it (iterate k (Suc n) poll handler exec) = Inr L' \<and> \<not> el_running L' \<and>
             (\<forall>j<k. \<exists>M. bindE ?it (iterate j (Suc n) poll handler exec) = Inr M \<and> el_running M))"
      (is "?A = ?B")
    proof
      assume ?A
      then obtain k where k: "k \<le> Suc fuel" "iterate k n poll handler exec L = Inr L'"
        "\<not> el_running L'" "\<forall>j<k. \<exists>M. iterate j n poll handler exec L = Inr M \<and> el_running M" by blast
      with True obtain k' where "k = Suc k'" by (cases k) auto
      with k shift show ?B by auto
    next
      assume ?B
      then obtain k where "k \<le> fuel" "bindE ?it (iterate k (Suc n) poll handler exec) = Inr L'"
        "\<not> el_running L'"
        "\<forall>j<k. \<exists>M. bindE ?it (iterate j (Suc n) poll handler exec) = Inr M \<and> el_running M" by blast
      with shift [of k] show ?A by (intro exI [of _ "Suc k"]) auto
    qed
    then show ?thesis using True Suc.IH by (cases ?it) auto
  qed
qed

text \<open>\<open>loop\<close> returns exactly when \<open>running_\<close> is down after some iteration: it returns the
  state of the first such iteration, and it starts only on its own thread and when not
  already running. \<open>iterate k\<close> runs \<open>k\<close> iterations without looking at \<open>running_\<close>.\<close>

theorem loop_returns_iff:
  "loop fuel tid poll handler exec L = Some (Inr L') \<longleftrightarrow>
     isLoopThread tid L \<and> \<not> el_running L \<and>
     (\<exists>k\<le>fuel. iterate k 0 poll handler exec (L\<lparr>el_running := True\<rparr>) = Inr L' \<and> \<not> el_running L' \<and>
        (\<forall>j<k. \<exists>M. iterate j 0 poll handler exec (L\<lparr>el_running := True\<rparr>) = Inr M \<and> el_running M))"
  by (simp add: loop_def loop_run_iterate)

theorem loop_returns_iff_witness:
  "\<exists>L'. loop 3 0 (\<lambda>_ p h. (h, [])) (\<lambda>_. Inr) (exec_fn demo_env (\<lambda>_ L. Inr (quit 0 L)))
          (demo_loop [UserFn 1]) = Some (Inr L') \<and> \<not> el_running L'"
proof -
  let ?poll = "\<lambda>_ p h. (h, [])"
  let ?exec = "exec_fn demo_env (\<lambda>_ L. Inr (quit 0 L))"
  let ?L = "demo_loop [UserFn 1]"
  have "\<exists>L'. iterate 1 0 ?poll (\<lambda>_. Inr) ?exec (?L\<lparr>el_running := True\<rparr>) = Inr L' \<and> \<not> el_running L'"
    by (simp add: loop_iteration_def doPendingFunctors_def exec_fn_def quit_def demo_loop_def
        isLoopThread_def Let_def)
  then obtain L' where "iterate 1 0 ?poll (\<lambda>_. Inr) ?exec (?L\<lparr>el_running := True\<rparr>) = Inr L'"
    "\<not> el_running L'" by blast
  moreover have "isLoopThread 0 ?L" "\<not> el_running ?L" by (simp_all add: isLoopThread_def demo_loop_def)
  ultimately have "loop 3 0 ?poll (\<lambda>_. Inr) ?exec ?L = Some (Inr L')"
    unfolding loop_returns_iff by (intro conjI exI [of _ 1]) auto
  with \<open>\<not> el_running L'\<close> show ?thesis by blast
qed

end
