(* ===== verification/LoopSync.thy ===== *)
theory LoopSync
  imports EventLoop
begin

text \<open>
  The loop thread and the threads that call \<open>runInLoop\<close> and \<open>quit\<close> on it, interleaved
  (src/net/event_loop.cpp: \<open>loop\<close>, \<open>doPendingFunctors\<close>, \<open>queueInLoop\<close>, \<open>quit\<close>, \<open>wakeup\<close>;
  src/net/linux/epoller.cpp: \<open>wakeup\<close>, \<open>wakeupRead\<close>). A step is a section of code no other
  thread can interrupt: a push under the mutex, the swap under the mutex, one
  write or read of the event counter, one test of \<open>running_\<close>. The event counter is the
  eventfd: a write adds one, a read empties it, and \<open>epoll_wait\<close> reports it, level
  triggered, as long as it is not zero. \<open>epoll_wait\<close> is called without a timeout: with an empty counter
  the loop thread sleeps in \<open>poll\<close>, and only a step of the kernel, which has another descriptor to
  report, can get it out. \<open>queued\<close> and \<open>executed\<close> record the history.
\<close>

section \<open>The system\<close>

text \<open>Where the loop thread is: it has made the loop and not yet called \<open>loop\<close>, at the test of
  \<open>while\<close>, in \<open>poll\<close>, dispatching the active channels (with the wakeup channel among them or not), before
  the swap, with functors left to call, or out of the loop.\<close>

datatype 'f loop_pc =
    BeforeLoop
  | AtCheck
  | InPoll
  | Dispatching bool
  | BeforeSwap
  | Calling "'f list"
  | Exited

text \<open>Another thread is outside of the loop's code, or has pushed a functor or cleared
  \<open>running_\<close> and not yet written to the event counter.\<close>

datatype thread_pc = Outside | MustWake

record 'f sync =
  sy_running :: bool
  sy_pending :: "'f list"
  sy_counter :: nat
  sy_pc :: "'f loop_pc"
  sy_threads :: "nat \<Rightarrow> thread_pc"
  sy_queued :: "'f list"
  sy_executed :: "'f list"

definition sync_init :: "'f sync" where
  "sync_init = \<lparr>sy_running = False, sy_pending = [], sy_counter = 0, sy_pc = BeforeLoop,
     sy_threads = (\<lambda>_. Outside), sy_queued = [], sy_executed = []\<rparr>"

text \<open>The steps of the loop thread. A functor or a handler may call \<open>quit\<close> on the loop
  thread, which only clears \<open>running_\<close>, and \<open>queueInLoop\<close>, which wakes the loop only while
  functors are being called (\<open>calling_pending_\<close>): a handler runs in front of the swap.\<close>

inductive loop_step :: "'f sync \<Rightarrow> 'f sync \<Rightarrow> bool" where
  begin_loop: "sy_pc s = BeforeLoop \<Longrightarrow> \<not> sy_running s \<Longrightarrow>
    loop_step s (s\<lparr>sy_running := True, sy_pc := AtCheck\<rparr>)"
| enter: "sy_pc s = AtCheck \<Longrightarrow> sy_running s \<Longrightarrow> loop_step s (s\<lparr>sy_pc := InPoll\<rparr>)"
| leave: "sy_pc s = AtCheck \<Longrightarrow> \<not> sy_running s \<Longrightarrow> loop_step s (s\<lparr>sy_pc := Exited\<rparr>)"
| poll_wakeup: "sy_pc s = InPoll \<Longrightarrow> 0 < sy_counter s \<Longrightarrow>
    loop_step s (s\<lparr>sy_pc := Dispatching True\<rparr>)"
| read_counter: "sy_pc s = Dispatching True \<Longrightarrow>
    loop_step s (s\<lparr>sy_counter := 0, sy_pc := Dispatching False\<rparr>)"
| handled: "sy_pc s = Dispatching False \<Longrightarrow> loop_step s (s\<lparr>sy_pc := BeforeSwap\<rparr>)"
| handler_quits: "sy_pc s = Dispatching w \<Longrightarrow> loop_step s (s\<lparr>sy_running := False\<rparr>)"
| swap: "sy_pc s = BeforeSwap \<Longrightarrow>
    loop_step s (s\<lparr>sy_pc := Calling (sy_pending s), sy_pending := []\<rparr>)"
| call: "sy_pc s = Calling (f # fs) \<Longrightarrow> r = sy_running s \<or> r = False \<Longrightarrow>
    loop_step s (s\<lparr>sy_pc := Calling fs, sy_executed := sy_executed s @ [f], sy_running := r\<rparr>)"
| handler_queues: "sy_pc s = Dispatching w \<Longrightarrow>
    loop_step s (s\<lparr>sy_pending := sy_pending s @ [f], sy_queued := sy_queued s @ [f]\<rparr>)"
| functor_queues: "sy_pc s = Calling fs \<Longrightarrow>
    loop_step s (s\<lparr>sy_pending := sy_pending s @ [f], sy_queued := sy_queued s @ [f],
                   sy_counter := Suc (sy_counter s)\<rparr>)"
| finish: "sy_pc s = Calling [] \<Longrightarrow> loop_step s (s\<lparr>sy_pc := AtCheck\<rparr>)"

text \<open>The steps of thread \<open>t\<close>: \<open>queueInLoop\<close> pushes, \<open>quit\<close> clears \<open>running_\<close>, both then wake.\<close>

inductive thread_step :: "nat \<Rightarrow> 'f sync \<Rightarrow> 'f sync \<Rightarrow> bool" where
  push: "sy_threads s t = Outside \<Longrightarrow>
    thread_step t s (s\<lparr>sy_pending := sy_pending s @ [f], sy_queued := sy_queued s @ [f],
                       sy_threads := (sy_threads s)(t := MustWake)\<rparr>)"
| clear_running: "sy_threads s t = Outside \<Longrightarrow>
    thread_step t s (s\<lparr>sy_running := False, sy_threads := (sy_threads s)(t := MustWake)\<rparr>)"
| wake: "sy_threads s t = MustWake \<Longrightarrow>
    thread_step t s (s\<lparr>sy_counter := Suc (sy_counter s), sy_threads := (sy_threads s)(t := Outside)\<rparr>)"

text \<open>The kernel ends the sleep in \<open>poll\<close> for a reason of its own: another descriptor is ready.\<close>

inductive report_step :: "'f sync \<Rightarrow> 'f sync \<Rightarrow> bool" where
  poll_other: "sy_pc s = InPoll \<Longrightarrow> sy_counter s = 0 \<Longrightarrow> report_step s (s\<lparr>sy_pc := Dispatching False\<rparr>)"

inductive reach :: "'f sync \<Rightarrow> bool" where
  init: "reach sync_init"
| by_report: "reach s \<Longrightarrow> report_step s s' \<Longrightarrow> reach s'"
| by_loop: "reach s \<Longrightarrow> loop_step s s' \<Longrightarrow> reach s'"
| by_thread: "reach s \<Longrightarrow> thread_step t s s' \<Longrightarrow> reach s'"

inductive_cases loop_stepE: "loop_step s s'"
inductive_cases thread_stepE: "thread_step t s s'"
inductive_cases report_stepE: "report_step s s'"

section \<open>Invariants\<close>

fun being_called :: "'f loop_pc \<Rightarrow> 'f list" where
  "being_called (Calling fs) = fs"
| "being_called _ = []"

text \<open>Someone has seen to it, or is about to, that the next \<open>poll\<close> returns.\<close>

definition awake :: "'f sync \<Rightarrow> bool" where
  "awake s \<longleftrightarrow> 0 < sy_counter s \<or> (\<exists>t. sy_threads s t = MustWake)"

fun past_swap :: "'f loop_pc \<Rightarrow> bool" where
  "past_swap (Calling fs) = True"
| "past_swap AtCheck = True"
| "past_swap InPoll = True"
| "past_swap BeforeLoop = True"
| "past_swap _ = False"

definition sync_inv :: "'f sync \<Rightarrow> bool" where
  "sync_inv s \<longleftrightarrow>
     sy_queued s = sy_executed s @ being_called (sy_pc s) @ sy_pending s \<and>
     (past_swap (sy_pc s) \<and> sy_pending s \<noteq> [] \<longrightarrow> awake s) \<and>
     (sy_pc s = InPoll \<and> \<not> sy_running s \<longrightarrow> awake s) \<and>
     (sy_pc s = BeforeLoop \<longrightarrow> \<not> sy_running s)"

lemma sync_inv_init: "sync_inv sync_init"
  by (simp add: sync_inv_def sync_init_def)

lemma loop_step_inv: "loop_step s s' \<Longrightarrow> sync_inv s \<Longrightarrow> sync_inv s'"
  by (erule loop_stepE) (auto simp: sync_inv_def awake_def)

lemma thread_step_inv: "thread_step t s s' \<Longrightarrow> sync_inv s \<Longrightarrow> sync_inv s'"
  by (erule thread_stepE) (auto simp: sync_inv_def awake_def)

lemma report_step_inv: "report_step s s' \<Longrightarrow> sync_inv s \<Longrightarrow> sync_inv s'"
  by (erule report_stepE) (auto simp: sync_inv_def awake_def)

lemma reach_inv: "reach s \<Longrightarrow> sync_inv s"
  by (induction rule: reach.induct) (auto intro: sync_inv_init loop_step_inv thread_step_inv report_step_inv)

section \<open>Progress\<close>

text \<open>\<open>advances s done s'\<close>: the loop thread alone goes from \<open>s\<close> to \<open>s'\<close>, with the functors
  \<open>done\<close> executed, none queued and \<open>running_\<close> as it was.\<close>

definition advances :: "'f sync \<Rightarrow> 'f list \<Rightarrow> 'f sync \<Rightarrow> bool" where
  "advances s done s' \<longleftrightarrow> loop_step\<^sup>*\<^sup>* s s' \<and> sy_executed s' = sy_executed s @ done \<and>
     sy_queued s' = sy_queued s \<and> sy_running s' = sy_running s"

lemma advances_refl: "advances s [] s"
  by (simp add: advances_def)

lemma advances_trans: "advances s a s1 \<Longrightarrow> advances s1 b s2 \<Longrightarrow> advances s (a @ b) s2"
  by (auto simp: advances_def)

lemma advances_step:
  "loop_step s s' \<Longrightarrow> sy_executed s' = sy_executed s @ a \<Longrightarrow> sy_queued s' = sy_queued s \<Longrightarrow>
   sy_running s' = sy_running s \<Longrightarrow> advances s a s'"
  by (auto simp: advances_def)

lemma advances_calls:
  "sy_pc s = Calling fs \<Longrightarrow> advances s fs (s\<lparr>sy_pc := Calling [], sy_executed := sy_executed s @ fs\<rparr>)"
proof (induction fs arbitrary: s)
  case Nil
  then have "s\<lparr>sy_pc := Calling [], sy_executed := sy_executed s @ []\<rparr> = s" by simp
  with advances_refl [of s] show ?case by simp
next
  case (Cons f fs)
  let ?s1 = "s\<lparr>sy_pc := Calling fs, sy_executed := sy_executed s @ [f], sy_running := sy_running s\<rparr>"
  have "advances s [f] ?s1"
    using Cons.prems by (intro advances_step [OF loop_step.call]) simp_all
  with Cons.IH [of ?s1] advances_trans show ?case by fastforce
qed

lemma advances_round:
  assumes "sy_pc s = BeforeSwap"
  shows "advances s (sy_pending s)
    (s\<lparr>sy_pending := [], sy_pc := Calling [], sy_executed := sy_executed s @ sy_pending s\<rparr>)"
proof -
  let ?s1 = "s\<lparr>sy_pc := Calling (sy_pending s), sy_pending := []\<rparr>"
  have "advances s [] ?s1"
    by (rule advances_step [OF loop_step.swap [OF assms]]) simp_all
  from advances_trans [OF this advances_calls [of ?s1 "sy_pending s"]] show ?thesis by simp
qed

text \<open>From the dispatch, or from \<open>poll\<close> when the counter is not empty, to behind the next call of the functors.\<close>

lemma advances_dispatch:
  assumes "sy_pc s = Dispatching w"
  shows "\<exists>s'. advances s (sy_pending s) s' \<and> sy_pc s' = Calling [] \<and> sy_pending s' = []"
proof -
  have last: "\<exists>s'. advances s (sy_pending s) s' \<and> sy_pc s' = Calling [] \<and> sy_pending s' = []"
    if d: "sy_pc s = Dispatching False" for s :: "'a sync"
  proof -
    let ?s = "s\<lparr>sy_pc := BeforeSwap\<rparr>"
    have "advances s [] ?s" using d by (intro advances_step [OF loop_step.handled]) simp_all
    with advances_round [of ?s] advances_trans show ?thesis by fastforce
  qed
  show ?thesis
  proof (cases w)
    case True
    let ?s = "s\<lparr>sy_counter := 0, sy_pc := Dispatching False\<rparr>"
    have "advances s [] ?s" using assms True by (intro advances_step [OF loop_step.read_counter]) simp_all
    with last [of ?s] advances_trans show ?thesis by fastforce
  qed (use assms last in simp)
qed

lemma advances_poll:
  assumes "sy_pc s = InPoll" "0 < sy_counter s"
  shows "\<exists>s'. advances s (sy_pending s) s' \<and> sy_pc s' = Calling [] \<and> sy_pending s' = []"
proof -
  let ?s = "s\<lparr>sy_pc := Dispatching True\<rparr>"
  have "advances s [] ?s" using assms by (intro advances_step [OF loop_step.poll_wakeup]) simp_all
  with advances_dispatch [of ?s True] advances_trans show ?thesis by fastforce
qed

lemma advances_check:
  assumes "sy_pc s = AtCheck" "sy_running s" "0 < sy_counter s"
  shows "\<exists>s'. advances s (sy_pending s) s' \<and> sy_pc s' = Calling [] \<and> sy_pending s' = []"
proof -
  let ?s = "s\<lparr>sy_pc := InPoll\<rparr>"
  have "advances s [] ?s" using assms by (intro advances_step [OF loop_step.enter]) simp_all
  with advances_poll [of ?s] assms(3) advances_trans show ?thesis by fastforce
qed

lemma advances_finish:
  assumes "sy_pc s = Calling fs"
  shows "advances s fs (s\<lparr>sy_executed := sy_executed s @ fs, sy_pc := AtCheck\<rparr>)"
proof -
  let ?s = "s\<lparr>sy_pc := Calling [], sy_executed := sy_executed s @ fs\<rparr>"
  have "advances ?s [] (?s\<lparr>sy_pc := AtCheck\<rparr>)" by (rule advances_step [OF loop_step.finish]) simp_all
  with advances_trans [OF advances_calls [OF assms] this] show ?thesis by simp
qed

text \<open>The running loop gets everything done, unless it needs the counter and the counter is empty.\<close>

lemma advances_all:
  assumes "sy_running s" "sy_pc s \<noteq> Exited" "sy_pc s \<noteq> BeforeLoop"
    and "past_swap (sy_pc s) \<and> sy_pending s \<noteq> [] \<longrightarrow> 0 < sy_counter s"
  shows "\<exists>s'. advances s (being_called (sy_pc s) @ sy_pending s) s' \<and> sy_pending s' = []"
proof (cases "sy_pc s")
  case AtCheck
  with assms advances_check [of s] advances_refl [of s] show ?thesis by (cases "sy_pending s = []") auto
next
  case InPoll
  with assms advances_poll [of s] advances_refl [of s] show ?thesis by (cases "sy_pending s = []") auto
next
  case (Dispatching w)
  with advances_dispatch show ?thesis by fastforce
next
  case BeforeSwap
  with advances_round [of s] show ?thesis by fastforce
next
  case (Calling fs)
  let ?s = "s\<lparr>sy_executed := sy_executed s @ fs, sy_pc := AtCheck\<rparr>"
  have a: "advances s fs ?s" by (rule advances_finish [OF Calling])
  have "\<exists>s'. advances ?s (sy_pending s) s' \<and> sy_pending s' = []"
    using assms Calling advances_check [of ?s] advances_refl [of ?s] by (cases "sy_pending s = []") auto
  with advances_trans [OF a] Calling show ?thesis by fastforce
qed (use assms in simp_all)

text \<open>Once \<open>running_\<close> is cleared behind the beginning of \<open>loop\<close>, the loop thread leaves the loop, unless
  it sleeps.\<close>

lemma stops_after_calls:
  assumes "sy_pc s = Calling fs" "\<not> sy_running s"
  shows "\<exists>s'. advances s fs s' \<and> sy_pc s' = Exited"
proof -
  let ?s = "s\<lparr>sy_executed := sy_executed s @ fs, sy_pc := AtCheck\<rparr>"
  have "advances ?s [] (?s\<lparr>sy_pc := Exited\<rparr>)"
    using assms(2) by (intro advances_step [OF loop_step.leave]) simp_all
  with advances_trans [OF advances_finish [OF assms(1)] this] show ?thesis by fastforce
qed

lemma advances_stops:
  assumes "\<not> sy_running s" "sy_pc s \<noteq> BeforeLoop" "sy_pc s = InPoll \<longrightarrow> 0 < sy_counter s"
  shows "\<exists>s' done. advances s done s' \<and> sy_pc s' = Exited"
proof -
  have stop: ?thesis if "advances s a s1" "sy_pc s1 = Calling fs" for a s1 fs
  proof -
    have "\<not> sy_running s1" using that(1) assms(1) by (simp add: advances_def)
    from stops_after_calls [OF that(2) this] advances_trans [OF that(1)] show ?thesis by blast
  qed
  show ?thesis
  proof (cases "sy_pc s")
    case AtCheck
    with assms(1) have "advances s [] (s\<lparr>sy_pc := Exited\<rparr>)"
      by (intro advances_step [OF loop_step.leave]) simp_all
    then show ?thesis by fastforce
  next
    case InPoll
    with assms(3) advances_poll stop show ?thesis by blast
  next
    case (Dispatching w)
    with advances_dispatch stop show ?thesis by blast
  next
    case BeforeSwap
    with advances_round stop show ?thesis by fastforce
  next
    case (Calling fs)
    with stop [OF advances_refl] show ?thesis .
  next
    case Exited
    with advances_refl show ?thesis by blast
  qed (use assms in simp)
qed

text \<open>The end of a call that is under way: a thread that has pushed or asked the loop to stop writes to the
  event counter. \<open>last_wakeup s s0\<close>: no such call is needed, or one of them is finished.\<close>

definition last_wakeup :: "'f sync \<Rightarrow> 'f sync \<Rightarrow> bool" where
  "last_wakeup s s0 \<longleftrightarrow> s0 = s \<or> (\<exists>t. sy_threads s t = MustWake \<and> thread_step t s s0)"

lemma awake_counter:
  assumes "awake s"
  shows "\<exists>s0. last_wakeup s s0 \<and> 0 < sy_counter s0 \<and> sy_pc s0 = sy_pc s \<and> sy_running s0 = sy_running s \<and>
    sy_pending s0 = sy_pending s \<and> sy_queued s0 = sy_queued s"
proof (cases "0 < sy_counter s")
  case True
  then show ?thesis by (intro exI [of _ s]) (simp add: last_wakeup_def)
next
  case False
  with assms obtain t where t: "sy_threads s t = MustWake" by (auto simp: awake_def)
  from thread_step.wake [OF t] t show ?thesis
    by (intro exI [of _ "s\<lparr>sy_counter := Suc (sy_counter s), sy_threads := (sy_threads s)(t := Outside)\<rparr>"])
      (auto simp: last_wakeup_def)
qed

lemma reach_last_wakeup: "reach s \<Longrightarrow> last_wakeup s s0 \<Longrightarrow> reach s0"
  by (auto simp: last_wakeup_def intro: reach.by_thread)

text \<open>Where the counter is needed, one wakeup under way is enough.\<close>

lemma needed_wakeup:
  assumes "needs s \<longrightarrow> awake s"
  shows "\<exists>s0. last_wakeup s s0 \<and> (needs s \<longrightarrow> 0 < sy_counter s0) \<and> sy_pc s0 = sy_pc s \<and>
    sy_running s0 = sy_running s \<and> sy_pending s0 = sy_pending s \<and> sy_queued s0 = sy_queued s"
proof (cases "needs s")
  case True
  with assms awake_counter show ?thesis by blast
next
  case False
  then show ?thesis by (intro exI [of _ s]) (simp add: last_wakeup_def)
qed

text \<open>A step of the loop thread, of another one, or of the kernel.\<close>

definition sync_next :: "'f sync \<Rightarrow> 'f sync \<Rightarrow> bool" where
  "sync_next s s' \<longleftrightarrow> loop_step s s' \<or> report_step s s' \<or> (\<exists>t. thread_step t s s')"

lemma stopped_step:
  assumes "sync_next s s'" "\<not> sy_running s" "sy_pc s \<noteq> BeforeLoop"
  shows "\<not> sy_running s' \<and> sy_pc s' \<noteq> BeforeLoop"
  using assms by (auto simp: sync_next_def elim!: loop_stepE thread_stepE report_stepE)

lemma stopped_for_good:
  "sync_next\<^sup>*\<^sup>* s s' \<Longrightarrow> \<not> sy_running s \<Longrightarrow> sy_pc s \<noteq> BeforeLoop \<Longrightarrow> \<not> sy_running s' \<and> sy_pc s' \<noteq> BeforeLoop"
  by (induction rule: rtranclp_induct) (auto dest: stopped_step)

section \<open>Properties\<close>

text \<open>C2. No wakeup is lost: whenever the loop thread is inside \<open>poll\<close> with an empty event
  counter and no other thread is between a push (or a \<open>quit\<close>) and its wakeup, no functor
  is waiting and nobody has asked the loop to stop since it began. So the loop never sleeps on work.\<close>

theorem no_lost_wakeup:
  assumes "reach s" "sy_pc s = InPoll" "sy_counter s = 0" "\<forall>t. sy_threads s t = Outside"
  shows "sy_pending s = [] \<and> sy_running s"
  using reach_inv [OF assms(1)] assms(2-4) by (auto simp: sync_inv_def awake_def)

definition idle_sync :: "nat sync" where
  "idle_sync = sync_init\<lparr>sy_running := True, sy_pc := InPoll\<rparr>"

lemma idle_sync_reach: "reach idle_sync"
proof -
  have "reach (sync_init\<lparr>sy_running := True, sy_pc := AtCheck\<rparr>)"
    by (rule reach.by_loop [OF reach.init loop_step.begin_loop]) (simp_all add: sync_init_def)
  from reach.by_loop [OF this loop_step.enter] show ?thesis by (simp add: idle_sync_def)
qed

theorem no_lost_wakeup_witness:
  "reach idle_sync \<and> sy_pending idle_sync = [] \<and> sy_running idle_sync"
  using no_lost_wakeup [OF idle_sync_reach] idle_sync_reach
  by (simp add: idle_sync_def sync_init_def)

text \<open>C7. Exactly once, in order: in every reachable state the functors queued so far are the
  executed ones, followed by those swapped out and not yet called, followed by those still
  queued. So no functor is lost, doubled or overtaken.\<close>

theorem functors_fifo:
  assumes "reach s"
  shows "sy_queued s = sy_executed s @ being_called (sy_pc s) @ sy_pending s"
  using reach_inv [OF assms] by (simp add: sync_inv_def)

theorem functors_fifo_witness:
  "\<exists>s. reach s \<and> sy_queued s = [5] \<and> sy_pending s = [5] \<and>
       sy_queued s = sy_executed s @ being_called (sy_pc s) @ sy_pending (s :: nat sync)"
proof -
  let ?s = "idle_sync\<lparr>sy_pending := sy_pending idle_sync @ [5], sy_queued := sy_queued idle_sync @ [5],
      sy_threads := (sy_threads idle_sync)(1 := MustWake)\<rparr>"
  have "reach ?s"
    by (rule reach.by_thread [OF idle_sync_reach thread_step.push [of _ 1]])
       (simp add: idle_sync_def sync_init_def)
  from this functors_fifo [OF this] show ?thesis
    by (intro exI [of _ ?s]) (simp add: idle_sync_def sync_init_def)
qed

text \<open>C8. Every queued functor can be executed by the loop thread, which needs nobody's help but the wakeup
  of a call under way: from any reachable state in which the loop has not been told to stop, or has yet to
  begin, there is a finite run of loop steps, behind at most one write to the event counter by a thread
  that has pushed and not yet written, which executes everything queued so far. When no thread is inside
  such a call the loop thread does it alone; no report of another descriptor is needed to get it out of
  \<open>poll\<close>.\<close>

theorem functors_executed:
  assumes "reach s" "sy_running s \<or> sy_pc s = BeforeLoop" "sy_pc s \<noteq> Exited"
  shows "\<exists>s0 s'. last_wakeup s s0 \<and> loop_step\<^sup>*\<^sup>* s0 s' \<and> sy_executed s' = sy_queued s \<and> sy_pending s' = []"
proof -
  have run: "\<exists>s'. loop_step\<^sup>*\<^sup>* s s' \<and> sy_executed s' = sy_queued s \<and> sy_pending s' = []"
    if o: "reach s" "sy_running s" "sy_pc s \<noteq> Exited" "sy_pc s \<noteq> BeforeLoop"
      and c: "past_swap (sy_pc s) \<and> sy_pending s \<noteq> [] \<longrightarrow> 0 < sy_counter s" for s :: "'a sync"
    using advances_all [OF o(2-4) c] reach_inv [OF o(1)] by (auto simp: advances_def sync_inv_def)
  have "past_swap (sy_pc s) \<and> sy_pending s \<noteq> [] \<longrightarrow> awake s"
    using reach_inv [OF assms(1)] by (simp add: sync_inv_def)
  from needed_wakeup [of "\<lambda>s. past_swap (sy_pc s) \<and> sy_pending s \<noteq> []", OF this] obtain s0 where
    s0: "last_wakeup s s0" "past_swap (sy_pc s0) \<and> sy_pending s0 \<noteq> [] \<longrightarrow> 0 < sy_counter s0"
    "sy_pc s0 = sy_pc s" "sy_running s0 = sy_running s" "sy_queued s0 = sy_queued s" by metis
  have r0: "reach s0" by (rule reach_last_wakeup [OF assms(1) s0(1)])
  show ?thesis
  proof (cases "sy_pc s = BeforeLoop")
    case True
    let ?s = "s0\<lparr>sy_running := True, sy_pc := AtCheck\<rparr>"
    have b: "loop_step s0 ?s"
      using True s0(3) reach_inv [OF r0] by (intro loop_step.begin_loop) (auto simp: sync_inv_def)
    obtain s' where "loop_step\<^sup>*\<^sup>* ?s s'" "sy_executed s' = sy_queued s" "sy_pending s' = []"
      using run [OF reach.by_loop [OF r0 b]] s0(2,3,5) True by auto
    with s0(1) b show ?thesis by (meson converse_rtranclp_into_rtranclp)
  next
    case False
    with assms(2,3) run [OF r0] s0 show ?thesis by auto
  qed
qed

text \<open>The loop sleeps in \<open>poll\<close>, thread 1 has pushed functor 5 and not yet written to the event counter.\<close>

definition pushed_sync :: "nat sync" where
  "pushed_sync = idle_sync\<lparr>sy_pending := [5], sy_queued := [5], sy_threads := (\<lambda>_. Outside)(1 := MustWake)\<rparr>"

lemma pushed_sync_reach: "reach pushed_sync"
proof -
  have "thread_step 1 idle_sync pushed_sync"
    using thread_step.push [of idle_sync 1 5] by (simp add: pushed_sync_def idle_sync_def sync_init_def)
  with idle_sync_reach show ?thesis by (rule reach.by_thread)
qed

theorem functors_executed_witness:
  "\<exists>s0 s'. last_wakeup pushed_sync s0 \<and> loop_step\<^sup>*\<^sup>* s0 s' \<and> sy_executed s' = [5] \<and> sy_pending s' = []"
  using functors_executed [OF pushed_sync_reach] by (simp add: pushed_sync_def idle_sync_def sync_init_def)

text \<open>C31. \<open>quit\<close> ends the loop: once \<open>running_\<close> has been cleared behind the beginning of \<open>loop\<close>, by a
  handler, a functor or another thread, nothing sets it again, and from wherever it is the loop thread gets
  out of the loop in finitely many steps of its own, behind at most one write to the event counter by a
  thread that is inside \<open>quit\<close> or \<open>queueInLoop\<close>. No report of another descriptor is needed.\<close>

theorem quit_ends_loop:
  assumes "reach s" "\<not> sy_running s" "sy_pc s \<noteq> BeforeLoop"
  shows "(\<exists>s0 s'. last_wakeup s s0 \<and> loop_step\<^sup>*\<^sup>* s0 s' \<and> sy_pc s' = Exited \<and>
      sy_queued s = sy_executed s' @ sy_pending s') \<and>
    (\<forall>s'. sync_next\<^sup>*\<^sup>* s s' \<longrightarrow> \<not> sy_running s')"
proof -
  have "sy_pc s = InPoll \<longrightarrow> awake s" using reach_inv [OF assms(1)] assms(2) by (simp add: sync_inv_def)
  from needed_wakeup [of "\<lambda>s. sy_pc s = InPoll", OF this] obtain s0 where
    s0: "last_wakeup s s0" "sy_pc s0 = InPoll \<longrightarrow> 0 < sy_counter s0" "sy_pc s0 = sy_pc s"
    "sy_running s0 = sy_running s" "sy_queued s0 = sy_queued s" by auto
  have reach: "loop_step\<^sup>*\<^sup>* s0 s' \<Longrightarrow> reach s'" for s'
    by (induction rule: rtranclp_induct) (auto intro: reach_last_wakeup [OF assms(1) s0(1)] reach.by_loop)
  obtain s' d where s': "advances s0 d s'" "sy_pc s' = Exited" using advances_stops [of s0] assms(2,3) s0 by auto
  then have "sync_inv s'" using reach reach_inv by (auto simp: advances_def)
  with s' s0(1,5) have "last_wakeup s s0 \<and> loop_step\<^sup>*\<^sup>* s0 s' \<and> sy_pc s' = Exited \<and> sy_queued s = sy_executed s' @ sy_pending s'"
    by (auto simp: advances_def sync_inv_def)
  with stopped_for_good [OF _ assms(2,3)] show ?thesis by blast
qed

theorem quit_ends_loop_witness:
  "reach (idle_sync\<lparr>sy_running := False, sy_threads := (sy_threads idle_sync)(1 := MustWake)\<rparr>) \<and>
   (\<exists>s0 s'. last_wakeup (idle_sync\<lparr>sy_running := False, sy_threads := (sy_threads idle_sync)(1 := MustWake)\<rparr>) s0 \<and>
      loop_step\<^sup>*\<^sup>* s0 s' \<and> sy_pc s' = Exited)"
proof -
  let ?s = "idle_sync\<lparr>sy_running := False, sy_threads := (sy_threads idle_sync)(1 := MustWake)\<rparr>"
  have r: "reach ?s"
    by (rule reach.by_thread [OF idle_sync_reach thread_step.clear_running [of _ 1]]) (simp add: idle_sync_def sync_init_def)
  from quit_ends_loop [OF r] r show ?thesis by (auto simp: idle_sync_def)
qed

text \<open>A \<open>quit\<close> that comes before \<open>loop\<close> is lost: \<open>loop\<close> sets \<open>running_\<close>, takes the wakeup, and the loop
  thread sleeps in \<open>poll\<close>. \<open>startLoop\<close> of \<open>EventLoopThread\<close> returns the loop in just that window.\<close>

theorem early_quit_lost:
  "\<exists>m s s' :: nat sync. thread_step 1 sync_init m \<and> \<not> sy_running m \<and> thread_step 1 m s \<and> loop_step\<^sup>*\<^sup>* s s' \<and>
     sy_pc s' = InPoll \<and> sy_counter s' = 0 \<and> (\<forall>t. sy_threads s' t = Outside) \<and> sy_running s'"
proof -
  let ?m = "(sync_init :: nat sync)\<lparr>sy_running := False, sy_threads := (sy_threads (sync_init :: nat sync))(1 := MustWake)\<rparr>"
  let ?s = "?m\<lparr>sy_counter := Suc (sy_counter ?m), sy_threads := (sy_threads ?m)(1 := Outside)\<rparr>"
  let ?s1 = "?s\<lparr>sy_running := True, sy_pc := AtCheck\<rparr>"
  let ?s2 = "?s1\<lparr>sy_pc := InPoll\<rparr>"
  let ?s3 = "?s2\<lparr>sy_pc := Dispatching True\<rparr>"
  let ?s4 = "?s3\<lparr>sy_counter := 0, sy_pc := Dispatching False\<rparr>"
  let ?s5 = "?s4\<lparr>sy_pc := BeforeSwap\<rparr>"
  let ?s6 = "?s5\<lparr>sy_pc := Calling (sy_pending ?s5), sy_pending := []\<rparr>"
  let ?s7 = "?s6\<lparr>sy_pc := AtCheck\<rparr>"
  let ?s8 = "?s7\<lparr>sy_pc := InPoll\<rparr>"
  have m: "thread_step 1 sync_init ?m" by (rule thread_step.clear_running) (simp add: sync_init_def)
  have s: "thread_step 1 ?m ?s" by (rule thread_step.wake) simp
  have "loop_step ?s ?s1" by (rule loop_step.begin_loop) (simp_all add: sync_init_def)
  moreover have "loop_step ?s1 ?s2" by (rule loop_step.enter) simp_all
  moreover have "loop_step ?s2 ?s3" by (rule loop_step.poll_wakeup) simp_all
  moreover have "loop_step ?s3 ?s4" by (rule loop_step.read_counter) simp
  moreover have "loop_step ?s4 ?s5" by (rule loop_step.handled) simp
  moreover have "loop_step ?s5 ?s6" by (rule loop_step.swap) simp
  moreover have "loop_step ?s6 ?s7" by (rule loop_step.finish) (simp add: sync_init_def)
  moreover have "loop_step ?s7 ?s8" by (rule loop_step.enter) simp_all
  ultimately have "loop_step\<^sup>*\<^sup>* ?s ?s8"
    by (meson rtranclp.rtrancl_refl rtranclp.rtrancl_into_rtrancl)
  with m s show ?thesis by (intro exI [of _ ?m] exI [of _ ?s] exI [of _ ?s8]) (simp add: sync_init_def)
qed

definition view where
  "view L pc thr q ex =
     \<lparr>sy_running = el_running L, sy_pending = el_pending L, sy_counter = el_wakeups L, sy_pc = pc,
      sy_threads = thr, sy_queued = q, sy_executed = ex\<rparr>"

definition quiet_exec where
  "quiet_exec exec \<longleftrightarrow> (\<forall>f L L'. exec f L = Inr L' \<longrightarrow> el_pending L' = el_pending L \<and>
     el_wakeups L' = el_wakeups L \<and> (el_running L' = el_running L \<or> \<not> el_running L'))"

lemma run_functors_steps:
  "quiet_exec exec \<Longrightarrow> run_functors exec fs L = Inr L' \<Longrightarrow>
   loop_step\<^sup>*\<^sup>* (view L (Calling fs) thr q ex) (view L' (Calling []) thr q (ex @ fs)) \<and>
   el_pending L' = el_pending L"
proof (induction fs arbitrary: L ex)
  case Nil
  then show ?case by simp
next
  case (Cons f fs)
  then obtain L1 where L1: "exec f L = Inr L1" and r: "run_functors exec fs L1 = Inr L'" by auto
  have q: "el_pending L1 = el_pending L" "el_wakeups L1 = el_wakeups L"
    "el_running L1 = el_running L \<or> \<not> el_running L1"
    using Cons.prems(1) L1 by (auto simp: quiet_exec_def)
  have "loop_step (view L (Calling (f # fs)) thr q ex) (view L1 (Calling fs) thr q (ex @ [f]))"
    using loop_step.call [of "view L (Calling (f # fs)) thr q ex" f fs "el_running L1"] q
    by (auto simp: view_def)
  with Cons.IH [OF Cons.prems(1) r, of "ex @ [f]"] q(1) show ?case
    by (auto intro: converse_rtranclp_into_rtranclp)
qed

text \<open>C18. The steps are those of the event loop: seen through \<open>view\<close>, a \<open>queueInLoop\<close> or \<open>quit\<close>
  from another thread is two steps of that thread, and a \<open>doPendingFunctors\<close> whose functors
  neither queue nor wake is the swap and one call step for each functor, in order.\<close>

theorem calls_refine_steps:
  assumes "\<not> isLoopThread tid L" "thr tid = Outside" "quiet_exec exec"
  shows "(\<exists>m. thread_step tid (view L pc thr q ex) m \<and>
              thread_step tid m (view (queueInLoop tid f L) pc thr (q @ [f]) ex)) \<and>
         (\<exists>m. thread_step tid (view L pc thr q ex) m \<and>
              thread_step tid m (view (quit tid L) pc thr q ex)) \<and>
         (\<forall>L'. doPendingFunctors exec L = Inr L' \<longrightarrow>
            loop_step\<^sup>*\<^sup>* (view L BeforeSwap thr q ex)
                         (view L' (Calling []) thr q (ex @ el_pending L)))"
proof (intro conjI allI impI)
  let ?v = "view L pc thr q ex"
  let ?m = "?v\<lparr>sy_pending := sy_pending ?v @ [f], sy_queued := sy_queued ?v @ [f],
             sy_threads := (sy_threads ?v)(tid := MustWake)\<rparr>"
  have "thread_step tid ?v ?m"
    using assms(2) by (intro thread_step.push) (simp add: view_def)
  moreover have "thread_step tid ?m (view (queueInLoop tid f L) pc thr (q @ [f]) ex)"
    using thread_step.wake [of ?m tid] assms(1,2)
    by (simp add: view_def queueInLoop_def loop_wakeup_def isLoopThread_def Let_def fun_upd_idem)
  ultimately show "\<exists>m. thread_step tid ?v m \<and>
      thread_step tid m (view (queueInLoop tid f L) pc thr (q @ [f]) ex)" by blast
next
  let ?v = "view L pc thr q ex"
  let ?m = "?v\<lparr>sy_running := False, sy_threads := (sy_threads ?v)(tid := MustWake)\<rparr>"
  have "thread_step tid ?v ?m"
    using assms(2) by (intro thread_step.clear_running) (simp add: view_def)
  moreover have "thread_step tid ?m (view (quit tid L) pc thr q ex)"
    using thread_step.wake [of ?m tid] assms(1,2)
    by (simp add: view_def quit_def loop_wakeup_def isLoopThread_def Let_def fun_upd_idem)
  ultimately show "\<exists>m. thread_step tid ?v m \<and> thread_step tid m (view (quit tid L) pc thr q ex)"
    by blast
next
  fix L'
  assume d: "doPendingFunctors exec L = Inr L'"
  let ?L1 = "L\<lparr>el_calling_pending := True, el_pending := []\<rparr>"
  obtain L2 where r: "run_functors exec (el_pending L) ?L1 = Inr L2"
    and L': "L' = L2\<lparr>el_calling_pending := False\<rparr>"
    using d by (auto simp: doPendingFunctors_def Let_def)
  have "loop_step (view L BeforeSwap thr q ex) (view ?L1 (Calling (el_pending L)) thr q ex)"
    using loop_step.swap [of "view L BeforeSwap thr q ex"] by (simp add: view_def)
  with run_functors_steps [OF assms(3) r, of thr q ex]
  have "loop_step\<^sup>*\<^sup>* (view L BeforeSwap thr q ex) (view L2 (Calling []) thr q (ex @ el_pending L))"
    by (auto intro: converse_rtranclp_into_rtranclp)
  then show "loop_step\<^sup>*\<^sup>* (view L BeforeSwap thr q ex) (view L' (Calling []) thr q (ex @ el_pending L))"
    by (simp add: L' view_def)
qed

theorem calls_refine_steps_witness:
  "\<exists>m. thread_step 1 (view (demo_loop []) InPoll (\<lambda>_. Outside) [] []) m \<and>
       thread_step 1 m (view (queueInLoop 1 (UpdateFn 0) (demo_loop [])) InPoll (\<lambda>_. Outside)
                          [UpdateFn 0] [])"
proof -
  have a: "\<not> isLoopThread 1 (demo_loop [])" by (simp add: isLoopThread_def demo_loop_def)
  have b: "quiet_exec (exec_fn demo_env (\<lambda>_. Inr) :: nat loop_fn \<Rightarrow> (nat, epoller, nat) event_loop \<Rightarrow> _)"
    by (auto simp: quiet_exec_def exec_fn_def loop_fn_defs Let_def
        split: loop_fn.splits option.splits prod.splits)
  show ?thesis
    using calls_refine_steps [OF a _ b, of "\<lambda>_. Outside" InPoll "[]" "[]" "UpdateFn 0"] by simp
qed

end
