(* ===== verification/StringPiece.thy ===== *)
theory StringPiece
  imports Prelude
begin

text \<open>
  \<open>google::StringPiece\<close> (src/base/StringPiece.h): a pointer and an \<open>int\<close> length over memory
  owned by someone else. The memory readable from \<open>ptr_\<close> on is the list \<open>sp_ptr\<close> (a null
  pointer is the empty list), the length is the signed field \<open>sp_len\<close>, which
  \<open>remove_suffix\<close> may make negative and the constructors truncate to 32 bits.
\<close>

record string_piece =
  sp_ptr :: "char list"
  sp_len :: int

definition sp_empty_ctor :: string_piece where
  "sp_empty_ctor = \<lparr>sp_ptr = [], sp_len = 0\<rparr>"

definition sp_of_string :: "char list \<Rightarrow> string_piece" where
  "sp_of_string s = \<lparr>sp_ptr = s, sp_len = int_of_size (length s)\<rparr>"

definition sp_of_ptr :: "char list \<Rightarrow> int \<Rightarrow> string_piece" where
  "sp_of_ptr p n = \<lparr>sp_ptr = p, sp_len = n\<rparr>"

text \<open>From a C string, whose terminator \<open>strlen\<close> looks for; \<open>set\<close> does the same, or takes a length.\<close>

definition sp_of_cstr :: "char list \<Rightarrow> string_piece res" where
  "sp_of_cstr str =
     (case memchr str (CHR 0x00) of
        None \<Rightarrow> Inl OutOfBounds
      | Some n \<Rightarrow> Inr \<lparr>sp_ptr = str, sp_len = int_of_size n\<rparr>)"

definition sp_set_cstr :: "string_piece \<Rightarrow> char list \<Rightarrow> string_piece res" where
  "sp_set_cstr s str =
     (case memchr str (CHR 0x00) of
        None \<Rightarrow> Inl OutOfBounds
      | Some n \<Rightarrow> Inr (s\<lparr>sp_ptr := str, sp_len := int_of_size n\<rparr>))"

definition sp_set :: "string_piece \<Rightarrow> char list \<Rightarrow> int \<Rightarrow> string_piece" where
  "sp_set s buffer len = s\<lparr>sp_ptr := buffer, sp_len := len\<rparr>"

definition sp_is_empty :: "string_piece \<Rightarrow> bool" where
  "sp_is_empty s = (sp_len s = 0)"

definition sp_clear :: "string_piece \<Rightarrow> string_piece" where
  "sp_clear s = s\<lparr>sp_ptr := [], sp_len := 0\<rparr>"

definition sp_index :: "string_piece \<Rightarrow> int \<Rightarrow> char res" where
  "sp_index s i =
     (if 0 \<le> i \<and> nat i < length (sp_ptr s) then Inr (sp_ptr s ! nat i) else Inl OutOfBounds)"

text \<open>\<open>remove_prefix\<close> moves the pointer, by a negative \<open>n\<close> in front of the memory the piece was given.\<close>

definition remove_prefix :: "string_piece \<Rightarrow> int \<Rightarrow> string_piece res" where
  "remove_prefix s n =
     (if 0 \<le> n \<and> nat n \<le> length (sp_ptr s)
      then Inr (s\<lparr>sp_ptr := drop (nat n) (sp_ptr s), sp_len := sp_len s - n\<rparr>) else Inl OutOfBounds)"

definition remove_suffix :: "string_piece \<Rightarrow> int \<Rightarrow> string_piece" where
  "remove_suffix s n = s\<lparr>sp_len := sp_len s - n\<rparr>"

definition sp_eq :: "string_piece \<Rightarrow> string_piece \<Rightarrow> bool res" where
  "sp_eq s x =
     (if sp_len s = sp_len x
      then bindE (memcmp (sp_ptr s) (sp_ptr x) (size_of_int (sp_len s))) (\<lambda>r. Inr (r = 0))
      else Inr False)"

definition sp_neq :: "string_piece \<Rightarrow> string_piece \<Rightarrow> bool res" where
  "sp_neq s x = bindE (sp_eq s x) (\<lambda>b. Inr (\<not> b))"

definition sp_min_len :: "string_piece \<Rightarrow> string_piece \<Rightarrow> nat" where
  "sp_min_len s x = size_of_int (if sp_len s < sp_len x then sp_len s else sp_len x)"

text \<open>The macro \<open>STRINGPIECE_BINARY_PREDICATE(cmp, auxcmp)\<close> and its four uses.\<close>

definition sp_binary_predicate ::
  "(int \<Rightarrow> int \<Rightarrow> bool) \<Rightarrow> (int \<Rightarrow> int \<Rightarrow> bool) \<Rightarrow> string_piece \<Rightarrow> string_piece \<Rightarrow> bool res" where
  "sp_binary_predicate cmp auxcmp s x =
     bindE (memcmp (sp_ptr s) (sp_ptr x) (sp_min_len s x))
       (\<lambda>r. Inr (auxcmp r 0 \<or> (r = 0 \<and> cmp (sp_len s) (sp_len x))))"

definition sp_less :: "string_piece \<Rightarrow> string_piece \<Rightarrow> bool res" where
  "sp_less = sp_binary_predicate (<) (<)"

definition sp_less_eq :: "string_piece \<Rightarrow> string_piece \<Rightarrow> bool res" where
  "sp_less_eq = sp_binary_predicate (\<le>) (<)"

definition sp_greater_eq :: "string_piece \<Rightarrow> string_piece \<Rightarrow> bool res" where
  "sp_greater_eq = sp_binary_predicate (\<ge>) (>)"

definition sp_greater :: "string_piece \<Rightarrow> string_piece \<Rightarrow> bool res" where
  "sp_greater = sp_binary_predicate (>) (>)"

definition sp_compare :: "string_piece \<Rightarrow> string_piece \<Rightarrow> int res" where
  "sp_compare s x =
     bindE (memcmp (sp_ptr s) (sp_ptr x) (sp_min_len s x))
       (\<lambda>r. Inr (if r = 0
                 then (if sp_len s < sp_len x then -1
                       else if sp_len x < sp_len s then 1 else r)
                 else r))"

definition as_string :: "string_piece \<Rightarrow> char list res" where
  "as_string s =
     (let n = size_of_int (sp_len s)
      in if VEC_MAX < n then Inl LengthError
         else if n \<le> length (sp_ptr s) then Inr (take n (sp_ptr s)) else Inl OutOfBounds)"

text \<open>\<open>CopyToString\<close>: the new value of the target, by \<open>string::assign\<close>.\<close>

definition CopyToString :: "string_piece \<Rightarrow> char list \<Rightarrow> char list res" where
  "CopyToString s target =
     (let n = size_of_int (sp_len s)
      in if VEC_MAX < n then Inl LengthError
         else if n \<le> length (sp_ptr s) then Inr (take n (sp_ptr s)) else Inl OutOfBounds)"

definition starts_with :: "string_piece \<Rightarrow> string_piece \<Rightarrow> bool res" where
  "starts_with s x =
     (if sp_len x \<le> sp_len s
      then bindE (memcmp (sp_ptr s) (sp_ptr x) (size_of_int (sp_len x))) (\<lambda>r. Inr (r = 0))
      else Inr False)"

section \<open>Valid pieces and the text they denote\<close>

definition sp_ok :: "string_piece \<Rightarrow> bool" where
  "sp_ok s \<longleftrightarrow> 0 \<le> sp_len s \<and> sp_len s < 2147483648 \<and> nat (sp_len s) \<le> length (sp_ptr s)"

definition sp_text :: "string_piece \<Rightarrow> char list" where
  "sp_text s = take (nat (sp_len s)) (sp_ptr s)"

lemma length_sp_text: "sp_ok s \<Longrightarrow> length (sp_text s) = nat (sp_len s)"
  by (simp add: sp_ok_def sp_text_def)

lemma sp_of_string_ok:
  "length s < 2147483648 \<Longrightarrow> sp_ok (sp_of_string s) \<and> sp_text (sp_of_string s) = s"
  by (simp add: sp_of_string_def sp_ok_def sp_text_def int_of_size_small)

lemma sp_of_cstr_ok:
  assumes "CHR 0x00 \<in> set str" "length str < 2147483648"
  shows "\<exists>s. sp_of_cstr str = Inr s \<and> sp_ok s \<and> sp_text s = takeWhile (\<lambda>c. c \<noteq> CHR 0x00) str"
proof -
  obtain n where n: "memchr str (CHR 0x00) = Some n"
    using assms(1) memchr_None [of str "CHR 0x00"] by (cases "memchr str (CHR 0x00)") auto
  note m = memchr_SomeD [OF n]
  have "takeWhile (\<lambda>c. c \<noteq> CHR 0x00) str = take n str"
    by (rule takeWhile_eq_take_P_nth) (use m in \<open>auto simp: in_set_conv_nth\<close>)
  then show ?thesis using n m assms(2)
    by (simp add: sp_of_cstr_def sp_ok_def sp_text_def int_of_size_small)
qed

lemma as_string_text: "sp_ok s \<Longrightarrow> as_string s = Inr (sp_text s)"
  by (auto simp: as_string_def sp_ok_def sp_text_def size_of_int_nonneg VEC_MAX_def Let_def)

text \<open>
  The lexicographic comparison of two texts by unsigned bytes, the contract of
  the comparison operators: -1, 0 or 1.
\<close>

fun lex_cmp :: "char list \<Rightarrow> char list \<Rightarrow> int" where
  "lex_cmp [] [] = 0"
| "lex_cmp [] (y # ys) = -1"
| "lex_cmp (x # xs) [] = 1"
| "lex_cmp (x # xs) (y # ys) =
     (if ubyte x < ubyte y then -1
      else if ubyte y < ubyte x then 1
      else lex_cmp xs ys)"

lemma cmp_bytes_take:
  "n \<le> length xs \<Longrightarrow> n \<le> length ys \<Longrightarrow> cmp_bytes n xs ys = lex_cmp (take n xs) (take n ys)"
proof (induction n arbitrary: xs ys)
  case 0
  then show ?case by simp
next
  case (Suc n)
  then obtain x xs' y ys' where "xs = x # xs'" "ys = y # ys'"
    by (metis Suc_le_length_iff)
  with Suc show ?case by simp
qed

lemma lex_cmp_zero: "lex_cmp xs ys = 0 \<longleftrightarrow> xs = ys"
proof (induction xs ys rule: lex_cmp.induct)
  case (4 x xs y ys)
  then show ?case using ubyte_eq_iff [of x y] by (auto simp del: ubyte_eq_iff)
qed auto

lemma lex_cmp_range: "lex_cmp xs ys \<in> {-1, 0, 1}"
  by (induction xs ys rule: lex_cmp.induct) auto

lemma lex_cmp_swap: "lex_cmp ys xs = - lex_cmp xs ys"
  by (induction xs ys rule: lex_cmp.induct) auto

lemma lex_cmp_split:
  "lex_cmp xs ys =
     (let n = min (length xs) (length ys); r = lex_cmp (take n xs) (take n ys)
      in if r = 0 then (if length xs < length ys then -1
                        else if length ys < length xs then 1 else 0)
         else r)"
  by (induction xs ys rule: lex_cmp.induct) (auto simp: Let_def)

lemma lex_cmp_trans: "lex_cmp xs ys \<le> 0 \<Longrightarrow> lex_cmp ys zs \<le> 0 \<Longrightarrow> lex_cmp xs zs \<le> 0"
proof (induction xs zs arbitrary: ys rule: lex_cmp.induct)
  case (3 x xs)
  then show ?case by (cases ys) (auto split: if_splits)
next
  case (4 x xs z zs)
  then show ?case by (cases ys) (auto split: if_splits)
qed auto

lemma memcmp_min_len:
  assumes "sp_ok s" "sp_ok x"
  shows "memcmp (sp_ptr s) (sp_ptr x) (sp_min_len s x) =
         Inr (lex_cmp (take (min (length (sp_text s)) (length (sp_text x))) (sp_text s))
                      (take (min (length (sp_text s)) (length (sp_text x))) (sp_text x)))"
proof -
  have m: "sp_min_len s x = min (nat (sp_len s)) (nat (sp_len x))"
    using assms by (auto simp: sp_min_len_def sp_ok_def size_of_int_nonneg)
  show ?thesis
    using assms unfolding length_sp_text [OF assms(1)] length_sp_text [OF assms(2)]
    by (auto simp: memcmp_def m cmp_bytes_take sp_text_def sp_ok_def min.commute min_le_iff_disj)
qed

section \<open>Properties\<close>

text \<open>C40. \<open>compare\<close> is the lexicographic comparison of the two texts by unsigned bytes,
  a proper prefix coming first, and the operators \<open><\<close>, \<open><=\<close>, \<open>>=\<close>, \<open>>\<close>, \<open>==\<close> and \<open>!=\<close> agree with
  it: on valid pieces they are one total order of texts.\<close>

theorem sp_compare_lex:
  assumes "sp_ok s" "sp_ok x"
  shows "sp_compare s x = Inr (lex_cmp (sp_text s) (sp_text x)) \<and>
         sp_less s x = Inr (lex_cmp (sp_text s) (sp_text x) < 0) \<and>
         sp_less_eq s x = Inr (lex_cmp (sp_text s) (sp_text x) \<le> 0) \<and>
         sp_greater_eq s x = Inr (lex_cmp (sp_text s) (sp_text x) \<ge> 0) \<and>
         sp_greater s x = Inr (lex_cmp (sp_text s) (sp_text x) > 0) \<and>
         sp_eq s x = Inr (sp_text s = sp_text x) \<and>
         sp_neq s x = Inr (sp_text s \<noteq> sp_text x)"
proof -
  have len: "sp_len s = int (length (sp_text s))" "sp_len x = int (length (sp_text x))"
    using assms by (simp_all add: length_sp_text sp_ok_def)
  have cmp: "sp_compare s x = Inr (lex_cmp (sp_text s) (sp_text x))"
    unfolding sp_compare_def memcmp_min_len [OF assms] lex_cmp_split [of "sp_text s"] len
    by (auto simp: Let_def)
  have preds: "sp_less s x = Inr (lex_cmp (sp_text s) (sp_text x) < 0)"
    "sp_less_eq s x = Inr (lex_cmp (sp_text s) (sp_text x) \<le> 0)"
    "sp_greater_eq s x = Inr (lex_cmp (sp_text s) (sp_text x) \<ge> 0)"
    "sp_greater s x = Inr (lex_cmp (sp_text s) (sp_text x) > 0)"
    unfolding sp_less_def sp_less_eq_def sp_greater_eq_def sp_greater_def
      sp_binary_predicate_def memcmp_min_len [OF assms] lex_cmp_split [of "sp_text s"] len
    by (auto simp: Let_def)
  have eq: "sp_eq s x = Inr (sp_text s = sp_text x)"
  proof (cases "sp_len s = sp_len x")
    case True
    then have "memcmp (sp_ptr s) (sp_ptr x) (size_of_int (sp_len s)) =
        Inr (lex_cmp (sp_text s) (sp_text x))"
      using memcmp_min_len [OF assms] len by (simp add: sp_min_len_def)
    with True show ?thesis by (simp add: sp_eq_def lex_cmp_zero)
  next
    case False
    with len have "sp_text s \<noteq> sp_text x" by auto
    with False show ?thesis by (simp add: sp_eq_def)
  qed
  then have "sp_neq s x = Inr (sp_text s \<noteq> sp_text x)" by (simp add: sp_neq_def)
  with cmp preds eq show ?thesis by blast
qed

theorem sp_compare_lex_witness:
  "sp_compare (sp_of_string ''ab'') (sp_of_string ''abc'') = Inr (-1) \<and>
   sp_less (sp_of_string ''ab'') (sp_of_string ''abc'') = Inr True"
proof -
  have ok: "sp_ok (sp_of_string ''ab'')" "sp_ok (sp_of_string ''abc'')"
    using sp_of_string_ok [of "''ab''"] sp_of_string_ok [of "''abc''"] by simp_all
  have t: "sp_text (sp_of_string ''ab'') = ''ab''" "sp_text (sp_of_string ''abc'') = ''abc''"
    using sp_of_string_ok [of "''ab''"] sp_of_string_ok [of "''abc''"] by simp_all
  from sp_compare_lex [OF ok] show ?thesis by (simp add: t)
qed

text \<open>\<open>starts_with\<close> is the prefix test on texts; \<open>remove_prefix\<close> and \<open>remove_suffix\<close> of
  at most the length cut that many characters off the text at either end and keep the
  piece valid.\<close>

theorem sp_prefix_ops:
  assumes "sp_ok s" "sp_ok x" "n \<le> length (sp_text s)"
  shows "starts_with s x = Inr (\<exists>rest. sp_text s = sp_text x @ rest) \<and>
         (\<exists>p. remove_prefix s (int n) = Inr p \<and> sp_ok p \<and> sp_text p = drop n (sp_text s)) \<and>
         sp_ok (remove_suffix s (int n)) \<and>
         sp_text (remove_suffix s (int n)) = take (length (sp_text s) - n) (sp_text s)"
proof -
  have len: "sp_len s = int (length (sp_text s))" "sp_len x = int (length (sp_text x))"
    using assms by (simp_all add: length_sp_text sp_ok_def)
  have "starts_with s x = Inr (\<exists>rest. sp_text s = sp_text x @ rest)"
  proof (cases "sp_len x \<le> sp_len s")
    case True
    then have "memcmp (sp_ptr s) (sp_ptr x) (size_of_int (sp_len x)) =
        Inr (lex_cmp (take (length (sp_text x)) (sp_text s)) (sp_text x))"
      using memcmp_min_len [OF assms(1,2)] len by (auto simp: sp_min_len_def min_def split: if_splits)
    moreover have "take (length (sp_text x)) (sp_text s) = sp_text x \<longleftrightarrow>
        (\<exists>rest. sp_text s = sp_text x @ rest)"
      by (metis append_eq_conv_conj)
    ultimately show ?thesis using True by (simp add: starts_with_def lex_cmp_zero)
  next
    case False
    with len have "length (sp_text s) < length (sp_text x)" by simp
    then show ?thesis using False by (auto simp: starts_with_def)
  qed
  moreover have "nat (sp_len s - int n) = nat (sp_len s) - n" by simp
  moreover have "n \<le> length (sp_ptr s)" using assms(1,3) by (simp add: length_sp_text sp_ok_def)
  ultimately show ?thesis
    using assms by (auto simp: sp_ok_def sp_text_def remove_prefix_def remove_suffix_def
        drop_take length_sp_text min_def)
qed

theorem sp_prefix_ops_witness:
  "starts_with (sp_of_string ''GET /'') (sp_of_string ''GET'') = Inr True \<and>
   (\<exists>p. remove_prefix (sp_of_string ''GET /'') 3 = Inr p \<and> sp_text p = '' /'')"
proof -
  have ok: "sp_ok (sp_of_string ''GET /'')" "sp_ok (sp_of_string ''GET'')"
    using sp_of_string_ok [of "''GET /''"] sp_of_string_ok [of "''GET''"] by simp_all
  have t: "sp_text (sp_of_string ''GET /'') = ''GET /''" "sp_text (sp_of_string ''GET'') = ''GET''"
    using sp_of_string_ok [of "''GET /''"] sp_of_string_ok [of "''GET''"] by simp_all
  have "3 \<le> length (sp_text (sp_of_string ''GET /''))" by (simp add: t)
  from sp_prefix_ops [OF ok this] show ?thesis by (auto simp: t)
qed

end
