(* ===== verification/NetBuffer.thy ===== *)
theory NetBuffer
  imports Prelude StringPiece
begin

text \<open>
  \<open>Buffer\<close> (src/net/buffer.h, src/net/buffer.cpp): the byte queue of a connection. One vector
  holds a prependable area, the readable bytes between \<open>readerIndex_\<close> and
  \<open>writerIndex_\<close>, and a writable area. Every operation that contains an assert, that may
  resize the vector or that writes through an iterator returns a \<open>res\<close>. Pointers into
  the vector are indices.
\<close>

section \<open>State and operations\<close>

record buffer =
  buf_data :: "char list"
  readerIndex :: nat
  writerIndex :: nat

definition kCheapPrepend :: nat where
  "kCheapPrepend = 8"

definition kInitialSize :: nat where
  "kInitialSize = 1024"

definition kCRLF :: "char list" where
  "kCRLF = [CHR 0x0D, CHR 0x0A]"

definition readableBytes :: "buffer \<Rightarrow> nat" where
  "readableBytes b = sz_sub (writerIndex b) (readerIndex b)"

definition writableBytes :: "buffer \<Rightarrow> nat" where
  "writableBytes b = sz_sub (length (buf_data b)) (writerIndex b)"

definition prependableBytes :: "buffer \<Rightarrow> nat" where
  "prependableBytes b = readerIndex b"

definition Buffer_ctor :: "nat \<Rightarrow> buffer res" where
  "Buffer_ctor initSize =
     (let b = \<lparr>buf_data = replicate (kCheapPrepend + kInitialSize) (CHR 0x00),
               readerIndex = kCheapPrepend, writerIndex = kCheapPrepend\<rparr>
      in bindE (assertE (readableBytes b = 0)) (\<lambda>_.
         bindE (assertE (writableBytes b = initSize)) (\<lambda>_. Inr b)))"

definition buf_swap :: "buffer \<Rightarrow> buffer \<Rightarrow> buffer \<times> buffer" where
  "buf_swap b rhs =
     (b\<lparr>buf_data := buf_data rhs, readerIndex := readerIndex rhs, writerIndex := writerIndex rhs\<rparr>,
      rhs\<lparr>buf_data := buf_data b, readerIndex := readerIndex b, writerIndex := writerIndex b\<rparr>)"

text \<open>The bytes readable from \<open>peek()\<close> on, up to \<open>beginWrite()\<close>.\<close>

definition content :: "buffer \<Rightarrow> char list" where
  "content b = take (writerIndex b - readerIndex b) (drop (readerIndex b) (buf_data b))"

definition findCRLF_from :: "buffer \<Rightarrow> nat \<Rightarrow> nat option res" where
  "findCRLF_from b start =
     bindE (assertE (readerIndex b \<le> start)) (\<lambda>_.
     bindE (assertE (start \<le> writerIndex b)) (\<lambda>_.
       let crlf = start + std_search (take (writerIndex b - start) (drop start (buf_data b))) kCRLF
       in Inr (if crlf = writerIndex b then None else Some crlf)))"

definition findCRLF :: "buffer \<Rightarrow> nat option" where
  "findCRLF b =
     (let crlf = readerIndex b + std_search (content b) kCRLF
      in if crlf = writerIndex b then None else Some crlf)"

definition findEOL :: "buffer \<Rightarrow> nat option" where
  "findEOL b = map_option (\<lambda>i. readerIndex b + i) (memchr (content b) (CHR 0x0A))"

definition findEOL_from :: "buffer \<Rightarrow> nat \<Rightarrow> nat option res" where
  "findEOL_from b start =
     bindE (assertE (readerIndex b \<le> start)) (\<lambda>_.
     bindE (assertE (start \<le> writerIndex b)) (\<lambda>_.
       Inr (map_option (\<lambda>i. start + i)
         (memchr (take (writerIndex b - start) (drop start (buf_data b))) (CHR 0x0A)))))"

definition retrieveAll :: "buffer \<Rightarrow> buffer" where
  "retrieveAll b = b\<lparr>readerIndex := kCheapPrepend, writerIndex := kCheapPrepend\<rparr>"

definition retrieve :: "buffer \<Rightarrow> nat \<Rightarrow> buffer res" where
  "retrieve b len =
     bindE (assertE (len \<le> readableBytes b)) (\<lambda>_.
       if len < readableBytes b
       then Inr (b\<lparr>readerIndex := sz_add (readerIndex b) len\<rparr>)
       else Inr (retrieveAll b))"

definition retrieveInt64 :: "buffer \<Rightarrow> buffer res" where "retrieveInt64 b = retrieve b 8"
definition retrieveInt32 :: "buffer \<Rightarrow> buffer res" where "retrieveInt32 b = retrieve b 4"
definition retrieveInt16 :: "buffer \<Rightarrow> buffer res" where "retrieveInt16 b = retrieve b 2"
definition retrieveInt8 :: "buffer \<Rightarrow> buffer res" where "retrieveInt8 b = retrieve b 1"

text \<open>The \<open>len\<close> bytes from \<open>peek()\<close> on, which must lie in the vector.\<close>

definition peek_bytes :: "buffer \<Rightarrow> nat \<Rightarrow> char list res" where
  "peek_bytes b len =
     (if readerIndex b + len \<le> length (buf_data b)
      then Inr (take len (drop (readerIndex b) (buf_data b))) else Inl OutOfBounds)"

definition retrieveAsString :: "buffer \<Rightarrow> nat \<Rightarrow> (char list \<times> buffer) res" where
  "retrieveAsString b len =
     bindE (assertE (len \<le> readableBytes b)) (\<lambda>_.
     bindE (peek_bytes b len) (\<lambda>result.
     bindE (retrieve b len) (\<lambda>b'. Inr (result, b'))))"

definition retrieveAllAsString :: "buffer \<Rightarrow> (char list \<times> buffer) res" where
  "retrieveAllAsString b = retrieveAsString b (readableBytes b)"

definition toStringPiece :: "buffer \<Rightarrow> string_piece" where
  "toStringPiece b = sp_of_ptr (drop (readerIndex b) (buf_data b)) (int_of_size (readableBytes b))"

definition makeSpace :: "buffer \<Rightarrow> nat \<Rightarrow> buffer res" where
  "makeSpace b len =
     (if sz_add (writableBytes b) (prependableBytes b) < sz_add len kCheapPrepend
      then bindE (vec_resize (buf_data b) (sz_add (writerIndex b) len))
             (\<lambda>d. Inr (b\<lparr>buf_data := d\<rparr>))
      else
        bindE (assertE (kCheapPrepend < readerIndex b)) (\<lambda>_.
        let readable = readableBytes b in
        bindE (copy_to (buf_data b) kCheapPrepend (content b)) (\<lambda>d.
        let b' = b\<lparr>buf_data := d, readerIndex := kCheapPrepend,
                  writerIndex := sz_add kCheapPrepend readable\<rparr> in
        bindE (assertE (readable = readableBytes b')) (\<lambda>_. Inr b'))))"

definition ensureWritableBytes :: "buffer \<Rightarrow> nat \<Rightarrow> buffer res" where
  "ensureWritableBytes b len =
     bindE (if writableBytes b < len then makeSpace b len else Inr b) (\<lambda>b'.
     bindE (assertE (len \<le> writableBytes b')) (\<lambda>_. Inr b'))"

definition hasWritten :: "buffer \<Rightarrow> nat \<Rightarrow> buffer res" where
  "hasWritten b len =
     bindE (assertE (len \<le> writableBytes b)) (\<lambda>_.
       Inr (b\<lparr>writerIndex := sz_add (writerIndex b) len\<rparr>))"

definition unwrite :: "buffer \<Rightarrow> nat \<Rightarrow> buffer res" where
  "unwrite b len =
     bindE (assertE (len \<le> readableBytes b)) (\<lambda>_.
       Inr (b\<lparr>writerIndex := sz_sub (writerIndex b) len\<rparr>))"

text \<open>\<open>append(data, len)\<close>: \<open>data\<close> is the memory readable through the pointer.\<close>

definition append :: "buffer \<Rightarrow> char list \<Rightarrow> nat \<Rightarrow> buffer res" where
  "append b data len =
     bindE (ensureWritableBytes b len) (\<lambda>b1.
     bindE (if len \<le> length data then copy_to (buf_data b1) (writerIndex b1) (take len data)
            else Inl OutOfBounds) (\<lambda>d.
     hasWritten (b1\<lparr>buf_data := d\<rparr>) len))"

definition append_piece :: "buffer \<Rightarrow> string_piece \<Rightarrow> buffer res" where
  "append_piece b str = append b (sp_ptr str) (size_of_int (sp_len str))"

definition prepend :: "buffer \<Rightarrow> char list \<Rightarrow> nat \<Rightarrow> buffer res" where
  "prepend b data len =
     bindE (assertE (len \<le> prependableBytes b)) (\<lambda>_.
     let r = sz_sub (readerIndex b) len in
     bindE (if len \<le> length data then copy_to (buf_data b) r (take len data)
            else Inl OutOfBounds) (\<lambda>d.
     Inr (b\<lparr>buf_data := d, readerIndex := r\<rparr>)))"

definition shrink :: "buffer \<Rightarrow> nat \<Rightarrow> buffer res" where
  "shrink b reserve =
     bindE (Buffer_ctor kInitialSize) (\<lambda>other.
     bindE (ensureWritableBytes other (sz_add (readableBytes b) reserve)) (\<lambda>other1.
     bindE (append_piece other1 (toStringPiece b)) (\<lambda>other2.
     Inr (fst (buf_swap b other2)))))"

subsection \<open>Integers in network order\<close>

text \<open>
  The memory image of an integer on the (little-endian) host, the value of such an
  image, and the byte swap \<open>htobe64\<close>/\<open>htonl\<close>/\<open>htons\<close> and their inverses perform on it.
\<close>

primrec le_bytes :: "nat \<Rightarrow> nat \<Rightarrow> char list" where
  "le_bytes 0 n = []"
| "le_bytes (Suc k) n = char_of n # le_bytes k (n div 256)"

primrec le_value :: "char list \<Rightarrow> nat" where
  "le_value [] = 0"
| "le_value (c # cs) = ubyte c + 256 * le_value cs"

definition bswap :: "nat \<Rightarrow> nat \<Rightarrow> nat" where
  "bswap k n = le_value (rev (le_bytes k n))"

definition hton64 :: "64 word \<Rightarrow> 64 word" where "hton64 x = word_of_nat (bswap 8 (unat x))"
definition hton32 :: "32 word \<Rightarrow> 32 word" where "hton32 x = word_of_nat (bswap 4 (unat x))"
definition hton16 :: "16 word \<Rightarrow> 16 word" where "hton16 x = word_of_nat (bswap 2 (unat x))"

definition appendInt64 :: "buffer \<Rightarrow> 64 word \<Rightarrow> buffer res" where
  "appendInt64 b x = append b (le_bytes 8 (unat (hton64 x))) 8"

definition appendInt32 :: "buffer \<Rightarrow> 32 word \<Rightarrow> buffer res" where
  "appendInt32 b x = append b (le_bytes 4 (unat (hton32 x))) 4"

definition appendInt16 :: "buffer \<Rightarrow> 16 word \<Rightarrow> buffer res" where
  "appendInt16 b x = append b (le_bytes 2 (unat (hton16 x))) 2"

definition appendInt8 :: "buffer \<Rightarrow> 8 word \<Rightarrow> buffer res" where
  "appendInt8 b x = append b (le_bytes 1 (unat x)) 1"

definition peekInt64 :: "buffer \<Rightarrow> 64 word res" where
  "peekInt64 b =
     bindE (assertE (8 \<le> readableBytes b)) (\<lambda>_.
     bindE (peek_bytes b 8) (\<lambda>m. Inr (hton64 (word_of_nat (le_value m)))))"

definition peekInt32 :: "buffer \<Rightarrow> 32 word res" where
  "peekInt32 b =
     bindE (assertE (4 \<le> readableBytes b)) (\<lambda>_.
     bindE (peek_bytes b 4) (\<lambda>m. Inr (hton32 (word_of_nat (le_value m)))))"

definition peekInt16 :: "buffer \<Rightarrow> 16 word res" where
  "peekInt16 b =
     bindE (assertE (2 \<le> readableBytes b)) (\<lambda>_.
     bindE (peek_bytes b 2) (\<lambda>m. Inr (hton16 (word_of_nat (le_value m)))))"

definition peekInt8 :: "buffer \<Rightarrow> 8 word res" where
  "peekInt8 b =
     bindE (assertE (1 \<le> readableBytes b)) (\<lambda>_.
     bindE (peek_bytes b 1) (\<lambda>m. Inr (word_of_nat (le_value m))))"

definition readInt64 :: "buffer \<Rightarrow> (64 word \<times> buffer) res" where
  "readInt64 b = bindE (peekInt64 b) (\<lambda>x. bindE (retrieveInt64 b) (\<lambda>b'. Inr (x, b')))"

definition readInt32 :: "buffer \<Rightarrow> (32 word \<times> buffer) res" where
  "readInt32 b = bindE (peekInt32 b) (\<lambda>x. bindE (retrieveInt32 b) (\<lambda>b'. Inr (x, b')))"

definition readInt16 :: "buffer \<Rightarrow> (16 word \<times> buffer) res" where
  "readInt16 b = bindE (peekInt16 b) (\<lambda>x. bindE (retrieveInt16 b) (\<lambda>b'. Inr (x, b')))"

definition readInt8 :: "buffer \<Rightarrow> (8 word \<times> buffer) res" where
  "readInt8 b = bindE (peekInt8 b) (\<lambda>x. bindE (retrieveInt8 b) (\<lambda>b'. Inr (x, b')))"

definition prependInt64 :: "buffer \<Rightarrow> 64 word \<Rightarrow> buffer res" where
  "prependInt64 b x = prepend b (le_bytes 8 (unat (hton64 x))) 8"

definition prependInt32 :: "buffer \<Rightarrow> 32 word \<Rightarrow> buffer res" where
  "prependInt32 b x = prepend b (le_bytes 4 (unat (hton32 x))) 4"

definition prependInt16 :: "buffer \<Rightarrow> 16 word \<Rightarrow> buffer res" where
  "prependInt16 b x = prepend b (le_bytes 2 (unat (hton16 x))) 2"

definition prependInt8 :: "buffer \<Rightarrow> 8 word \<Rightarrow> buffer res" where
  "prependInt8 b x = prepend b (le_bytes 1 (unat x)) 1"

subsection \<open>Reading from a file descriptor\<close>

text \<open>
  \<open>readFd\<close> scatters one \<open>readv(2)\<close> over the writable area and a 65536-byte array on the
  stack. The call is the parameter \<open>readv\<close>: from the total capacity of the vectors it
  yields an \<open>errno\<close> or the bytes read. The kernel stores the first \<open>writable\<close> of them in
  the buffer itself. The result is the buffer, the return value and the saved \<open>errno\<close>.
\<close>

definition EXTRABUF :: nat where
  "EXTRABUF = 65536"

definition readFd_capacity :: "buffer \<Rightarrow> nat" where
  "readFd_capacity b =
     (if writableBytes b < EXTRABUF then writableBytes b + EXTRABUF else writableBytes b)"

definition readFd ::
  "(nat \<Rightarrow> int + char list) \<Rightarrow> buffer \<Rightarrow> (buffer \<times> int \<times> int option) res" where
  "readFd readv b =
     (let writable = writableBytes b in
      case readv (readFd_capacity b) of
        Inl err \<Rightarrow> Inr (b, -1, Some err)
      | Inr bytes \<Rightarrow>
          bindE (copy_to (buf_data b) (writerIndex b) (take writable bytes)) (\<lambda>d.
          let n = length bytes; b1 = b\<lparr>buf_data := d\<rparr> in
          if n \<le> writable
          then Inr (b1\<lparr>writerIndex := sz_add (writerIndex b1) n\<rparr>, int n, None)
          else bindE (append (b1\<lparr>writerIndex := length (buf_data b1)\<rparr>)
                        (take EXTRABUF (drop writable bytes)) (sz_sub n writable))
                 (\<lambda>b2. Inr (b2, int n, None))))"

section \<open>The representation invariant\<close>

definition buf_ok :: "buffer \<Rightarrow> bool" where
  "buf_ok b \<longleftrightarrow>
     kCheapPrepend \<le> length (buf_data b) \<and> readerIndex b \<le> writerIndex b \<and>
     writerIndex b \<le> length (buf_data b) \<and> length (buf_data b) \<le> VEC_MAX"

lemmas buf_const = kCheapPrepend_def kInitialSize_def VEC_MAX_def SIZE_MOD_def

lemma buf_okI:
  "kCheapPrepend \<le> length (buf_data b) \<Longrightarrow> readerIndex b \<le> writerIndex b \<Longrightarrow>
   writerIndex b \<le> length (buf_data b) \<Longrightarrow> length (buf_data b) \<le> VEC_MAX \<Longrightarrow> buf_ok b"
  by (simp add: buf_ok_def)

lemma readable_ok: "buf_ok b \<Longrightarrow> readableBytes b = writerIndex b - readerIndex b"
  by (simp add: readableBytes_def buf_ok_def sz_sub_le buf_const)

lemma writable_ok: "buf_ok b \<Longrightarrow> writableBytes b = length (buf_data b) - writerIndex b"
  by (simp add: writableBytes_def buf_ok_def sz_sub_le buf_const)

lemma length_content: "buf_ok b \<Longrightarrow> length (content b) = readableBytes b"
  by (auto simp: readable_ok content_def buf_ok_def)

lemma readable_bound: "buf_ok b \<Longrightarrow> readableBytes b \<le> VEC_MAX"
  by (auto simp: readable_ok buf_ok_def)

lemma writer_bound: "buf_ok b \<Longrightarrow> writerIndex b \<le> VEC_MAX"
  by (simp add: buf_ok_def)

lemma retrieveAll_ok: "buf_ok b \<Longrightarrow> buf_ok (retrieveAll b) \<and> content (retrieveAll b) = []"
  by (simp add: buf_ok_def retrieveAll_def content_def)

lemma Buffer_ctor_default:
  "\<exists>b. Buffer_ctor kInitialSize = Inr b \<and> buf_ok b \<and> content b = []"
  by (simp add: Buffer_ctor_def Let_def readableBytes_def writableBytes_def sz_sub_def
      buf_ok_def content_def buf_const)

lemma Buffer_ctor_cases:
  "Buffer_ctor n = (if n = kInitialSize then Buffer_ctor kInitialSize else Inl AssertFailed)"
  by (auto simp: Buffer_ctor_def Let_def readableBytes_def writableBytes_def sz_sub_def buf_const)

lemma retrieve_cases:
  assumes "buf_ok b"
  shows "retrieve b len =
           (if len \<le> readableBytes b
            then Inr (if len < readableBytes b then b\<lparr>readerIndex := readerIndex b + len\<rparr>
                      else retrieveAll b)
            else Inl AssertFailed)"
proof -
  have "readerIndex b + len < SIZE_MOD" if "len < readableBytes b"
    using that assms by (auto simp: readable_ok buf_ok_def buf_const)
  then show ?thesis by (simp add: retrieve_def assertE_def sz_add_small)
qed

lemma retrieve_content:
  assumes "buf_ok b" "retrieve b len = Inr b'"
  shows "buf_ok b' \<and> len \<le> length (content b) \<and> content b' = drop len (content b)"
proof -
  have le: "len \<le> readableBytes b"
    using assms by (auto simp: retrieve_cases split: if_splits)
  show ?thesis
  proof (cases "len < readableBytes b")
    case True
    then have b': "b' = b\<lparr>readerIndex := readerIndex b + len\<rparr>"
      using assms by (simp add: retrieve_cases)
    from True assms(1) show ?thesis
      by (auto simp: b' content_def buf_ok_def readable_ok drop_take add.commute diff_diff_left)
  next
    case False
    with le have "b' = retrieveAll b" and "len = length (content b)"
      using assms by (auto simp: retrieve_cases length_content)
    with assms(1) show ?thesis by (simp add: retrieveAll_ok)
  qed
qed

lemma retrieve_total:
  "buf_ok b \<Longrightarrow> len \<le> length (content b) \<Longrightarrow> \<exists>b'. retrieve b len = Inr b'"
  by (simp add: retrieve_cases length_content)

lemma peek_bytes_content:
  assumes "buf_ok b" "len \<le> readableBytes b"
  shows "peek_bytes b len = Inr (take len (content b))"
  using assms by (auto simp: peek_bytes_def content_def readable_ok buf_ok_def min_absorb1)

lemma retrieveAllAsString_eq: "buf_ok b \<Longrightarrow> retrieveAllAsString b = Inr (content b, retrieveAll b)"
  using length_content [of b]
  by (simp add: retrieveAllAsString_def retrieveAsString_def retrieve_cases peek_bytes_content)

lemma retrieveAsString_cases:
  assumes "buf_ok b"
  shows "retrieveAsString b len =
           (if len \<le> readableBytes b
            then bindE (retrieve b len) (\<lambda>b'. Inr (take len (content b), b'))
            else Inl AssertFailed)"
  using assms by (simp add: retrieveAsString_def assertE_def peek_bytes_content)

section \<open>Making space and appending\<close>

text \<open>
  \<open>makeSpace\<close> either grows the vector or moves the readable bytes to the front. In the
  second branch its assert holds whenever the caller really lacked space.
\<close>

lemma makeSpace_content:
  assumes ok: "buf_ok b" and lack: "writableBytes b < len" and len: "len \<le> VEC_MAX"
  shows "(case makeSpace b len of
            Inl e \<Rightarrow> e = LengthError \<and> VEC_MAX < writerIndex b + len
          | Inr b' \<Rightarrow> buf_ok b' \<and> content b' = content b \<and> len \<le> writableBytes b')"
proof (cases "sz_add (writableBytes b) (prependableBytes b) < sz_add len kCheapPrepend")
  case True
  have w: "sz_add (writerIndex b) len = writerIndex b + len"
    using ok len by (intro sz_add_small) (auto simp: buf_ok_def buf_const)
  have grow: "length (buf_data b) < writerIndex b + len"
    using ok lack by (simp add: writable_ok buf_ok_def)
  show ?thesis
  proof (cases "VEC_MAX < writerIndex b + len")
    case True
    with \<open>sz_add (writableBytes b) (prependableBytes b) < sz_add len kCheapPrepend\<close>
    show ?thesis by (simp add: makeSpace_def w vec_resize_def)
  next
    case False
    define b' where "b' = b\<lparr>buf_data := buf_data b @
        replicate (writerIndex b + len - length (buf_data b)) (CHR 0x00)\<rparr>"
    have m: "makeSpace b len = Inr b'"
      using True False grow by (simp add: makeSpace_def w vec_resize_def b'_def)
    have b'ok: "buf_ok b'"
      using ok grow False by (simp add: buf_ok_def b'_def)
    have "content b' = content b"
      using ok by (simp add: content_def b'_def buf_ok_def)
    moreover have "len \<le> writableBytes b'"
      using b'ok grow by (simp add: writable_ok) (simp add: b'_def)
    ultimately show ?thesis using m b'ok by simp
  qed
next
  case False
  have s1: "sz_add (writableBytes b) (prependableBytes b) = writableBytes b + readerIndex b"
    unfolding prependableBytes_def using ok
    by (intro sz_add_small) (auto simp: writable_ok buf_ok_def buf_const)
  have s2: "sz_add len kCheapPrepend = len + kCheapPrepend"
    using len by (intro sz_add_small) (auto simp: buf_const)
  have front: "kCheapPrepend < readerIndex b" and
       room: "len + kCheapPrepend \<le> writableBytes b + readerIndex b"
    using False lack unfolding s1 s2 by linarith+
  have s3: "sz_add kCheapPrepend (readableBytes b) = kCheapPrepend + readableBytes b"
    using readable_bound [OF ok] by (intro sz_add_small) (auto simp: buf_const)
  define d where "d = take kCheapPrepend (buf_data b) @ content b @
      drop (kCheapPrepend + length (content b)) (buf_data b)"
  define b' where "b' = b\<lparr>buf_data := d, readerIndex := kCheapPrepend,
      writerIndex := kCheapPrepend + readableBytes b\<rparr>"
  have fits: "kCheapPrepend + length (content b) \<le> length (buf_data b)"
    using ok front by (auto simp: length_content readable_ok buf_ok_def)
  have ld: "length d = length (buf_data b)"
    using fits by (simp add: d_def)
  have b'ok: "buf_ok b'"
    using ok fits by (auto simp: buf_ok_def b'_def ld simp flip: length_content [OF ok])
  have m: "makeSpace b len = Inr b'"
    using False front fits b'ok
    by (simp add: makeSpace_def assertE_def copy_to_def s3 Let_def flip: d_def b'_def)
       (simp add: readable_ok b'_def)
  have "drop kCheapPrepend d = content b @ drop (kCheapPrepend + length (content b)) (buf_data b)"
    using ok by (simp add: d_def buf_ok_def)
  then have "content b' = content b"
    unfolding content_def [of b'] by (simp add: b'_def flip: length_content [OF ok])
  moreover have "len \<le> writableBytes b'"
    using b'ok room ok by (simp add: writable_ok) (simp add: b'_def ld readable_ok buf_ok_def)
  ultimately show ?thesis using m b'ok by simp
qed

lemma ensureWritable_content:
  assumes "buf_ok b" "len \<le> VEC_MAX"
  shows "(case ensureWritableBytes b len of
            Inl e \<Rightarrow> e = LengthError \<and> VEC_MAX < writerIndex b + len
          | Inr b' \<Rightarrow> buf_ok b' \<and> content b' = content b \<and> len \<le> writableBytes b')"
  using makeSpace_content [OF assms(1) _ assms(2)] assms(1)
  by (cases "makeSpace b len") (auto simp: ensureWritableBytes_def)

text \<open>Writing \<open>src\<close> at \<open>writerIndex_\<close> and advancing it.\<close>

lemma write_content:
  assumes ok: "buf_ok b" and fits: "length src \<le> writableBytes b"
  shows "copy_to (buf_data b) (writerIndex b) src =
           Inr (take (writerIndex b) (buf_data b) @ src @ drop (writerIndex b + length src) (buf_data b))"
    and "let b' = b\<lparr>buf_data := take (writerIndex b) (buf_data b) @ src @
                      drop (writerIndex b + length src) (buf_data b),
                    writerIndex := writerIndex b + length src\<rparr>
         in buf_ok b' \<and> content b' = content b @ src"
proof -
  have le: "writerIndex b + length src \<le> length (buf_data b)"
    using assms by (auto simp: writable_ok buf_ok_def)
  then show "copy_to (buf_data b) (writerIndex b) src =
      Inr (take (writerIndex b) (buf_data b) @ src @ drop (writerIndex b + length src) (buf_data b))"
    by (simp add: copy_to_def)
  show "let b' = b\<lparr>buf_data := take (writerIndex b) (buf_data b) @ src @
                      drop (writerIndex b + length src) (buf_data b),
                    writerIndex := writerIndex b + length src\<rparr>
        in buf_ok b' \<and> content b' = content b @ src"
    using ok le
    by (simp add: buf_ok_def content_def Let_def drop_take min_absorb2)
qed

text \<open>
  The complete behaviour of \<open>append\<close>: it never fails an assert and never writes out of
  bounds; either the vector would exceed its maximal size, or the bytes are queued.
\<close>

lemma append_content:
  assumes ok: "buf_ok b" and len: "length data \<le> VEC_MAX"
  shows "(case append b data (length data) of
            Inl e \<Rightarrow> e = LengthError \<and> VEC_MAX < writerIndex b + length data
          | Inr b' \<Rightarrow> buf_ok b' \<and> content b' = content b @ data)"
proof (cases "ensureWritableBytes b (length data)")
  case (Inl e)
  with ensureWritable_content [OF assms] show ?thesis by (simp add: append_def)
next
  case (Inr b1)
  then have b1: "buf_ok b1" "content b1 = content b" "length data \<le> writableBytes b1"
    using ensureWritable_content [OF assms] by simp_all
  have s: "sz_add (writerIndex b1) (length data) = writerIndex b1 + length data"
    using b1 by (intro sz_add_small) (auto simp: writable_ok buf_ok_def buf_const)
  have w: "writableBytes (b1\<lparr>buf_data := take (writerIndex b1) (buf_data b1) @ data @
      drop (writerIndex b1 + length data) (buf_data b1)\<rparr>) = writableBytes b1"
    using b1 unfolding writable_ok [OF b1(1)] by (auto simp: writableBytes_def buf_ok_def sz_sub_le buf_const)
  show ?thesis
    using write_content [OF b1(1) b1(3)] b1(3) Inr w
    by (simp add: append_def hasWritten_def s b1(2) Let_def)
qed

lemma append_total:
  assumes "buf_ok b" "writerIndex b + length data \<le> VEC_MAX"
  shows "\<exists>b'. append b data (length data) = Inr b' \<and> buf_ok b' \<and> content b' = content b @ data"
  using append_content [OF assms(1), of data] assms(2)
  by (cases "append b data (length data)") auto

lemma append_InrD:
  assumes "buf_ok b" "length data \<le> VEC_MAX" "append b data (length data) = Inr b'"
  shows "buf_ok b' \<and> content b' = content b @ data"
  using append_content [OF assms(1,2)] assms(3) by simp

lemma hasWritten_ok:
  assumes "buf_ok b" "hasWritten b len = Inr b'"
  shows "buf_ok b' \<and> writerIndex b' = writerIndex b + len"
proof -
  have "len \<le> length (buf_data b) - writerIndex b"
    using assms by (auto simp: hasWritten_def writable_ok)
  moreover have "sz_add (writerIndex b) len = writerIndex b + len"
    using assms calculation by (intro sz_add_small) (auto simp: buf_ok_def buf_const)
  ultimately show ?thesis using assms by (auto simp: hasWritten_def buf_ok_def)
qed

lemma unwrite_content:
  assumes "buf_ok b" "unwrite b len = Inr b'"
  shows "buf_ok b' \<and> content b' = take (length (content b) - len) (content b)"
proof -
  have le: "len \<le> writerIndex b - readerIndex b"
    using assms by (auto simp: unwrite_def readable_ok)
  have s: "sz_sub (writerIndex b) len = writerIndex b - len"
    using assms(1) le by (intro sz_sub_le) (auto simp: buf_ok_def buf_const)
  have "b' = b\<lparr>writerIndex := writerIndex b - len\<rparr>"
    using assms s by (auto simp: unwrite_def)
  moreover have "writerIndex b - len - readerIndex b = writerIndex b - readerIndex b - len"
    by simp
  moreover have "length (content b) = writerIndex b - readerIndex b"
    using assms(1) by (simp add: length_content readable_ok)
  ultimately show ?thesis
    using le assms(1) by (auto simp: buf_ok_def content_def min_absorb1)
qed

lemma prepend_content:
  assumes ok: "buf_ok b" and p: "prepend b data (length data) = Inr b'"
  shows "buf_ok b' \<and> content b' = data @ content b"
proof -
  have le: "length data \<le> readerIndex b"
    using p by (auto simp: prepend_def prependableBytes_def)
  have s: "sz_sub (readerIndex b) (length data) = readerIndex b - length data"
    using ok le by (intro sz_sub_le) (auto simp: buf_ok_def buf_const)
  let ?r = "readerIndex b - length data"
  have b': "b' = b\<lparr>buf_data := take ?r (buf_data b) @ data @ drop (readerIndex b) (buf_data b),
                  readerIndex := ?r\<rparr>"
    using p le by (auto simp: prepend_def s copy_to_eq_Inr Let_def)
  have "drop ?r (take ?r (buf_data b) @ data @ drop (readerIndex b) (buf_data b))
        = data @ drop (readerIndex b) (buf_data b)"
    using ok le by (auto simp: buf_ok_def min_absorb2)
  moreover have "writerIndex b - ?r = length data + (writerIndex b - readerIndex b)"
    using ok le by (auto simp: buf_ok_def)
  ultimately show ?thesis
    using ok le by (auto simp: b' content_def buf_ok_def)
qed

lemma prepend_total:
  assumes "buf_ok b" "length data \<le> readerIndex b"
  shows "\<exists>b'. prepend b data (length data) = Inr b'"
proof -
  have "sz_sub (readerIndex b) (length data) = readerIndex b - length data"
    using assms by (intro sz_sub_le) (auto simp: buf_ok_def buf_const)
  with assms show ?thesis
    by (auto simp: prepend_def prependableBytes_def copy_to_def buf_ok_def assertE_def Let_def)
qed

section \<open>How far a buffer is filled\<close>

lemma sz_add_le: "sz_add a b \<le> a + b"
  by (simp add: sz_add_def)

lemma makeSpace_writer:
  assumes "buf_ok b" "makeSpace b n = Inr b'"
  shows "writerIndex b' \<le> writerIndex b"
proof -
  have "readableBytes b = writerIndex b - readerIndex b" "readerIndex b \<le> writerIndex b"
    using assms(1) by (simp_all add: readable_ok buf_ok_def)
  then show ?thesis
    using assms(2) sz_add_le [of 8 "readableBytes b"]
    by (auto simp: makeSpace_def Let_def buf_const split: if_splits)
qed

lemma append_writer:
  assumes "buf_ok b" "append b data n = Inr b'"
  shows "writerIndex b' \<le> writerIndex b + n"
proof -
  obtain b1 d where e: "ensureWritableBytes b n = Inr b1" and h: "hasWritten (b1\<lparr>buf_data := d\<rparr>) n = Inr b'"
    using assms(2) by (auto simp: append_def split: if_splits)
  have "writerIndex b1 \<le> writerIndex b"
    using e makeSpace_writer [OF assms(1)] by (auto simp: ensureWritableBytes_def split: if_splits)
  moreover have "writerIndex b' \<le> writerIndex b1 + n"
    using h sz_add_le [of "writerIndex b1" n] by (auto simp: hasWritten_def)
  ultimately show ?thesis by simp
qed

text \<open>An emptied buffer starts behind the bytes kept for prepending.\<close>

definition fill :: "buffer \<Rightarrow> nat" where
  "fill b = max kCheapPrepend (writerIndex b)"

lemma append_fill: "buf_ok b \<Longrightarrow> append b data n = Inr b' \<Longrightarrow> fill b' \<le> fill b + n"
  using append_writer [of b data n b'] by (auto simp: fill_def)

lemma retrieve_fill:
  assumes "buf_ok b" "retrieve b n = Inr b'"
  shows "fill b' \<le> fill b"
  using assms by (auto simp: retrieve_cases retrieveAll_def fill_def split: if_splits)

section \<open>The byte queue interface\<close>

text \<open>
  What the connection relies on: bytes put at the back come out at the front, in order; a put succeeds
  while the queue has not used up its space, a get exactly when it asks for no more than is there.
  \<open>run_queue\<close> performs a list of operations and collects what the reads return.
\<close>

datatype queue_op = Put "char list" | Get nat

fun run_queue ::
  "('q \<Rightarrow> char list \<Rightarrow> 'q res) \<Rightarrow> ('q \<Rightarrow> nat \<Rightarrow> (char list \<times> 'q) res) \<Rightarrow> 'q \<Rightarrow>
   queue_op list \<Rightarrow> (char list \<times> 'q) res" where
  "run_queue put get q [] = Inr ([], q)"
| "run_queue put get q (Put d # ops) = bindE (put q d) (\<lambda>q'. run_queue put get q' ops)"
| "run_queue put get q (Get n # ops) =
     bindE (get q n) (\<lambda>(out, q'). bindE (run_queue put get q' ops) (\<lambda>(outs, q''). Inr (out @ outs, q'')))"

fun queue_puts :: "queue_op list \<Rightarrow> char list" where
  "queue_puts [] = []"
| "queue_puts (Put d # ops) = d @ queue_puts ops"
| "queue_puts (Get n # ops) = queue_puts ops"

text \<open>No read asks for more than is queued, starting from \<open>n\<close> bytes.\<close>

fun gets_covered :: "nat \<Rightarrow> queue_op list \<Rightarrow> bool" where
  "gets_covered n [] = True"
| "gets_covered n (Put d # ops) = gets_covered (n + length d) ops"
| "gets_covered n (Get m # ops) = (m \<le> n \<and> gets_covered (n - m) ops)"

locale byte_queue =
  fixes inv :: "'q \<Rightarrow> bool"
    and bytes :: "'q \<Rightarrow> char list"
    and used :: "'q \<Rightarrow> nat"
    and put :: "'q \<Rightarrow> char list \<Rightarrow> 'q res"
    and get :: "'q \<Rightarrow> nat \<Rightarrow> (char list \<times> 'q) res"
    and space :: nat
  assumes put_law: "inv q \<Longrightarrow> used q + length d \<le> space \<Longrightarrow>
      \<exists>q'. put q d = Inr q' \<and> inv q' \<and> bytes q' = bytes q @ d \<and> used q' \<le> used q + length d"
    and get_law: "inv q \<Longrightarrow> n \<le> length (bytes q) \<Longrightarrow>
      \<exists>q'. get q n = Inr (take n (bytes q), q') \<and> inv q' \<and> bytes q' = drop n (bytes q) \<and> used q' \<le> used q"
    and get_refused: "inv q \<Longrightarrow> length (bytes q) < n \<Longrightarrow> get q n = Inl AssertFailed"
begin

lemma run_covered:
  "inv q \<Longrightarrow> used q + length (queue_puts ops) \<le> space \<Longrightarrow> gets_covered (length (bytes q)) ops \<Longrightarrow>
   \<exists>outs q'. run_queue put get q ops = Inr (outs, q') \<and> inv q' \<and> outs @ bytes q' = bytes q @ queue_puts ops"
proof (induction ops arbitrary: q rule: queue_puts.induct)
  case (2 d ops)
  obtain q1 where q1: "put q d = Inr q1" "inv q1" "bytes q1 = bytes q @ d" "used q1 \<le> used q + length d"
    using put_law [OF 2(2), of d] 2(3) by auto
  have "used q1 + length (queue_puts ops) \<le> space" "gets_covered (length (bytes q1)) ops"
    using 2(3,4) q1(3,4) by simp_all
  with 2(1) [OF q1(2)] q1(1,3) show ?case by simp
next
  case (3 n ops)
  obtain q1 where q1: "get q n = Inr (take n (bytes q), q1)" "inv q1" "bytes q1 = drop n (bytes q)" "used q1 \<le> used q"
    using get_law [OF 3(2), of n] 3(4) by auto
  have "used q1 + length (queue_puts ops) \<le> space" "gets_covered (length (bytes q1)) ops"
    using 3(3,4) q1(3,4) by simp_all
  from 3(1) [OF q1(2) this] obtain outs q2 where r: "run_queue put get q1 ops = Inr (outs, q2)" "inv q2"
    "outs @ bytes q2 = bytes q1 @ queue_puts ops" by blast
  have "(take n (bytes q) @ outs) @ bytes q2 = bytes q @ queue_puts ops"
    using r(3) q1(3) by (metis append.assoc append_take_drop_id)
  with r(1,2) q1(1) show ?case by simp
qed simp

lemma run_refused:
  "inv q \<Longrightarrow> used q + length (queue_puts ops) \<le> space \<Longrightarrow> \<not> gets_covered (length (bytes q)) ops \<Longrightarrow>
   run_queue put get q ops = Inl AssertFailed"
proof (induction ops arbitrary: q rule: queue_puts.induct)
  case (2 d ops)
  obtain q1 where q1: "put q d = Inr q1" "inv q1" "bytes q1 = bytes q @ d" "used q1 \<le> used q + length d"
    using put_law [OF 2(2), of d] 2(3) by auto
  have "used q1 + length (queue_puts ops) \<le> space" "\<not> gets_covered (length (bytes q1)) ops"
    using 2(3,4) q1(3,4) by simp_all
  with 2(1) [OF q1(2)] q1(1) show ?case by simp
next
  case (3 n ops)
  show ?case
  proof (cases "n \<le> length (bytes q)")
    case True
    obtain q1 where q1: "get q n = Inr (take n (bytes q), q1)" "inv q1" "bytes q1 = drop n (bytes q)" "used q1 \<le> used q"
      using get_law [OF 3(2) True] by blast
    have "used q1 + length (queue_puts ops) \<le> space" "\<not> gets_covered (length (bytes q1)) ops"
      using 3(3,4) q1(3,4) True by simp_all
    with 3(1) [OF q1(2)] q1(1) show ?thesis by simp
  next
    case False
    with get_refused [OF 3(2)] show ?thesis by simp
  qed
qed simp

end

definition buf_put :: "buffer \<Rightarrow> char list \<Rightarrow> buffer res" where
  "buf_put b d = append b d (length d)"

interpretation bq: byte_queue buf_ok content fill buf_put retrieveAsString VEC_MAX
proof unfold_locales
  fix b and d :: "char list"
  assume b: "buf_ok b" and r: "fill b + length d \<le> VEC_MAX"
  then have "writerIndex b + length d \<le> VEC_MAX" by (simp add: fill_def)
  from append_total [OF b this] append_fill [OF b, of d "length d"]
  show "\<exists>b'. buf_put b d = Inr b' \<and> buf_ok b' \<and> content b' = content b @ d \<and> fill b' \<le> fill b + length d"
    by (auto simp: buf_put_def)
next
  fix b :: buffer and n
  assume b: "buf_ok b" and n: "n \<le> length (content b)"
  obtain b' where b': "retrieve b n = Inr b'" using retrieve_total [OF b n] by blast
  then have "retrieveAsString b n = Inr (take n (content b), b')"
    using b n by (simp add: retrieveAsString_cases length_content)
  with retrieve_content [OF b b'] retrieve_fill [OF b b']
  show "\<exists>b'. retrieveAsString b n = Inr (take n (content b), b') \<and> buf_ok b' \<and> content b' = drop n (content b) \<and>
          fill b' \<le> fill b"
    by simp
next
  fix b :: buffer and n
  assume "buf_ok b" "length (content b) < n"
  then show "retrieveAsString b n = Inl AssertFailed"
    by (simp add: retrieveAsString_cases length_content)
qed

section \<open>Integer codecs\<close>

lemma length_le_bytes [simp]: "length (le_bytes k n) = k"
  by (induction k arbitrary: n) auto

lemma le_value_bound: "le_value cs < 256 ^ length cs"
proof (induction cs)
  case (Cons c cs)
  have "ubyte c < 256" by (simp add: ubyte_def)
  with Cons show ?case by simp
qed simp

lemma le_value_le_bytes: "le_value (le_bytes k n) = n mod 256 ^ k"
proof (induction k arbitrary: n)
  case (Suc k)
  have "n mod (256 * 256 ^ k) = 256 * (n div 256 mod 256 ^ k) + n mod 256"
    by (rule mod_mult2_eq)
  with Suc show ?case by (simp add: ubyte_def)
qed simp

lemma le_bytes_le_value: "le_bytes (length cs) (le_value cs) = cs"
proof (induction cs)
  case (Cons c cs)
  have "ubyte c < 256" by (simp add: ubyte_def)
  moreover have "char_of (ubyte c + 256 * le_value cs) = c"
    by (metis char_of_char char_of_mod_256 mod_mult_self2 ubyte_def)
  ultimately show ?case using Cons by simp
qed simp

lemma le_bytes_bswap: "le_bytes k (bswap k n) = rev (le_bytes k n)"
  using le_bytes_le_value [of "rev (le_bytes k n)"] by (simp add: bswap_def)

lemma bswap_bswap: "bswap k (bswap k n) = n mod 256 ^ k"
  by (simp add: bswap_def [of k "bswap k n"] le_bytes_bswap le_value_le_bytes)

lemma bswap_bound: "bswap k n < 256 ^ k"
  using le_value_bound [of "rev (le_bytes k n)"] by (simp add: bswap_def)

lemma unat_hton64 [simp]: "unat (hton64 x) = bswap 8 (unat x)"
  using bswap_bound [of 8 "unat x"] by (simp add: hton64_def unat_of_nat)

lemma unat_hton32 [simp]: "unat (hton32 x) = bswap 4 (unat x)"
  using bswap_bound [of 4 "unat x"] by (simp add: hton32_def unat_of_nat)

lemma unat_hton16 [simp]: "unat (hton16 x) = bswap 2 (unat x)"
  using bswap_bound [of 2 "unat x"] by (simp add: hton16_def unat_of_nat)

lemma hton64_hton64 [simp]: "hton64 (hton64 x) = x"
  using unsigned_less [where 'a = nat, of x] by (intro word_unat_eq_iff [THEN iffD2]) (simp add: bswap_bswap)

lemma hton32_hton32 [simp]: "hton32 (hton32 x) = x"
  using unsigned_less [where 'a = nat, of x] by (intro word_unat_eq_iff [THEN iffD2]) (simp add: bswap_bswap)

lemma hton16_hton16 [simp]: "hton16 (hton16 x) = x"
  using unsigned_less [where 'a = nat, of x] by (intro word_unat_eq_iff [THEN iffD2]) (simp add: bswap_bswap)

lemma word_of_le_bytes:
  "word_of_nat (le_value (le_bytes 8 (unat (a :: 64 word)))) = a"
  "word_of_nat (le_value (le_bytes 4 (unat (b :: 32 word)))) = b"
  "word_of_nat (le_value (le_bytes 2 (unat (c :: 16 word)))) = c"
  "word_of_nat (le_value (le_bytes 1 (unat (d :: 8 word)))) = d"
  using unsigned_less [where 'a = nat, of a] unsigned_less [where 'a = nat, of b]
    unsigned_less [where 'a = nat, of c] unsigned_less [where 'a = nat, of d]
  by (simp_all only: le_value_le_bytes) (simp_all del: unsigned_less)

text \<open>Reading an integer: what \<open>readIntN\<close> returns is determined by the first bytes of the content.\<close>

lemma readInt64_content:
  assumes "buf_ok b" "content b = le_bytes 8 (unat (hton64 x)) @ rest"
  shows "\<exists>b'. readInt64 b = Inr (x, b') \<and> buf_ok b' \<and> content b' = rest"
proof -
  have r: "8 \<le> readableBytes b" "take 8 (content b) = le_bytes 8 (unat (hton64 x))"
    using assms by (simp_all flip: length_content)
  then have "peekInt64 b = Inr x"
    using assms(1) by (simp add: peekInt64_def peek_bytes_content word_of_le_bytes del: unat_hton64)
  moreover obtain b' where "retrieve b 8 = Inr b'"
    using retrieve_total [OF assms(1), of 8] r(1) by (auto simp: length_content assms(1))
  ultimately show ?thesis
    using retrieve_content [OF assms(1)] assms(2) by (auto simp: readInt64_def retrieveInt64_def)
qed

lemma readInt32_content:
  assumes "buf_ok b" "content b = le_bytes 4 (unat (hton32 x)) @ rest"
  shows "\<exists>b'. readInt32 b = Inr (x, b') \<and> buf_ok b' \<and> content b' = rest"
proof -
  have r: "4 \<le> readableBytes b" "take 4 (content b) = le_bytes 4 (unat (hton32 x))"
    using assms by (simp_all flip: length_content)
  then have "peekInt32 b = Inr x"
    using assms(1) by (simp add: peekInt32_def peek_bytes_content word_of_le_bytes del: unat_hton32)
  moreover obtain b' where "retrieve b 4 = Inr b'"
    using retrieve_total [OF assms(1), of 4] r(1) by (auto simp: length_content assms(1))
  ultimately show ?thesis
    using retrieve_content [OF assms(1)] assms(2) by (auto simp: readInt32_def retrieveInt32_def)
qed

lemma readInt16_content:
  assumes "buf_ok b" "content b = le_bytes 2 (unat (hton16 x)) @ rest"
  shows "\<exists>b'. readInt16 b = Inr (x, b') \<and> buf_ok b' \<and> content b' = rest"
proof -
  have r: "2 \<le> readableBytes b" "take 2 (content b) = le_bytes 2 (unat (hton16 x))"
    using assms by (simp_all flip: length_content)
  then have "peekInt16 b = Inr x"
    using assms(1) by (simp add: peekInt16_def peek_bytes_content word_of_le_bytes del: unat_hton16)
  moreover obtain b' where "retrieve b 2 = Inr b'"
    using retrieve_total [OF assms(1), of 2] r(1) by (auto simp: length_content assms(1))
  ultimately show ?thesis
    using retrieve_content [OF assms(1)] assms(2) by (auto simp: readInt16_def retrieveInt16_def)
qed

lemma readInt8_content:
  assumes "buf_ok b" "content b = le_bytes 1 (unat x) @ rest"
  shows "\<exists>b'. readInt8 b = Inr (x, b') \<and> buf_ok b' \<and> content b' = rest"
proof -
  have r: "1 \<le> readableBytes b" "take 1 (content b) = le_bytes 1 (unat x)"
    using assms by (simp_all flip: length_content)
  then have "peekInt8 b = Inr x"
    using assms(1)
    by (simp add: peekInt8_def peek_bytes_content word_of_le_bytes del: One_nat_def le_bytes.simps)
  moreover obtain b' where "retrieve b 1 = Inr b'"
    using retrieve_total [OF assms(1), of 1] r(1) by (auto simp: length_content assms(1))
  ultimately show ?thesis
    using retrieve_content [OF assms(1)] assms(2) by (auto simp: readInt8_def retrieveInt8_def)
qed

section \<open>Reading from a descriptor\<close>

definition readv_ok :: "(nat \<Rightarrow> int + char list) \<Rightarrow> bool" where
  "readv_ok readv \<longleftrightarrow> (\<forall>n bs. readv n = Inr bs \<longrightarrow> length bs \<le> n)"

lemma readv_okD: "readv_ok readv \<Longrightarrow> readv n = Inr bs \<Longrightarrow> length bs \<le> n"
  by (simp add: readv_ok_def)

lemma readFd_fits:
  assumes ok: "buf_ok b" and r: "readv (readFd_capacity b) = Inr bytes"
    and n: "length bytes \<le> writableBytes b"
  shows "\<exists>b'. readFd readv b = Inr (b', int (length bytes), None) \<and> buf_ok b' \<and>
              content b' = content b @ bytes"
proof -
  have s: "sz_add (writerIndex b) (length bytes) = writerIndex b + length bytes"
    using ok n by (intro sz_add_small) (auto simp: writable_ok buf_ok_def buf_const)
  show ?thesis
    using write_content [OF ok n] n by (simp add: readFd_def r s Let_def)
qed

lemma readFd_spill:
  assumes ok: "buf_ok b" and r: "readv (readFd_capacity b) = Inr bytes"
    and n: "writableBytes b < length bytes" and cap: "length bytes \<le> writableBytes b + EXTRABUF"
    and room: "length (buf_data b) + (length bytes - writableBytes b) \<le> VEC_MAX"
  shows "\<exists>b'. readFd readv b = Inr (b', int (length bytes), None) \<and> buf_ok b' \<and>
              content b' = content b @ bytes"
proof -
  let ?w = "writableBytes b"
  let ?src = "take ?w bytes"
  have l: "length ?src = ?w" using n by simp
  define d where "d = take (writerIndex b) (buf_data b) @ ?src @
      drop (writerIndex b + length ?src) (buf_data b)"
  define b1 where "b1 = b\<lparr>buf_data := d, writerIndex := writerIndex b + length ?src\<rparr>"
  have c: "copy_to (buf_data b) (writerIndex b) ?src = Inr d"
    and b1: "buf_ok b1" "content b1 = content b @ ?src"
    using write_content [OF ok, of ?src] l by (simp_all add: d_def b1_def Let_def)
  have ld: "length d = length (buf_data b)"
    using copy_to_length [OF c] .
  have w1: "writerIndex b + length ?src = length d"
  proof -
    have "length ?src = length (buf_data b) - writerIndex b"
      using l writable_ok [OF ok] by (rule trans)
    moreover have "writerIndex b \<le> length (buf_data b)" using ok by (simp add: buf_ok_def)
    ultimately show ?thesis unfolding ld by linarith
  qed
  have b1': "b\<lparr>buf_data := d, writerIndex := length d\<rparr> = b1"
    by (simp only: b1_def w1)
  have s: "sz_sub (length bytes) ?w = length (drop ?w bytes)"
  proof -
    have "?w \<le> VEC_MAX" using ok by (auto simp: writable_ok buf_ok_def)
    then show ?thesis using n room by (subst sz_sub_le) (auto simp: buf_const)
  qed
  have e: "take EXTRABUF (drop ?w bytes) = drop ?w bytes"
    using cap by simp
  obtain b2 where b2: "append b1 (drop ?w bytes) (length (drop ?w bytes)) = Inr b2"
    "buf_ok b2" "content b2 = content b1 @ drop ?w bytes"
    using append_total [OF b1(1), of "drop ?w bytes"] room w1 by (auto simp: b1_def ld l)
  have "readFd readv b = Inr (b2, int (length bytes), None)"
    using n b2(1) by (simp add: readFd_def r c Let_def b1' e s)
  with b2 b1(2) show ?thesis by (simp add: append_assoc)
qed

lemma readFd_content:
  assumes ok: "buf_ok b" and rv: "readv_ok readv" and r: "readv (readFd_capacity b) = Inr bytes"
    and room: "length (buf_data b) + EXTRABUF \<le> VEC_MAX"
  shows "\<exists>b'. readFd readv b = Inr (b', int (length bytes), None) \<and> buf_ok b' \<and>
              content b' = content b @ bytes"
proof (cases "length bytes \<le> writableBytes b")
  case True
  with ok r show ?thesis by (intro readFd_fits)
next
  case False
  have "length bytes \<le> writableBytes b + EXTRABUF"
    using readv_okD [OF rv r] by (auto simp: readFd_capacity_def split: if_splits)
  with False room ok r show ?thesis by (intro readFd_spill) auto
qed

lemma readFd_error:
  "readv (readFd_capacity b) = Inl err \<Longrightarrow> readFd readv b = Inr (b, -1, Some err)"
  by (simp add: readFd_def)

lemma readFd_capacity_bound:
  "writableBytes b < EXTRABUF \<Longrightarrow> readFd_capacity b \<le> 131071"
  by (simp add: readFd_capacity_def EXTRABUF_def)

text \<open>How large the vector can get.\<close>

lemma append_size:
  assumes "append b data n = Inr b'"
  shows "length (buf_data b') \<le> max (length (buf_data b)) (writerIndex b + n)"
proof -
  obtain b1 d where e: "ensureWritableBytes b n = Inr b1" and d: "copy_to (buf_data b1) (writerIndex b1) (take n data) = Inr d"
    and h: "hasWritten (b1\<lparr>buf_data := d\<rparr>) n = Inr b'"
    using assms by (auto simp: append_def split: if_splits)
  have "length (buf_data b') = length (buf_data b1)"
    using h copy_to_length [OF d] by (auto simp: hasWritten_def)
  moreover have "b1 = b \<or> makeSpace b n = Inr b1"
    using e by (auto simp: ensureWritableBytes_def split: if_splits)
  moreover have "length (buf_data b1) \<le> max (length (buf_data b)) (writerIndex b + n)"
    if "makeSpace b n = Inr b1"
    using that sz_add_le [of "writerIndex b" n]
    by (auto simp: makeSpace_def Let_def vec_resize_eq_Inr dest!: copy_to_length split: if_splits)
  ultimately show ?thesis by auto
qed

lemma readFd_size:
  assumes "buf_ok b" "readv_ok readv" "readFd readv b = Inr (b', n, e)"
  shows "length (buf_data b') \<le> length (buf_data b) + (if writableBytes b < EXTRABUF then EXTRABUF else 0)"
proof (cases "readv (readFd_capacity b)")
  case (Inl err)
  with assms(3) show ?thesis by (simp add: readFd_error)
next
  case (Inr bytes)
  have cap: "length bytes \<le> readFd_capacity b" using readv_okD [OF assms(2) Inr] .
  obtain d where d: "copy_to (buf_data b) (writerIndex b) (take (writableBytes b) bytes) = Inr d"
    using assms(3) Inr by (auto simp: readFd_def Let_def)
  note ld = copy_to_length [OF d]
  show ?thesis
  proof (cases "length bytes \<le> writableBytes b")
    case True
    with assms(3) Inr d ld show ?thesis by (auto simp: readFd_def Let_def)
  next
    case False
    let ?b1 = "b\<lparr>buf_data := d, writerIndex := length d\<rparr>" and ?k = "sz_sub (length bytes) (writableBytes b)"
    have a: "append ?b1 (take EXTRABUF (drop (writableBytes b) bytes)) ?k = Inr b'"
      using assms(3) Inr d False by (auto simp: readFd_def Let_def)
    have small: "writableBytes b < EXTRABUF" "length bytes \<le> writableBytes b + EXTRABUF"
      using cap False by (auto simp: readFd_capacity_def split: if_splits)
    then have "?k = length bytes - writableBytes b"
      using False by (intro sz_sub_le) (auto simp: EXTRABUF_def SIZE_MOD_def)
    with append_size [OF a] small ld show ?thesis by simp
  qed
qed

section \<open>Searching and shrinking\<close>

lemma crlf_two: "length kCRLF = 2"
  by (simp add: kCRLF_def)

lemma findCRLF_Some:
  assumes ok: "buf_ok b" and f: "findCRLF b = Some i"
  shows "readerIndex b \<le> i \<and> i + 2 \<le> writerIndex b \<and> take 2 (drop i (buf_data b)) = kCRLF"
proof -
  define k where "k = std_search (content b) kCRLF"
  have i: "i = readerIndex b + k" and ne: "readerIndex b + k \<noteq> writerIndex b"
    using f by (auto simp: findCRLF_def k_def Let_def split: if_splits)
  have len: "length (content b) = writerIndex b - readerIndex b"
    using ok by (simp add: length_content readable_ok)
  have "k \<le> length (content b)" unfolding k_def by (rule std_search_le)
  then have "k < length (content b)" using ne len ok by (auto simp: buf_ok_def)
  then have t: "take 2 (drop k (content b)) = kCRLF"
    using std_search_found [of "content b" kCRLF] crlf_two by (simp add: k_def)
  then have "2 \<le> length (drop k (content b))"
    using crlf_two by (metis length_take min.cobounded1)
  then have "k + 2 \<le> writerIndex b - readerIndex b" using len by simp
  moreover from this have "take 2 (drop k (content b)) = take 2 (drop i (buf_data b))"
    by (simp add: content_def i drop_take add.commute)
  ultimately show ?thesis using t ok by (auto simp: i buf_ok_def)
qed

lemma findCRLF_first:
  assumes ok: "buf_ok b" and j: "readerIndex b \<le> j" "j + 2 \<le> writerIndex b"
    and before: "findCRLF b = None \<or> (\<exists>i. findCRLF b = Some i \<and> j < i)"
  shows "take 2 (drop j (buf_data b)) \<noteq> kCRLF"
proof -
  define k where "k = j - readerIndex b"
  have "k < std_search (content b) kCRLF"
    using before j ok std_search_le [of "content b" kCRLF]
    by (auto simp: findCRLF_def k_def Let_def split: if_splits)
  then have "take 2 (drop k (content b)) \<noteq> kCRLF"
    using std_search_first [of k "content b" kCRLF] crlf_two by simp
  moreover have "take 2 (drop k (content b)) = take 2 (drop j (buf_data b))"
    using j by (simp add: content_def k_def drop_take)
  ultimately show ?thesis by simp
qed

lemma append_piece_content:
  assumes "buf_ok b" "sp_ok s" "append_piece b s = Inr b'"
  shows "buf_ok b' \<and> content b' = content b @ sp_text s"
proof -
  let ?n = "nat (sp_len s)"
  have n: "size_of_int (sp_len s) = ?n" "?n \<le> length (sp_ptr s)" "length (sp_text s) = ?n"
    "length (sp_text s) \<le> VEC_MAX"
    using assms(2) length_sp_text [OF assms(2)]
    by (auto simp: sp_ok_def size_of_int_nonneg VEC_MAX_def)
  then have "append b (sp_ptr s) ?n = append b (sp_text s) (length (sp_text s))"
    by (simp add: append_def sp_text_def)
  with append_InrD [OF assms(1) n(4)] assms(3) n(1) show ?thesis
    by (simp add: append_piece_def)
qed

lemma append_in_place:
  assumes "buf_ok b" "length data \<le> writableBytes b"
  shows "\<exists>b'. append b data (length data) = Inr b' \<and> buf_ok b' \<and> content b' = content b @ data"
  using assms by (intro append_total) (auto simp: writable_ok buf_ok_def)

lemma toStringPiece_text:
  assumes "buf_ok b" "readableBytes b < 2147483648"
  shows "size_of_int (sp_len (toStringPiece b)) = length (content b)"
    and "take (length (content b)) (sp_ptr (toStringPiece b)) = content b"
    and "length (content b) \<le> length (sp_ptr (toStringPiece b))"
  using assms
  by (auto simp: toStringPiece_def sp_of_ptr_def size_of_int_of_size length_content)
     (auto simp: content_def readable_ok buf_ok_def)

lemma shrink_content:
  assumes ok: "buf_ok b" and small: "readableBytes b < 2147483648"
    and res: "kCheapPrepend + readableBytes b + reserve \<le> VEC_MAX"
  shows "\<exists>b'. shrink b reserve = Inr b' \<and> buf_ok b' \<and> content b' = content b"
proof -
  obtain o0 where o0: "Buffer_ctor kInitialSize = Inr o0" "buf_ok o0" "content o0 = []"
    "writerIndex o0 = kCheapPrepend"
    using Buffer_ctor_default by (auto simp: Buffer_ctor_def Let_def)
  let ?n = "readableBytes b + reserve"
  have n: "sz_add (readableBytes b) reserve = ?n"
    using res by (intro sz_add_small) (simp add: buf_const)
  have "?n \<le> VEC_MAX" using res by simp
  from ensureWritable_content [OF o0(2) this] obtain o1 where
    o1: "ensureWritableBytes o0 ?n = Inr o1" "buf_ok o1" "content o1 = []" "?n \<le> writableBytes o1"
    using res o0(3,4) by (cases "ensureWritableBytes o0 ?n") (auto simp: add.assoc)
  have "length (content b) \<le> writableBytes o1"
    using o1(4) ok by (simp add: length_content)
  from append_in_place [OF o1(2) this] obtain o2 where
    o2: "append o1 (content b) (length (content b)) = Inr o2" "buf_ok o2" "content o2 = content b"
    using o1(3) by auto
  have "append_piece o1 (toStringPiece b) = Inr o2"
    using toStringPiece_text [OF ok small] o2(1) by (simp add: append_piece_def append_def)
  then have "shrink b reserve = Inr (fst (buf_swap b o2))"
    by (simp add: shrink_def o0(1) n o1(1))
  with o2 show ?thesis by (simp add: buf_swap_def buf_ok_def content_def)
qed

section \<open>Properties\<close>

text \<open>A small buffer for the witnesses: eight bytes of room after the prependable area.\<close>

definition small_buffer :: buffer where
  "small_buffer = \<lparr>buf_data = replicate 16 (CHR 0x00), readerIndex = 8, writerIndex = 8\<rparr>"

lemma small_buffer_ok: "buf_ok small_buffer"
  by (simp add: small_buffer_def buf_ok_def buf_const)

text \<open>C1. FIFO. Whatever appends and reads a \<open>Buffer\<close> performs, in any order, across every growth of the
  vector and every move to the front, while the vector has room: if no read asks for more than is queued
  the whole run returns, the buffer is well formed, and the bytes the reads returned followed by the bytes still
  readable are the bytes readable at the start followed by all bytes appended, in order; if some
  read does, its assert fails.\<close>

theorem buffer_fifo:
  assumes "buf_ok b" "fill b + length (queue_puts ops) \<le> VEC_MAX"
  shows "if gets_covered (length (content b)) ops
    then \<exists>outs b'. run_queue buf_put retrieveAsString b ops = Inr (outs, b') \<and> buf_ok b' \<and>
           outs @ content b' = content b @ queue_puts ops
    else run_queue buf_put retrieveAsString b ops = Inl AssertFailed"
  using bq.run_covered [OF assms] bq.run_refused [OF assms] by simp

theorem buffer_fifo_witness:
  "(\<exists>outs b'. run_queue buf_put retrieveAsString small_buffer [Put ''abcdefghij'', Get 9, Put ''k'', Get 2]
          = Inr (outs, b') \<and> outs @ content b' = ''abcdefghijk'') \<and>
   run_queue buf_put retrieveAsString small_buffer [Put ''ab'', Get 3] = Inl AssertFailed"
proof -
  have "content small_buffer = []" "fill small_buffer = 8"
    by (simp_all add: content_def small_buffer_def fill_def kCheapPrepend_def)
  then show ?thesis
    using buffer_fifo [OF small_buffer_ok, of "[Put ''abcdefghij'', Get 9, Put ''k'', Get 2]"]
      buffer_fifo [OF small_buffer_ok, of "[Put ''ab'', Get 3]"]
    by (simp add: VEC_MAX_def del: run_queue.simps) blast
qed

text \<open>C5. \<open>append\<close> on every branch: no assert of \<open>append\<close>, \<open>ensureWritableBytes\<close>,
  \<open>makeSpace\<close> or \<open>hasWritten\<close> fails and no byte is written outside of the vector; the call
  fails only by \<open>std::length_error\<close>, and then the vector would have outgrown its maximal
  size; otherwise the bytes are queued behind the readable ones.\<close>

theorem append_behaviour:
  assumes "buf_ok b" "length data \<le> VEC_MAX"
  shows "(case append b data (length data) of
            Inl e \<Rightarrow> e = LengthError \<and> VEC_MAX < writerIndex b + length data
          | Inr b' \<Rightarrow> buf_ok b' \<and> content b' = content b @ data)"
  using assms by (rule append_content)

theorem append_behaviour_witness:
  "\<exists>b'. append small_buffer ''abcdefghij'' (length ''abcdefghij'') = Inr b' \<and>
        content b' = ''abcdefghij''"
proof -
  have "length ''abcdefghij'' \<le> VEC_MAX" by (simp add: VEC_MAX_def)
  moreover have "content small_buffer = []" by (simp add: content_def small_buffer_def)
  moreover have "writerIndex small_buffer = 8" by (simp add: small_buffer_def)
  ultimately show ?thesis
    using append_behaviour [OF small_buffer_ok, of "''abcdefghij''"]
    by (cases "append small_buffer ''abcdefghij'' (length ''abcdefghij'')") (auto simp: VEC_MAX_def)
qed

text \<open>C16. \<open>readFd\<close>: when \<open>readv\<close> respects the capacity it was given, exactly the bytes it
  read are queued, whether they fit the writable area or spill into the stack array, and
  the call returns their number; when \<open>readv\<close> fails, the buffer is untouched and the error
  saved. A read that uses the stack array takes at most 128k-1 bytes.\<close>

theorem readFd_behaviour:
  assumes "buf_ok b" "readv_ok readv" "length (buf_data b) + EXTRABUF \<le> VEC_MAX"
  shows "(case readv (readFd_capacity b) of
            Inl err \<Rightarrow> readFd readv b = Inr (b, -1, Some err)
          | Inr bytes \<Rightarrow>
              (\<exists>b'. readFd readv b = Inr (b', int (length bytes), None) \<and> buf_ok b' \<and>
                    content b' = content b @ bytes) \<and>
              (writableBytes b < EXTRABUF \<longrightarrow> length bytes \<le> 131071))"
proof (cases "readv (readFd_capacity b)")
  case (Inl err)
  then show ?thesis by (simp add: readFd_error)
next
  case (Inr bytes)
  have "length bytes \<le> readFd_capacity b" using assms(2) Inr by (rule readv_okD)
  then have "writableBytes b < EXTRABUF \<longrightarrow> length bytes \<le> 131071"
    using readFd_capacity_bound [of b] by auto
  with readFd_content [OF assms(1,2) Inr assms(3)] Inr show ?thesis by simp
qed

definition readv_from :: "char list \<Rightarrow> nat \<Rightarrow> int + char list" where
  "readv_from src n = Inr (take n src)"

theorem readFd_behaviour_witness:
  "\<exists>b'. readFd (readv_from ''abcdefghij'') small_buffer = Inr (b', 10, None) \<and>
        content b' = ''abcdefghij''"
proof -
  have w: "writableBytes small_buffer = 8"
    by (simp add: writableBytes_def small_buffer_def sz_sub_def SIZE_MOD_def)
  have "readv_ok (readv_from ''abcdefghij'')"
    by (simp add: readv_ok_def readv_from_def)
  moreover have "length (buf_data small_buffer) + EXTRABUF \<le> VEC_MAX"
    by (simp add: small_buffer_def EXTRABUF_def VEC_MAX_def)
  moreover have "readv_from ''abcdefghij'' (readFd_capacity small_buffer) = Inr ''abcdefghij''"
    by (simp add: readv_from_def readFd_capacity_def w EXTRABUF_def)
  moreover have "content small_buffer = []" by (simp add: content_def small_buffer_def)
  ultimately show ?thesis
    using readFd_behaviour [OF small_buffer_ok, of "readv_from ''abcdefghij''"] by auto
qed

text \<open>The number that bytes in network order stand for, the most significant first.\<close>

definition be_value :: "char list \<Rightarrow> nat" where
  "be_value = foldl (\<lambda>n c. 256 * n + ubyte c) 0"

lemma be_value_rev: "be_value (rev bs) = le_value bs"
  by (induction bs) (simp_all add: be_value_def)

text \<open>\<open>net_bytes k n bs\<close>: \<open>bs\<close> is the number \<open>n\<close> in \<open>k\<close> bytes and network order.\<close>

definition net_bytes :: "nat \<Rightarrow> nat \<Rightarrow> char list \<Rightarrow> bool" where
  "net_bytes k n bs \<longleftrightarrow> length bs = k \<and> be_value bs = n"

lemma net_bytes_hton:
  "net_bytes 8 (unat w) (le_bytes 8 (unat (hton64 w)))"
  "net_bytes 4 (unat x) (le_bytes 4 (unat (hton32 x)))"
  "net_bytes 2 (unat y) (le_bytes 2 (unat (hton16 y)))"
  "net_bytes 1 (unat (z :: 8 word)) (le_bytes 1 (unat z))"
proof -
  have a: "unat w mod 256 ^ 8 = unat w" "unat x mod 256 ^ 4 = unat x" "unat y mod 256 ^ 2 = unat y"
    "unat z mod 256 ^ 1 = unat z"
    using unsigned_less [where 'a = nat, of w] unsigned_less [where 'a = nat, of x]
      unsigned_less [where 'a = nat, of y] unsigned_less [where 'a = nat, of z] by simp_all
  have b: "be_value (le_bytes 1 n) = le_value (le_bytes 1 n)" for n by (simp add: be_value_def)
  show "net_bytes 8 (unat w) (le_bytes 8 (unat (hton64 w)))"
    "net_bytes 4 (unat x) (le_bytes 4 (unat (hton32 x)))"
    "net_bytes 2 (unat y) (le_bytes 2 (unat (hton16 y)))"
    unfolding net_bytes_def unat_hton64 unat_hton32 unat_hton16 le_bytes_bswap be_value_rev le_value_le_bytes a
    by simp_all
  show "net_bytes 1 (unat z) (le_bytes 1 (unat z))"
    unfolding net_bytes_def b le_value_le_bytes a by simp
qed

lemma append_bytes:
  assumes "buf_ok b" "length d = k" "fill b + k \<le> VEC_MAX"
  obtains b' where "append b d k = Inr b'" "buf_ok b'" "content b' = content b @ d" "fill b' \<le> fill b + k"
  using bq.put_law [OF assms(1), of d] assms(2,3) by (auto simp: buf_put_def)

text \<open>C17. Integers in network order: into any buffer that can still take 15 bytes, \<open>appendInt64\<close>,
  \<open>appendInt32\<close>, \<open>appendInt16\<close> and \<open>appendInt8\<close> write without failing, and what they put behind the old content
  is the four numbers in 8, 4, 2 and 1 bytes, the most significant byte first. From a buffer with these bytes in front
  the matching reads return the four values in the same order, and leave exactly what stands behind them.\<close>

theorem int_roundtrip:
  assumes "buf_ok b" "fill b + 15 \<le> VEC_MAX"
  shows "\<exists>b1 b2 b3 b4 p q r s. appendInt64 b w = Inr b1 \<and> appendInt32 b1 x = Inr b2 \<and>
     appendInt16 b2 y = Inr b3 \<and> appendInt8 b3 z = Inr b4 \<and> content b4 = content b @ p @ q @ r @ s \<and>
     net_bytes 8 (unat w) p \<and> net_bytes 4 (unat x) q \<and> net_bytes 2 (unat y) r \<and> net_bytes 1 (unat z) s \<and>
     (\<forall>c rest. buf_ok c \<and> content c = p @ q @ r @ s @ rest \<longrightarrow>
        (\<exists>c1 c2 c3 c4. readInt64 c = Inr (w, c1) \<and> readInt32 c1 = Inr (x, c2) \<and>
           readInt16 c2 = Inr (y, c3) \<and> readInt8 c3 = Inr (z, c4) \<and> content c4 = rest))"
proof -
  let ?p = "le_bytes 8 (unat (hton64 w))" let ?q = "le_bytes 4 (unat (hton32 x))"
  let ?r = "le_bytes 2 (unat (hton16 y))" let ?s = "le_bytes 1 (unat z)"
  have l: "length ?p = 8" "length ?q = 4" "length ?r = 2" "length ?s = 1"
    using net_bytes_hton(1) [of w] net_bytes_hton(2) [of x] net_bytes_hton(3) [of y] net_bytes_hton(4) [of z]
    unfolding net_bytes_def by blast+
  obtain b1 where b1: "appendInt64 b w = Inr b1" "buf_ok b1" "content b1 = content b @ ?p" "fill b1 \<le> fill b + 8"
    using append_bytes [OF assms(1) l(1)] assms(2) unfolding appendInt64_def by force
  obtain b2 where b2: "appendInt32 b1 x = Inr b2" "buf_ok b2" "content b2 = content b1 @ ?q" "fill b2 \<le> fill b1 + 4"
    using append_bytes [OF b1(2) l(2)] assms(2) b1(4) unfolding appendInt32_def by force
  obtain b3 where b3: "appendInt16 b2 y = Inr b3" "buf_ok b3" "content b3 = content b2 @ ?r" "fill b3 \<le> fill b2 + 2"
    using append_bytes [OF b2(2) l(3)] assms(2) b1(4) b2(4) unfolding appendInt16_def by force
  obtain b4 where b4: "appendInt8 b3 z = Inr b4" "content b4 = content b3 @ ?s"
    using append_bytes [OF b3(2) l(4)] assms(2) b1(4) b2(4) b3(4) unfolding appendInt8_def by force
  have "\<exists>c1 c2 c3 c4. readInt64 c = Inr (w, c1) \<and> readInt32 c1 = Inr (x, c2) \<and>
      readInt16 c2 = Inr (y, c3) \<and> readInt8 c3 = Inr (z, c4) \<and> content c4 = rest"
    if c: "buf_ok c \<and> content c = ?p @ ?q @ ?r @ ?s @ rest" for c rest
  proof -
    obtain c1 where c1: "readInt64 c = Inr (w, c1)" "buf_ok c1" "content c1 = ?q @ ?r @ ?s @ rest"
      using readInt64_content [of c w] c by blast
    obtain c2 where c2: "readInt32 c1 = Inr (x, c2)" "buf_ok c2" "content c2 = ?r @ ?s @ rest"
      using readInt32_content [OF c1(2,3)] by blast
    obtain c3 where c3: "readInt16 c2 = Inr (y, c3)" "buf_ok c3" "content c3 = ?s @ rest"
      using readInt16_content [OF c2(2,3)] by blast
    from readInt8_content [OF c3(2,3)] c1(1) c2(1) c3(1) show ?thesis by blast
  qed
  moreover have "content b4 = content b @ ?p @ ?q @ ?r @ ?s" unfolding b4(2) b3(3) b2(3) b1(3) by (simp only: append.assoc)
  ultimately show ?thesis using b1(1) b2(1) b3(1) b4(1) net_bytes_hton by blast
qed

text \<open>Four numbers behind a byte that is already there; the bytes of the second one are all \<open>FF\<close>.\<close>

theorem int_roundtrip_witness:
  "\<exists>b0 b1 b2 b3 b4 p q r s. append small_buffer ''!'' 1 = Inr b0 \<and> appendInt64 b0 72623859790382856 = Inr b1 \<and>
     appendInt32 b1 4294967295 = Inr b2 \<and> appendInt16 b2 258 = Inr b3 \<and> appendInt8 b3 255 = Inr b4 \<and>
     content b4 = ''!'' @ p @ q @ r @ s \<and> net_bytes 8 72623859790382856 p \<and> net_bytes 4 4294967295 q \<and>
     net_bytes 2 258 r \<and> net_bytes 1 255 s"
proof -
  have e: "content small_buffer = []" "fill small_buffer + 16 \<le> VEC_MAX"
    by (simp_all add: content_def small_buffer_def fill_def buf_const)
  have one: "length ''!'' = 1" "fill small_buffer + 1 \<le> VEC_MAX" using e(2) by simp_all
  obtain b0 where b0: "append small_buffer ''!'' 1 = Inr b0" "buf_ok b0" "content b0 = content small_buffer @ ''!''"
    "fill b0 \<le> fill small_buffer + 1" by (rule append_bytes [OF small_buffer_ok one])
  have room: "fill b0 + 15 \<le> VEC_MAX" using b0(4) e(2) by linarith
  have "unat (72623859790382856 :: 64 word) = 72623859790382856" "unat (4294967295 :: 32 word) = 4294967295"
    "unat (258 :: 16 word) = 258" "unat (255 :: 8 word) = 255" by simp_all
  note u = this
  from int_roundtrip [OF b0(2) room, of 72623859790382856 4294967295 258 255, unfolded u b0(3) e(1) append_Nil] b0(1)
  show ?thesis by blast
qed

text \<open>Framing: an integer prepended in front of the queued bytes is read back first, and
  leaves exactly those bytes; the prepend succeeds whenever its bytes fit in front of
  \<open>readerIndex_\<close>, as they do in a fresh or drained buffer.\<close>

theorem prepend_frame:
  assumes "buf_ok b" "4 \<le> readerIndex b"
  shows "\<exists>b1 b2. prependInt32 b x = Inr b1 \<and> readInt32 b1 = Inr (x, b2) \<and> content b2 = content b"
proof -
  let ?d = "le_bytes 4 (unat (hton32 x))"
  obtain b1 where b1: "prepend b ?d (length ?d) = Inr b1"
    using prepend_total [OF assms(1), of ?d] assms(2) by auto
  then have "buf_ok b1" "content b1 = ?d @ content b"
    using prepend_content [OF assms(1) b1] by simp_all
  from readInt32_content [OF this] b1 show ?thesis
    by (auto simp: prependInt32_def)
qed

theorem prepend_frame_witness:
  "\<exists>b1 b2. prependInt32 small_buffer 7 = Inr b1 \<and> readInt32 b1 = Inr (7, b2) \<and>
           content b2 = content small_buffer"
  by (rule prepend_frame [OF small_buffer_ok]) (simp add: small_buffer_def)

text \<open>\<open>findCRLF\<close> returns the position of the first CRLF among the readable bytes, and null
  exactly when there is none.\<close>

theorem findCRLF_correct:
  assumes "buf_ok b"
  shows "(case findCRLF b of
            Some i \<Rightarrow> readerIndex b \<le> i \<and> i + 2 \<le> writerIndex b \<and>
                      take 2 (drop i (buf_data b)) = [CHR 0x0D, CHR 0x0A] \<and>
                      (\<forall>j. readerIndex b \<le> j \<and> j < i \<longrightarrow>
                           take 2 (drop j (buf_data b)) \<noteq> [CHR 0x0D, CHR 0x0A])
          | None \<Rightarrow> \<forall>j. readerIndex b \<le> j \<and> j + 2 \<le> writerIndex b \<longrightarrow>
                       take 2 (drop j (buf_data b)) \<noteq> [CHR 0x0D, CHR 0x0A])"
proof (cases "findCRLF b")
  case None
  then show ?thesis using findCRLF_first [OF assms] by (simp add: kCRLF_def)
next
  case (Some i)
  have i: "readerIndex b \<le> i \<and> i + 2 \<le> writerIndex b \<and> take 2 (drop i (buf_data b)) = kCRLF"
    using assms Some by (rule findCRLF_Some)
  then have "take 2 (drop j (buf_data b)) \<noteq> kCRLF" if "readerIndex b \<le> j \<and> j < i" for j
    using that findCRLF_first [OF assms, of j] Some by simp
  with i Some show ?thesis by (simp add: kCRLF_def)
qed

theorem findCRLF_correct_witness:
  "\<exists>b. content b = [CHR ''G'', CHR 0x0D, CHR 0x0A] \<and> findCRLF b = Some 9 \<and>
       take 2 (drop 9 (buf_data b)) = [CHR 0x0D, CHR 0x0A]"
proof -
  let ?b = "\<lparr>buf_data = replicate 8 (CHR 0x00) @ [CHR ''G'', CHR 0x0D, CHR 0x0A],
            readerIndex = 8, writerIndex = 11\<rparr>"
  have "buf_ok ?b" by (simp add: buf_ok_def buf_const)
  moreover have "findCRLF ?b = Some 9" by code_simp
  moreover have "content ?b = [CHR ''G'', CHR 0x0D, CHR 0x0A]" by code_simp
  ultimately show ?thesis using findCRLF_correct [of ?b] by auto
qed

text \<open>\<open>shrink\<close> succeeds and keeps the readable bytes as long as they number less than
  \<open>2^31\<close>, the range of the \<open>int\<close> length of the \<open>StringPiece\<close> it copies them through, and the
  new vector does not outgrow its maximal size.\<close>

theorem shrink_keeps_content:
  assumes "buf_ok b" "readableBytes b < 2147483648"
    and "kCheapPrepend + readableBytes b + reserve \<le> VEC_MAX"
  shows "\<exists>b'. shrink b reserve = Inr b' \<and> buf_ok b' \<and> content b' = content b"
  using assms by (rule shrink_content)

theorem shrink_keeps_content_witness:
  "\<exists>b1 b2. buf_put small_buffer ''xyz'' = Inr b1 \<and> shrink b1 5 = Inr b2 \<and> content b2 = ''xyz''"
proof -
  let ?b = "\<lparr>buf_data = replicate 8 (CHR 0x00) @ ''xyz'' @ replicate 5 (CHR 0x00),
            readerIndex = 8, writerIndex = 11\<rparr>"
  have p: "buf_put small_buffer ''xyz'' = Inr ?b" by code_simp
  have ok: "buf_ok ?b" by (simp add: buf_ok_def buf_const)
  have c: "content ?b = ''xyz''" by code_simp
  then have r: "readableBytes ?b = 3" using length_content [OF ok] by simp
  from shrink_keeps_content [OF ok, of 5] r c p show ?thesis
    by (auto simp: kCheapPrepend_def VEC_MAX_def)
qed

section \<open>Well-formedness\<close>

text \<open>The calls that change a buffer, with lengths an object can have.\<close>

datatype buffer_call =
    CallAppend "char list"
  | CallPrepend "char list"
  | CallEnsure nat
  | CallWritten nat
  | CallUnwrite nat
  | CallRetrieve nat
  | CallRetrieveAll

fun call_bounded :: "buffer_call \<Rightarrow> bool" where
  "call_bounded (CallAppend d) = (length d \<le> VEC_MAX)"
| "call_bounded (CallEnsure n) = (n \<le> VEC_MAX)"
| "call_bounded _ = True"

fun buffer_do :: "buffer_call \<Rightarrow> buffer \<Rightarrow> buffer res" where
  "buffer_do (CallAppend d) b = append b d (length d)"
| "buffer_do (CallPrepend d) b = prepend b d (length d)"
| "buffer_do (CallEnsure n) b = ensureWritableBytes b n"
| "buffer_do (CallWritten n) b = hasWritten b n"
| "buffer_do (CallUnwrite n) b = unwrite b n"
| "buffer_do (CallRetrieve n) b = retrieve b n"
| "buffer_do CallRetrieveAll b = Inr (retrieveAll b)"

fun buffer_run :: "buffer_call list \<Rightarrow> buffer \<Rightarrow> buffer res" where
  "buffer_run [] b = Inr b"
| "buffer_run (c # cs) b = bindE (buffer_do c b) (buffer_run cs)"

lemma buffer_do_ok:
  assumes "buf_ok b" "call_bounded c"
  shows "case buffer_do c b of Inl e \<Rightarrow> e \<in> {AssertFailed, LengthError} | Inr b' \<Rightarrow> buf_ok b'"
proof (cases c)
  case (CallAppend d)
  then show ?thesis using append_content [OF assms(1), of d] assms(2)
    by (cases "append b d (length d)") auto
next
  case (CallPrepend d)
  show ?thesis
  proof (cases "length d \<le> readerIndex b")
    case True
    then obtain b' where "prepend b d (length d) = Inr b'" using prepend_total [OF assms(1)] by blast
    with prepend_content [OF assms(1) this] CallPrepend show ?thesis by simp
  next
    case False
    then show ?thesis using CallPrepend by (simp add: prepend_def prependableBytes_def)
  qed
next
  case (CallEnsure n)
  then show ?thesis using ensureWritable_content [OF assms(1), of n] assms(2)
    by (cases "ensureWritableBytes b n") auto
next
  case (CallWritten n)
  then show ?thesis using hasWritten_ok [OF assms(1), of n]
    by (cases "hasWritten b n") (auto simp: hasWritten_def bindE_eq_Inl)
next
  case (CallUnwrite n)
  then show ?thesis using unwrite_content [OF assms(1), of n]
    by (cases "unwrite b n") (auto simp: unwrite_def bindE_eq_Inl)
next
  case (CallRetrieve n)
  then show ?thesis using retrieve_content [OF assms(1), of n] retrieve_cases [OF assms(1), of n]
    by (cases "retrieve b n") (auto split: if_splits)
next
  case CallRetrieveAll
  then show ?thesis using retrieveAll_ok [OF assms(1)] by simp
qed

lemma buffer_run_ok:
  "buf_ok b \<Longrightarrow> \<forall>c\<in>set cs. call_bounded c \<Longrightarrow>
     case buffer_run cs b of Inl e \<Rightarrow> e \<in> {AssertFailed, LengthError} | Inr b' \<Rightarrow> buf_ok b'"
proof (induction cs arbitrary: b)
  case (Cons c cs)
  then show ?case using buffer_do_ok [OF Cons.prems(1), of c]
    by (cases "buffer_do c b") auto
qed simp

text \<open>
  C6. Whatever sequence of calls a buffer gets, its indices stay in order and inside its
  vector; a call that does not return fails an assert or throws \<open>length_error\<close>, and none
  ever reads or writes outside of the vector.
\<close>

theorem buffer_well_formed:
  assumes "buf_ok b" "\<forall>c\<in>set cs. call_bounded c"
  shows "case buffer_run cs b of
      Inl e \<Rightarrow> e \<in> {AssertFailed, LengthError}
    | Inr b' \<Rightarrow> kCheapPrepend \<le> length (buf_data b') \<and> readerIndex b' \<le> writerIndex b' \<and>
        writerIndex b' \<le> length (buf_data b') \<and> length (buf_data b') \<le> VEC_MAX"
  using buffer_run_ok [OF assms] by (simp add: buf_ok_def split: sum.splits)

theorem buffer_well_formed_witness:
  "buffer_run [CallAppend ''ab'', CallRetrieve 1, CallUnwrite 5] small_buffer = Inl AssertFailed \<and>
   (\<exists>b. buffer_run [CallAppend ''abc'', CallRetrieve 1, CallPrepend ''x''] small_buffer = Inr b \<and>
      readerIndex b \<le> writerIndex b)"
proof -
  have r: "buffer_run [CallAppend ''ab'', CallRetrieve 1, CallUnwrite 5] small_buffer = Inl AssertFailed"
    by code_simp
  have "case buffer_run [CallAppend ''abc'', CallRetrieve 1, CallPrepend ''x''] small_buffer of Inl _ \<Rightarrow> False | Inr _ \<Rightarrow> True"
    by code_simp
  then obtain b where b: "buffer_run [CallAppend ''abc'', CallRetrieve 1, CallPrepend ''x''] small_buffer = Inr b"
    by (auto split: sum.splits)
  have "\<forall>c\<in>set [CallAppend ''abc'', CallRetrieve 1, CallPrepend ''x'']. call_bounded c"
    by (simp add: VEC_MAX_def)
  from buffer_well_formed [OF small_buffer_ok this, unfolded b] have "readerIndex b \<le> writerIndex b" by simp
  with r b show ?thesis by blast
qed

end
