(* ===== verification/TcpConn.thy ===== *)
theory TcpConn
  imports EventLoop NetBuffer
begin

text \<open>
  \<open>TcpConnection\<close> (src/net/tcp_connection.h, src/net/tcp_connection.cpp). Connections are objects
  shared by pointer: the world is the record of the event loop extended by the store
  \<open>w_conns\<close> of connections, by what the kernel accepted for each socket (\<open>w_wire\<close>), by whether
  its write side was shut down (\<open>w_shut\<close>), and by a count of the calls of \<open>write\<close> and
  \<open>readv\<close> so far, which indexes their results. A user callback is a number; the argument
  \<open>ce_call\<close> of the environment says what calling it does to the world, synchronously, as
  \<open>runInLoop\<close> does on the loop thread.
\<close>

section \<open>State\<close>

datatype conn_state = kDisconnected | kConnecting | kConnected | kDisconnecting

type_synonym conn_ptr = nat

datatype cb_call =
    ConnectionCb nat
  | MessageCb nat
  | WriteCompleteCb nat
  | HighWaterCb nat nat
  | CloseCb nat

datatype handler =
    ConnRead conn_ptr
  | ConnWrite conn_ptr
  | AcceptConn
  | OtherHandler nat

datatype conn_fn =
    SendInLoopFn conn_ptr "char list"
  | ShutdownInLoopFn conn_ptr
  | CallbackFn cb_call conn_ptr
  | ListenFn
  | OtherFn nat

record tcp_conn =
  tc_name :: "char list"
  tc_sockfd :: int
  tc_peer :: "char list"
  tc_channel :: chan_ptr
  tc_highWaterMark :: nat
  tc_state :: conn_state
  tc_connectionCallback :: "nat option"
  tc_messageCallback :: "nat option"
  tc_writeCompleteCallback :: "nat option"
  tc_highWaterMarkCallback :: "nat option"
  tc_closeCallback :: "nat option"
  tc_inputBuffer :: buffer
  tc_outputBuffer :: buffer

record 'p world = "(conn_fn, 'p, handler) event_loop" +
  w_conns :: "conn_ptr \<Rightarrow> tcp_conn"
  w_wire :: "conn_ptr \<Rightarrow> char list"
  w_shut :: "conn_ptr \<Rightarrow> bool"
  w_calls :: nat

text \<open>The results of \<open>write(2)\<close>, with the values of \<open>errno\<close> the code distinguishes.\<close>

datatype write_errno = EWOULDBLOCK | EPIPE | ECONNRESET | OtherErrno

datatype write_result = Wrote nat | WriteErr write_errno

record ('p, 'w) conn_env =
  ce_loop :: "('p, handler, conn_fn) loop_env"
  ce_tid :: nat
  ce_write :: "nat \<Rightarrow> nat \<Rightarrow> write_result"
  ce_readv :: "nat \<Rightarrow> nat \<Rightarrow> int + char list"
  ce_call :: "cb_call \<Rightarrow> conn_ptr \<Rightarrow> 'w \<Rightarrow> 'w res"

section \<open>Operations\<close>

definition upd_conn ::
  "conn_ptr \<Rightarrow> (tcp_conn \<Rightarrow> tcp_conn) \<Rightarrow> ('p, 'z) world_scheme \<Rightarrow> ('p, 'z) world_scheme" where
  "upd_conn c f W = W\<lparr>w_conns := (w_conns W)(c := f (w_conns W c))\<rparr>"

definition conn_chan :: "conn_ptr \<Rightarrow> ('p, 'z) world_scheme \<Rightarrow> handler channel" where
  "conn_chan c W = el_heap W (tc_channel (w_conns W c))"

definition set_conn_event ::
  "conn_ptr \<Rightarrow> 32 word \<Rightarrow> ('p, 'z) world_scheme \<Rightarrow> ('p, 'z) world_scheme" where
  "set_conn_event c e W =
     W\<lparr>el_heap := on_chan (tc_channel (w_conns W c)) (setEvent e) (el_heap W)\<rparr>"

definition setState :: "conn_state \<Rightarrow> conn_ptr \<Rightarrow> ('p, 'z) world_scheme \<Rightarrow> ('p, 'z) world_scheme" where
  "setState s c = upd_conn c (\<lambda>k. k\<lparr>tc_state := s\<rparr>)"

definition connected :: "conn_ptr \<Rightarrow> ('p, 'z) world_scheme \<Rightarrow> bool" where
  "connected c W \<longleftrightarrow> tc_state (w_conns W c) = kConnected"

definition disconnected :: "conn_ptr \<Rightarrow> ('p, 'z) world_scheme \<Rightarrow> bool" where
  "disconnected c W \<longleftrightarrow> tc_state (w_conns W c) = kDisconnected"

definition stateToString :: "conn_state \<Rightarrow> char list" where
  "stateToString s =
     (case s of kDisconnected \<Rightarrow> ''kDisconnected'' | kConnecting \<Rightarrow> ''kConnecting''
      | kConnected \<Rightarrow> ''kConnected'' | kDisconnecting \<Rightarrow> ''kDisconnecting'')"

definition setConnectionCallback :: "nat option \<Rightarrow> conn_ptr \<Rightarrow> ('p, 'z) world_scheme \<Rightarrow> ('p, 'z) world_scheme" where
  "setConnectionCallback f c = upd_conn c (\<lambda>k. k\<lparr>tc_connectionCallback := f\<rparr>)"

definition setMessageCallback :: "nat option \<Rightarrow> conn_ptr \<Rightarrow> ('p, 'z) world_scheme \<Rightarrow> ('p, 'z) world_scheme" where
  "setMessageCallback f c = upd_conn c (\<lambda>k. k\<lparr>tc_messageCallback := f\<rparr>)"

definition setWriteCompleteCallback :: "nat option \<Rightarrow> conn_ptr \<Rightarrow> ('p, 'z) world_scheme \<Rightarrow> ('p, 'z) world_scheme" where
  "setWriteCompleteCallback f c = upd_conn c (\<lambda>k. k\<lparr>tc_writeCompleteCallback := f\<rparr>)"

definition setHighWaterMarkCallback :: "nat option \<Rightarrow> conn_ptr \<Rightarrow> ('p, 'z) world_scheme \<Rightarrow> ('p, 'z) world_scheme" where
  "setHighWaterMarkCallback f c = upd_conn c (\<lambda>k. k\<lparr>tc_highWaterMarkCallback := f\<rparr>)"

definition setCloseCallback :: "nat option \<Rightarrow> conn_ptr \<Rightarrow> ('p, 'z) world_scheme \<Rightarrow> ('p, 'z) world_scheme" where
  "setCloseCallback f c = upd_conn c (\<lambda>k. k\<lparr>tc_closeCallback := f\<rparr>)"

text \<open>The constructor at address \<open>c\<close>: it allocates the channel and binds its two handlers.\<close>

definition TcpConnection_ctor ::
  "32 word \<Rightarrow> char list \<Rightarrow> int \<Rightarrow> char list \<Rightarrow> conn_ptr \<Rightarrow> ('p, 'z) world_scheme \<Rightarrow>
   ('p, 'z) world_scheme res" where
  "TcpConnection_ctor junk name sockfd peer c W =
     bindE (Buffer_ctor kInitialSize) (\<lambda>inp.
     bindE (Buffer_ctor kInitialSize) (\<lambda>outp.
     let ch = el_next_ptr W;
         chan = setWriteHandler (ConnWrite c) (setReadHandler (ConnRead c)
                  (Channel_ctor junk sockfd False))
     in Inr (W\<lparr>el_heap := (el_heap W)(ch := chan), el_next_ptr := Suc ch,
               w_conns := (w_conns W)(c :=
                 \<lparr>tc_name = name, tc_sockfd = sockfd, tc_peer = peer, tc_channel = ch,
                  tc_highWaterMark = 64 * 1024 * 1024, tc_state = kConnecting,
                  tc_connectionCallback = None, tc_messageCallback = None,
                  tc_writeCompleteCallback = None, tc_highWaterMarkCallback = None,
                  tc_closeCallback = None, tc_inputBuffer = inp, tc_outputBuffer = outp\<rparr>),
               w_wire := (w_wire W)(c := []), w_shut := (w_shut W)(c := False)\<rparr>)))"

definition TcpConnection_dtor :: "conn_ptr \<Rightarrow> ('p, 'z) world_scheme \<Rightarrow> ('p, 'z) world_scheme res" where
  "TcpConnection_dtor c W =
     bindE (assertE (tc_state (w_conns W c) = kDisconnected)) (\<lambda>_. Inr W)"

text \<open>\<open>loop_->runInLoop(std::bind(cb, shared_from_this(), ..))\<close>.\<close>

definition run_callback ::
  "('p, ('p, 'z) world_scheme) conn_env \<Rightarrow> cb_call \<Rightarrow> conn_ptr \<Rightarrow> ('p, 'z) world_scheme \<Rightarrow>
   ('p, 'z) world_scheme res" where
  "run_callback env k c = runInLoop (ce_tid env) (ce_call env k c) (UserFn (CallbackFn k c))"

definition conn_updateChannel ::
  "('p, ('p, 'z) world_scheme) conn_env \<Rightarrow> conn_ptr \<Rightarrow> ('p, 'z) world_scheme \<Rightarrow>
   ('p, 'z) world_scheme res" where
  "conn_updateChannel env c W =
     updateChannel (ce_loop env) (ce_tid env) (tc_channel (w_conns W c)) W"

subsection \<open>Sending\<close>

text \<open>
  The first half of \<open>sendInLoop\<close>: when nothing is queued, try to write directly. The result
  is the number of bytes written, the number that remain, whether the connection is
  broken, and the world after the write-complete callback.
\<close>

definition try_write ::
  "('p, ('p, 'z) world_scheme) conn_env \<Rightarrow> conn_ptr \<Rightarrow> char list \<Rightarrow> ('p, 'z) world_scheme \<Rightarrow>
   (nat \<times> nat \<times> bool \<times> ('p, 'z) world_scheme) res" where
  "try_write env c data W =
     (let len = length data; conn = w_conns W c in
      if \<not> isWriting (conn_chan c W) \<and> readableBytes (tc_outputBuffer conn) = 0
      then
        let W1 = W\<lparr>w_calls := Suc (w_calls W)\<rparr> in
        case ce_write env (w_calls W) len of
          Wrote nwrote \<Rightarrow>
            let remaining = sz_sub len nwrote;
                W2 = W1\<lparr>w_wire := (w_wire W1)(c := w_wire W1 c @ take nwrote data)\<rparr> in
            (case tc_writeCompleteCallback conn of
               Some f \<Rightarrow>
                 if remaining = 0
                 then bindE (run_callback env (WriteCompleteCb f) c W2)
                        (\<lambda>W3. Inr (nwrote, remaining, False, W3))
                 else Inr (nwrote, remaining, False, W2)
             | None \<Rightarrow> Inr (nwrote, remaining, False, W2))
        | WriteErr e \<Rightarrow> Inr (0, len, e = EPIPE \<or> e = ECONNRESET, W1)
      else Inr (0, len, False, W))"

text \<open>The second half: queue what remains.\<close>

definition queue_rest ::
  "('p, ('p, 'z) world_scheme) conn_env \<Rightarrow> conn_ptr \<Rightarrow> char list \<Rightarrow> nat \<Rightarrow> nat \<Rightarrow>
   ('p, 'z) world_scheme \<Rightarrow> ('p, 'z) world_scheme res" where
  "queue_rest env c data nwrote remaining W =
     (let conn = w_conns W c; oldLen = readableBytes (tc_outputBuffer conn) in
      bindE (case tc_highWaterMarkCallback conn of
               Some f \<Rightarrow>
                 if sz_add oldLen remaining \<ge> tc_highWaterMark conn \<and> oldLen < tc_highWaterMark conn
                 then run_callback env (HighWaterCb f (sz_add oldLen remaining)) c W
                 else Inr W
             | None \<Rightarrow> Inr W) (\<lambda>W1.
      bindE (append (tc_outputBuffer (w_conns W1 c)) (drop nwrote data) remaining) (\<lambda>b.
      let W2 = upd_conn c (\<lambda>k. k\<lparr>tc_outputBuffer := b\<rparr>) W1 in
      if \<not> isWriting (conn_chan c W2)
      then conn_updateChannel env c
             (set_conn_event c (ch_events (conn_chan c W2) OR CHANNEL_WRITE) W2)
      else Inr W2)))"

definition sendInLoop ::
  "('p, ('p, 'z) world_scheme) conn_env \<Rightarrow> conn_ptr \<Rightarrow> char list \<Rightarrow> ('p, 'z) world_scheme \<Rightarrow>
   ('p, 'z) world_scheme res" where
  "sendInLoop env c data W =
     bindE (assertE (isLoopThread (ce_tid env) W)) (\<lambda>_.
       if tc_state (w_conns W c) = kDisconnected then Inr W
       else
         bindE (try_write env c data W) (\<lambda>(nwrote, remaining, faultError, W1).
         bindE (assertE (remaining \<le> length data)) (\<lambda>_.
         if \<not> faultError \<and> 0 < remaining then queue_rest env c data nwrote remaining W1
         else Inr W1)))"

text \<open>The bytes a \<open>StringPiece\<close> hands to \<open>sendInLoop(data(), size())\<close>.\<close>

definition piece_bytes :: "string_piece \<Rightarrow> char list res" where
  "piece_bytes s =
     (let n = size_of_int (sp_len s)
      in if n \<le> length (sp_ptr s) then Inr (take n (sp_ptr s)) else Inl OutOfBounds)"

definition sendInLoop_piece where
  "sendInLoop_piece env c s W = bindE (piece_bytes s) (\<lambda>d. sendInLoop env c d W)"

definition send_piece ::
  "('p, ('p, 'z) world_scheme) conn_env \<Rightarrow> conn_ptr \<Rightarrow> string_piece \<Rightarrow> ('p, 'z) world_scheme \<Rightarrow>
   ('p, 'z) world_scheme res" where
  "send_piece env c message W =
     (if tc_state (w_conns W c) = kConnected
      then
        if isLoopThread (ce_tid env) W then sendInLoop_piece env c message W
        else bindE (as_string message) (\<lambda>s.
             runInLoop (ce_tid env) (sendInLoop_piece env c (sp_of_string s))
               (UserFn (SendInLoopFn c s)) W)
      else Inr W)"

definition send_data where
  "send_data env c data len W = send_piece env c (sp_of_ptr data len) W"

text \<open>\<open>send(Buffer*)\<close> and \<open>send(Buffer&&)\<close> have the same body; they return the drained buffer too.\<close>

definition send_buffer ::
  "('p, ('p, 'z) world_scheme) conn_env \<Rightarrow> conn_ptr \<Rightarrow> buffer \<Rightarrow> ('p, 'z) world_scheme \<Rightarrow>
   (buffer \<times> ('p, 'z) world_scheme) res" where
  "send_buffer env c buf W =
     (if tc_state (w_conns W c) = kConnected
      then
        if isLoopThread (ce_tid env) W
        then bindE (peek_bytes buf (readableBytes buf)) (\<lambda>d.
             bindE (sendInLoop env c d W) (\<lambda>W1. Inr (retrieveAll buf, W1)))
        else bindE (retrieveAllAsString buf) (\<lambda>(s, buf1).
             bindE (runInLoop (ce_tid env) (sendInLoop_piece env c (sp_of_string s))
                      (UserFn (SendInLoopFn c s)) W) (\<lambda>W1. Inr (buf1, W1)))
      else Inr (buf, W))"

subsection \<open>Establishing and shutting down\<close>

definition call_cb where
  "call_cb env f k c W =
     (case f of None \<Rightarrow> Inl BadFunctionCall | Some n \<Rightarrow> ce_call env (k n) c W)"

definition connectEstablished ::
  "('p, ('p, 'z) world_scheme) conn_env \<Rightarrow> conn_ptr \<Rightarrow> ('p, 'z) world_scheme \<Rightarrow>
   ('p, 'z) world_scheme res" where
  "connectEstablished env c W =
     bindE (assertE (tc_state (w_conns W c) = kConnecting)) (\<lambda>_.
     bindE (conn_updateChannel env c (set_conn_event c CHANNEL_READ (setState kConnected c W))) (\<lambda>W1.
     call_cb env (tc_connectionCallback (w_conns W1 c)) ConnectionCb c W1))"

definition shutdownInLoop ::
  "('p, ('p, 'z) world_scheme) conn_env \<Rightarrow> conn_ptr \<Rightarrow> ('p, 'z) world_scheme \<Rightarrow>
   ('p, 'z) world_scheme res" where
  "shutdownInLoop env c W =
     bindE (assertE (isLoopThread (ce_tid env) W)) (\<lambda>_.
       if \<not> isWriting (conn_chan c W) then Inr (W\<lparr>w_shut := (w_shut W)(c := True)\<rparr>) else Inr W)"

definition shutdown ::
  "('p, ('p, 'z) world_scheme) conn_env \<Rightarrow> conn_ptr \<Rightarrow> ('p, 'z) world_scheme \<Rightarrow>
   ('p, 'z) world_scheme res" where
  "shutdown env c W =
     (if tc_state (w_conns W c) = kConnected
      then runInLoop (ce_tid env) (shutdownInLoop env c) (UserFn (ShutdownInLoopFn c))
             (setState kDisconnecting c W)
      else Inr W)"

subsection \<open>Events\<close>

definition handleClose ::
  "('p, ('p, 'z) world_scheme) conn_env \<Rightarrow> conn_ptr \<Rightarrow> ('p, 'z) world_scheme \<Rightarrow>
   ('p, 'z) world_scheme res" where
  "handleClose env c W =
     bindE (assertE (isLoopThread (ce_tid env) W)) (\<lambda>_.
     bindE (assertE (tc_state (w_conns W c) = kConnected \<or> tc_state (w_conns W c) = kDisconnecting)) (\<lambda>_.
     bindE (removeChannel (ce_loop env) (ce_tid env) (tc_channel (w_conns W c))
              (setState kDisconnected c W)) (\<lambda>W1.
     call_cb env (tc_closeCallback (w_conns W1 c)) CloseCb c W1)))"

text \<open>\<open>handleError\<close> only logs; \<open>getSocketError\<close> returns 0.\<close>

definition handleError :: "conn_ptr \<Rightarrow> ('p, 'z) world_scheme \<Rightarrow> ('p, 'z) world_scheme res" where
  "handleError c W = Inr W"

definition handleRead ::
  "('p, ('p, 'z) world_scheme) conn_env \<Rightarrow> conn_ptr \<Rightarrow> ('p, 'z) world_scheme \<Rightarrow>
   ('p, 'z) world_scheme res" where
  "handleRead env c W =
     bindE (readFd (ce_readv env (w_calls W)) (tc_inputBuffer (w_conns W c))) (\<lambda>(b, n, savedErrno).
     let W1 = upd_conn c (\<lambda>k. k\<lparr>tc_inputBuffer := b\<rparr>) (W\<lparr>w_calls := Suc (w_calls W)\<rparr>) in
     if 0 < n then call_cb env (tc_messageCallback (w_conns W1 c)) MessageCb c W1
     else if n = 0 then handleClose env c W1
     else handleError c W1)"

text \<open>
  \<open>handleWrite\<close>. The events become \<open>events() & !CHANNEL_WRITE\<close>, with the logical negation the
  code uses.
\<close>

definition output_drained ::
  "('p, ('p, 'z) world_scheme) conn_env \<Rightarrow> conn_ptr \<Rightarrow> ('p, 'z) world_scheme \<Rightarrow>
   ('p, 'z) world_scheme res" where
  "output_drained env c W =
     bindE (conn_updateChannel env c
              (set_conn_event c (ch_events (conn_chan c W) AND c_not CHANNEL_WRITE) W)) (\<lambda>W1.
     bindE (case tc_writeCompleteCallback (w_conns W1 c) of
              Some f \<Rightarrow> run_callback env (WriteCompleteCb f) c W1 | None \<Rightarrow> Inr W1) (\<lambda>W2.
     if tc_state (w_conns W2 c) = kDisconnecting then shutdownInLoop env c W2 else Inr W2))"

definition handleWrite ::
  "('p, ('p, 'z) world_scheme) conn_env \<Rightarrow> conn_ptr \<Rightarrow> ('p, 'z) world_scheme \<Rightarrow>
   ('p, 'z) world_scheme res" where
  "handleWrite env c W =
     bindE (assertE (isLoopThread (ce_tid env) W)) (\<lambda>_.
       if isWriting (conn_chan c W)
       then
         let out = tc_outputBuffer (w_conns W c); W1 = W\<lparr>w_calls := Suc (w_calls W)\<rparr> in
         case ce_write env (w_calls W) (readableBytes out) of
           Wrote n \<Rightarrow>
             if 0 < n
             then bindE (retrieve out n) (\<lambda>b.
                  let W2 = upd_conn c (\<lambda>k. k\<lparr>tc_outputBuffer := b\<rparr>)
                             (W1\<lparr>w_wire := (w_wire W1)(c := w_wire W1 c @ take n (content out))\<rparr>) in
                  if readableBytes b = 0 then output_drained env c W2 else Inr W2)
             else Inr W1
         | WriteErr e \<Rightarrow> Inr W1
       else Inr W)"

text \<open>What a queued functor or a handler of a connection does when the loop calls it; \<open>other\<close>
  is the behaviour of the closures of other classes.\<close>

definition conn_exec ::
  "('p, ('p, 'z) world_scheme) conn_env \<Rightarrow>
   (conn_fn \<Rightarrow> ('p, 'z) world_scheme \<Rightarrow> ('p, 'z) world_scheme res) \<Rightarrow> conn_fn \<Rightarrow>
   ('p, 'z) world_scheme \<Rightarrow> ('p, 'z) world_scheme res" where
  "conn_exec env other f W =
     (case f of
        SendInLoopFn c s \<Rightarrow> sendInLoop_piece env c (sp_of_string s) W
      | ShutdownInLoopFn c \<Rightarrow> shutdownInLoop env c W
      | CallbackFn k c \<Rightarrow> ce_call env k c W
      | _ \<Rightarrow> other f W)"

definition conn_handler ::
  "('p, ('p, 'z) world_scheme) conn_env \<Rightarrow>
   (handler \<Rightarrow> ('p, 'z) world_scheme \<Rightarrow> ('p, 'z) world_scheme res) \<Rightarrow> handler \<Rightarrow>
   ('p, 'z) world_scheme \<Rightarrow> ('p, 'z) world_scheme res" where
  "conn_handler env other h W =
     (case h of
        ConnRead c \<Rightarrow> handleRead env c W
      | ConnWrite c \<Rightarrow> handleWrite env c W
      | _ \<Rightarrow> other h W)"

section \<open>Frames\<close>

lemma world_frame [simp]:
  "w_conns (do_update le p W) = w_conns W" "w_wire (do_update le p W) = w_wire W"
  "w_shut (do_update le p W) = w_shut W" "w_calls (do_update le p W) = w_calls W"
  "w_conns (do_remove le p W) = w_conns W" "w_wire (do_remove le p W) = w_wire W"
  "w_shut (do_remove le p W) = w_shut W" "w_calls (do_remove le p W) = w_calls W"
  by (simp_all add: do_update_def do_remove_def split: prod.split)

lemma upd_conn_simps [simp]:
  "w_conns (upd_conn c f W) c = f (w_conns W c)"
  "d \<noteq> c \<Longrightarrow> w_conns (upd_conn c f W) d = w_conns W d"
  "w_wire (upd_conn c f W) = w_wire W" "w_shut (upd_conn c f W) = w_shut W"
  "w_calls (upd_conn c f W) = w_calls W" "el_heap (upd_conn c f W) = el_heap W"
  "el_thread_id (upd_conn c f W) = el_thread_id W" "el_poller (upd_conn c f W) = el_poller W"
  "el_pending (upd_conn c f W) = el_pending W"
  by (simp_all add: upd_conn_def)

lemma set_conn_event_simps [simp]:
  "w_conns (set_conn_event c e W) = w_conns W" "w_wire (set_conn_event c e W) = w_wire W"
  "w_shut (set_conn_event c e W) = w_shut W" "w_calls (set_conn_event c e W) = w_calls W"
  "el_thread_id (set_conn_event c e W) = el_thread_id W"
  "conn_chan c (set_conn_event c e W) = setEvent e (conn_chan c W)"
  by (simp_all add: set_conn_event_def conn_chan_def)

lemma conn_chan_upd_conn [simp]:
  "tc_channel (f (w_conns W c)) = tc_channel (w_conns W c) \<Longrightarrow>
   conn_chan c (upd_conn c f W) = conn_chan c W"
  by (simp add: conn_chan_def)

lemma conn_chan_frame [simp]:
  "conn_chan c (W\<lparr>w_wire := w\<rparr>) = conn_chan c W" "conn_chan c (W\<lparr>w_calls := n\<rparr>) = conn_chan c W"
  "conn_chan c (W\<lparr>w_shut := h\<rparr>) = conn_chan c W"
  by (simp_all add: conn_chan_def)

lemma has_write_or [simp]: "has (e OR CHANNEL_WRITE) CHANNEL_WRITE"
  by (simp add: has_or) (simp add: has_def CHANNEL_WRITE_def)

lemma c_not_write [simp]: "e AND c_not CHANNEL_WRITE = 0"
  by (simp add: c_not_def CHANNEL_WRITE_def)

section \<open>The output invariant\<close>

text \<open>
  Both buffers are well formed, and the connection asks for write events exactly while
  bytes wait in the output buffer. \<open>stream\<close> is everything the connection was given to
  send: what the kernel accepted, followed by what is still queued.
\<close>

definition conn_ok :: "('p, 'z) world_scheme \<Rightarrow> conn_ptr \<Rightarrow> bool" where
  "conn_ok W c \<longleftrightarrow>
     buf_ok (tc_inputBuffer (w_conns W c)) \<and> buf_ok (tc_outputBuffer (w_conns W c)) \<and>
     (isWriting (conn_chan c W) \<longleftrightarrow> content (tc_outputBuffer (w_conns W c)) \<noteq> [])"

definition queued_out :: "('p, 'z) world_scheme \<Rightarrow> conn_ptr \<Rightarrow> char list" where
  "queued_out W c = content (tc_outputBuffer (w_conns W c))"

definition stream :: "('p, 'z) world_scheme \<Rightarrow> conn_ptr \<Rightarrow> char list" where
  "stream W c = w_wire W c @ queued_out W c"

lemma conn_okD:
  assumes "conn_ok W c"
  shows "buf_ok (tc_inputBuffer (w_conns W c))" "buf_ok (tc_outputBuffer (w_conns W c))"
    "isWriting (conn_chan c W) \<longleftrightarrow> content (tc_outputBuffer (w_conns W c)) \<noteq> []"
  using assms by (simp_all add: conn_ok_def)

text \<open>Two worlds that agree on all the sending side of a connection depends on.\<close>

definition same_out :: "conn_ptr \<Rightarrow> ('p, 'z) world_scheme \<Rightarrow> ('p, 'z) world_scheme \<Rightarrow> bool" where
  "same_out c W W' \<longleftrightarrow>
     w_wire W' c = w_wire W c \<and> tc_outputBuffer (w_conns W' c) = tc_outputBuffer (w_conns W c) \<and>
     (buf_ok (tc_inputBuffer (w_conns W c)) \<longrightarrow> buf_ok (tc_inputBuffer (w_conns W' c))) \<and>
     ch_events (conn_chan c W') = ch_events (conn_chan c W) \<and> el_thread_id W' = el_thread_id W"

lemma same_out_refl [simp]: "same_out c W W"
  by (simp add: same_out_def)

lemma same_out_ok: "same_out c W W' \<Longrightarrow> conn_ok W c \<Longrightarrow> conn_ok W' c \<and> stream W' c = stream W c"
  by (simp add: same_out_def conn_ok_def stream_def queued_out_def isWriting_def)

text \<open>
  What is assumed of user callbacks: the high-water callback does not touch the sending
  side; any other one may send, and leaves a well-formed connection whose stream has
  only grown, by an element of \<open>M\<close>. With \<open>M\<close> everything callbacks may send what they like;
  with \<open>{[]}\<close> they are silent.
\<close>

definition closed_appends :: "char list set \<Rightarrow> bool" where
  "closed_appends M \<longleftrightarrow> [] \<in> M \<and> (\<forall>a\<in>M. \<forall>b\<in>M. a @ b \<in> M)"

lemma closed_appends_UNIV [simp]: "closed_appends UNIV"
  by (simp add: closed_appends_def)

lemma closed_appends_silent [simp]: "closed_appends {[]}"
  by (simp add: closed_appends_def)

lemma closed_appends_Nil: "closed_appends M \<Longrightarrow> [] \<in> M"
  by (simp add: closed_appends_def)

definition extends_stream ::
  "char list set \<Rightarrow> conn_ptr \<Rightarrow> ('p, 'z) world_scheme \<Rightarrow> ('p, 'z) world_scheme \<Rightarrow> bool" where
  "extends_stream M c W W' \<longleftrightarrow>
     conn_ok W' c \<and> el_thread_id W' = el_thread_id W \<and> (\<exists>m\<in>M. stream W' c = stream W c @ m)"

definition callbacks_ok ::
  "char list set \<Rightarrow> ('p, ('p, 'z) world_scheme) conn_env \<Rightarrow> conn_ptr \<Rightarrow> bool" where
  "callbacks_ok M env c \<longleftrightarrow>
     (\<forall>k W W'. ce_call env k c W = Inr W' \<longrightarrow> conn_ok W c \<longrightarrow>
        (case k of HighWaterCb f n \<Rightarrow> same_out c W W' | _ \<Rightarrow> extends_stream M c W W'))"

definition writes_ok :: "('p, 'w) conn_env \<Rightarrow> bool" where
  "writes_ok env \<longleftrightarrow> (\<forall>i n k. ce_write env i n = Wrote k \<longrightarrow> k \<le> n)"

lemma extends_same:
  "closed_appends M \<Longrightarrow> conn_ok W' c \<Longrightarrow> el_thread_id W' = el_thread_id W \<Longrightarrow>
   stream W' c = stream W c \<Longrightarrow> extends_stream M c W W'"
  by (auto simp: extends_stream_def dest: closed_appends_Nil)

lemma extends_refl: "closed_appends M \<Longrightarrow> conn_ok W c \<Longrightarrow> extends_stream M c W W"
  by (rule extends_same) simp_all

lemma extends_trans:
  "closed_appends M \<Longrightarrow> extends_stream M c W W1 \<Longrightarrow> extends_stream M c W1 W2 \<Longrightarrow>
   extends_stream M c W W2"
  by (auto simp: extends_stream_def closed_appends_def)

lemma extends_ok: "extends_stream M c W W' \<Longrightarrow> conn_ok W' c"
  by (simp add: extends_stream_def)

lemma callback_extends:
  assumes "closed_appends M" "callbacks_ok M env c" "conn_ok W c" "ce_call env k c W = Inr W'"
  shows "extends_stream M c W W'"
proof -
  have "case k of HighWaterCb f n \<Rightarrow> same_out c W W' | _ \<Rightarrow> extends_stream M c W W'"
    using assms by (auto simp: callbacks_ok_def)
  then show ?thesis
    using same_out_ok [of c W W'] assms(1,3)
    by (cases k) (auto simp: same_out_def intro: extends_same)
qed

lemma same_out_extends:
  "closed_appends M \<Longrightarrow> same_out c W W' \<Longrightarrow> conn_ok W c \<Longrightarrow> extends_stream M c W W'"
  using same_out_ok [of c W W'] by (auto simp: same_out_def intro: extends_same)

lemma shutdownInLoop_same_out: "shutdownInLoop env c W = Inr W' \<Longrightarrow> same_out c W W'"
  by (auto simp: shutdownInLoop_def same_out_def split: if_splits)

lemma run_callback_here: "isLoopThread (ce_tid env) W \<Longrightarrow> run_callback env k c W = ce_call env k c W"
  by (simp add: run_callback_def runInLoop_def)

text \<open>The poller interface with the handlers of connections as the heap's handlers.\<close>

locale conn_poller = poller_iface upd rem chans
  for upd :: "'p \<Rightarrow> handler heap \<Rightarrow> chan_ptr \<Rightarrow> 'p \<times> handler heap"
    and rem :: "'p \<Rightarrow> handler heap \<Rightarrow> chan_ptr \<Rightarrow> 'p"
    and chans :: "'p \<Rightarrow> int \<rightharpoonup> chan_ptr"
begin

lemma updateChannel_same_out:
  assumes "vt_update (ce_loop env) = upd" "isLoopThread (ce_tid env) W"
    and "conn_updateChannel env c W = Inr W'"
  shows "same_out d W W' \<and> w_conns W' = w_conns W \<and> w_wire W' = w_wire W \<and> w_shut W' = w_shut W \<and>
         (\<forall>p. ch_events (el_heap W' p) = ch_events (el_heap W p))"
proof -
  have W': "W' = do_update (ce_loop env) (tc_channel (w_conns W c)) W"
    using assms(2,3) by (simp add: conn_updateChannel_def updateChannel_def runInLoop_def)
  have ev: "ch_events (el_heap W' p) = ch_events (el_heap W p)" for p
    unfolding W' do_update_def assms(1)
    by (auto split: prod.split dest: upd_events)
  then show ?thesis by (simp add: same_out_def conn_chan_def W')
qed

lemma output_drained_extends:
  assumes env: "vt_update (ce_loop env) = upd" and cl: "closed_appends M" and cb: "callbacks_ok M env c"
    and lt: "isLoopThread (ce_tid env) W" and b: "buf_ok (tc_inputBuffer (w_conns W c))"
    "buf_ok (tc_outputBuffer (w_conns W c))" "content (tc_outputBuffer (w_conns W c)) = []"
    and d: "output_drained env c W = Inr W'"
  shows "extends_stream M c W W'"
proof -
  let ?W0 = "set_conn_event c (ch_events (conn_chan c W) AND c_not CHANNEL_WRITE) W"
  have lt0: "isLoopThread (ce_tid env) ?W0" using lt by (simp add: isLoopThread_def)
  have ok0: "conn_ok ?W0 c" using b by (simp add: conn_ok_def isWriting_def setEvent_def)
  have st0: "extends_stream M c W ?W0" using cl ok0 by (auto intro!: extends_same simp: stream_def queued_out_def)
  obtain W1 W2 where u: "conn_updateChannel env c ?W0 = Inr W1"
    and w: "(case tc_writeCompleteCallback (w_conns W1 c) of
              Some f \<Rightarrow> run_callback env (WriteCompleteCb f) c W1 | None \<Rightarrow> Inr W1) = Inr W2"
    and s: "(if tc_state (w_conns W2 c) = kDisconnecting then shutdownInLoop env c W2 else Inr W2) = Inr W'"
    using d by (auto simp: output_drained_def)
  have so: "same_out c ?W0 W1" using updateChannel_same_out [OF env lt0 u, of c] by simp
  then have e1: "extends_stream M c ?W0 W1" by (rule same_out_extends [OF cl _ ok0])
  have lt1: "isLoopThread (ce_tid env) W1" using lt0 so by (simp add: isLoopThread_def same_out_def)
  have e2: "extends_stream M c W1 W2"
  proof (cases "tc_writeCompleteCallback (w_conns W1 c)")
    case None
    with w extends_refl [OF cl extends_ok [OF e1]] show ?thesis by simp
  next
    case (Some f)
    with w lt1 have "ce_call env (WriteCompleteCb f) c W1 = Inr W2" by (simp add: run_callback_here)
    with cb e1 show ?thesis by (intro callback_extends [OF cl]) (auto simp: extends_stream_def)
  qed
  have "extends_stream M c W2 W'"
  proof (cases "tc_state (w_conns W2 c) = kDisconnecting")
    case True
    then have "shutdownInLoop env c W2 = Inr W'" using s by simp
    with e2 show ?thesis by (intro same_out_extends [OF cl] shutdownInLoop_same_out) (auto simp: extends_stream_def)
  next
    case False
    with s extends_refl [OF cl extends_ok [OF e2]] show ?thesis by simp
  qed
  with st0 e1 e2 show ?thesis by (blast intro: extends_trans [OF cl])
qed

lemma handleWrite_extends:
  assumes env: "vt_update (ce_loop env) = upd" and cl: "closed_appends M" and cb: "callbacks_ok M env c"
    and ok: "conn_ok W c" and h: "handleWrite env c W = Inr W'"
  shows "extends_stream M c W W'"
proof (cases "isWriting (conn_chan c W)")
  case False
  with h ok cl show ?thesis by (auto simp: handleWrite_def intro: extends_refl)
next
  case True
  let ?out = "tc_outputBuffer (w_conns W c)"
  let ?W1 = "W\<lparr>w_calls := Suc (w_calls W)\<rparr>"
  have W1: "extends_stream M c W ?W1"
    using ok cl by (auto intro!: extends_same simp: conn_ok_def stream_def queued_out_def)
  have lt: "isLoopThread (ce_tid env) W" using h by (auto simp: handleWrite_def)
  show ?thesis
  proof (cases "ce_write env (w_calls W) (readableBytes ?out)")
    case (WriteErr e)
    with h True W1 show ?thesis by (auto simp: handleWrite_def)
  next
    case (Wrote n)
    show ?thesis
    proof (cases "0 < n")
      case False
      with h True Wrote W1 show ?thesis by (auto simp: handleWrite_def)
    next
      case n: True
      obtain b where r: "retrieve ?out n = Inr b"
        using h True Wrote n by (auto simp: handleWrite_def Let_def)
      let ?W2 = "upd_conn c (\<lambda>k. k\<lparr>tc_outputBuffer := b\<rparr>)
                   (?W1\<lparr>w_wire := (w_wire ?W1)(c := w_wire ?W1 c @ take n (content ?out))\<rparr>)"
      have rest: "(if readableBytes b = 0 then output_drained env c ?W2 else Inr ?W2) = Inr W'"
        using h True Wrote n r by (auto simp: handleWrite_def Let_def)
      have b: "buf_ok b" "content b = drop n (content ?out)"
        using retrieve_content [OF conn_okD(2) [OF ok] r] by simp_all
      have chan: "conn_chan c ?W2 = conn_chan c W" by (simp add: conn_chan_def)
      have st: "stream ?W2 c = stream W c"
        by (simp add: stream_def queued_out_def b(2))
      show ?thesis
      proof (cases "readableBytes b = 0")
        case True
        then have "content b = []" using length_content [OF b(1)] by simp
        then have "extends_stream M c ?W2 W'"
          using rest True env cl cb lt b(1) conn_okD(1) [OF ok]
          by (intro output_drained_extends) (simp_all add: isLoopThread_def)
        with st lt show ?thesis by (simp add: extends_stream_def)
      next
        case False
        then have "content b \<noteq> []" using length_content [OF b(1)] by auto
        then have "conn_ok ?W2 c"
          using \<open>isWriting (conn_chan c W)\<close> b(1) conn_okD(1) [OF ok]
          by (simp add: conn_ok_def)
        with st rest False cl show ?thesis by (auto intro!: extends_same)
      qed
    qed
  qed
qed

lemma queue_rest_stream:
  assumes env: "vt_update (ce_loop env) = upd" and cl: "closed_appends M" and cb: "callbacks_ok M env c"
    and lt: "isLoopThread (ce_tid env) W" and ok: "conn_ok W c"
    and len: "length data \<le> VEC_MAX" and rem: "remaining = length data - nwrote" "0 < remaining"
    and q: "queue_rest env c data nwrote remaining W = Inr W'"
  shows "conn_ok W' c \<and> el_thread_id W' = el_thread_id W \<and>
         stream W' c = stream W c @ drop nwrote data"
proof -
  obtain W1 b where
    hw: "(case tc_highWaterMarkCallback (w_conns W c) of
            Some f \<Rightarrow> if tc_highWaterMark (w_conns W c) \<le> sz_add (readableBytes (tc_outputBuffer (w_conns W c))) remaining
                        \<and> readableBytes (tc_outputBuffer (w_conns W c)) < tc_highWaterMark (w_conns W c)
                     then run_callback env (HighWaterCb f (sz_add (readableBytes (tc_outputBuffer (w_conns W c))) remaining)) c W
                     else Inr W
          | None \<Rightarrow> Inr W) = Inr W1"
    and a: "append (tc_outputBuffer (w_conns W1 c)) (drop nwrote data) remaining = Inr b"
    and e: "(let W2 = upd_conn c (\<lambda>k. k\<lparr>tc_outputBuffer := b\<rparr>) W1 in
             if \<not> isWriting (conn_chan c W2)
             then conn_updateChannel env c (set_conn_event c (ch_events (conn_chan c W2) OR CHANNEL_WRITE) W2)
             else Inr W2) = Inr W'"
    using q by (auto simp: queue_rest_def Let_def)
  have so: "same_out c W W1"
  proof (cases "tc_highWaterMarkCallback (w_conns W c)")
    case (Some f)
    have "ce_call env (HighWaterCb f n) c W = Inr W1 \<Longrightarrow> same_out c W W1" for n
      using cb ok by (fastforce simp: callbacks_ok_def)
    with hw Some lt show ?thesis by (auto simp: run_callback_here split: if_splits)
  qed (use hw in simp)
  have ok1: "conn_ok W1 c" "stream W1 c = stream W c" using same_out_ok [OF so ok] by auto
  have lt1: "isLoopThread (ce_tid env) W1" "el_thread_id W1 = el_thread_id W"
    using so lt by (auto simp: isLoopThread_def same_out_def)
  have "append (tc_outputBuffer (w_conns W1 c)) (drop nwrote data) (length (drop nwrote data)) = Inr b"
    using a rem by simp
  from append_InrD [OF conn_okD(2) [OF ok1(1)] _ this] len
  have b: "buf_ok b" "content b = content (tc_outputBuffer (w_conns W1 c)) @ drop nwrote data"
    by simp_all
  have ne: "content b \<noteq> []" using b(2) rem by simp
  let ?W2 = "upd_conn c (\<lambda>k. k\<lparr>tc_outputBuffer := b\<rparr>) W1"
  have st2: "stream ?W2 c = stream W c @ drop nwrote data"
    using ok1(2) by (simp add: stream_def queued_out_def b(2))
  show ?thesis
  proof (cases "isWriting (conn_chan c ?W2)")
    case True
    with e have "W' = ?W2" by (simp add: Let_def)
    with True st2 ne b(1) conn_okD(1) [OF ok1(1)] lt1 show ?thesis by (simp add: conn_ok_def)
  next
    case False
    let ?W3 = "set_conn_event c (ch_events (conn_chan c ?W2) OR CHANNEL_WRITE) ?W2"
    have u: "conn_updateChannel env c ?W3 = Inr W'" using e False by (simp add: Let_def)
    have ok3: "conn_ok ?W3 c"
      using ne b(1) conn_okD(1) [OF ok1(1)] by (simp add: conn_ok_def isWriting_def setEvent_def)
    have "isLoopThread (ce_tid env) ?W3" using lt1 by (simp add: isLoopThread_def)
    from updateChannel_same_out [OF env this u, of c] have so3: "same_out c ?W3 W'" by simp
    from same_out_ok [OF this ok3] so3 st2 lt1 show ?thesis
      by (simp add: stream_def queued_out_def same_out_def)
  qed
qed

text \<open>
  What \<open>sendInLoop\<close> does to the stream: the whole message is appended to it, once and
  behind everything sent before, with whatever the write-complete callback sends behind
  it; unless the direct write failed with EPIPE or ECONNRESET, when the message is dropped whole.
\<close>

lemma sendInLoop_stream:
  assumes env: "vt_update (ce_loop env) = upd" and cl: "closed_appends M" and cb: "callbacks_ok M env c" and wr: "writes_ok env"
    and ok: "conn_ok W c" and len: "length data \<le> VEC_MAX"
    and alive: "tc_state (w_conns W c) \<noteq> kDisconnected"
    and s: "sendInLoop env c data W = Inr W'"
  shows "conn_ok W' c \<and> el_thread_id W' = el_thread_id W \<and>
     ((\<exists>m\<in>M. stream W' c = stream W c @ data @ m) \<or>
      (stream W' c = stream W c \<and>
       (ce_write env (w_calls W) (length data) = WriteErr EPIPE \<or>
        ce_write env (w_calls W) (length data) = WriteErr ECONNRESET)))"
proof -
  have nil: "[] \<in> M" using cl by (rule closed_appends_Nil)
  have lt: "isLoopThread (ce_tid env) W" using s by (auto simp: sendInLoop_def)
  obtain nwrote remaining fault W1 where t: "try_write env c data W = Inr (nwrote, remaining, fault, W1)"
    and r: "remaining \<le> length data"
    and q: "(if \<not> fault \<and> 0 < remaining then queue_rest env c data nwrote remaining W1 else Inr W1) = Inr W'"
    using s alive by (auto simp: sendInLoop_def)
  let ?out = "tc_outputBuffer (w_conns W c)"
  let ?W1 = "W\<lparr>w_calls := Suc (w_calls W)\<rparr>"
  have W1: "conn_ok ?W1 c" "stream ?W1 c = stream W c"
    using ok by (simp_all add: conn_ok_def stream_def queued_out_def)
  show ?thesis
  proof (cases "\<not> isWriting (conn_chan c W) \<and> readableBytes ?out = 0")
    case False
    with t have e: "nwrote = 0" "remaining = length data" "\<not> fault" "W1 = W"
      by (auto simp: try_write_def Let_def)
    show ?thesis
    proof (cases "data = []")
      case True
      with e q ok nil show ?thesis by auto
    next
      case False
      with e q queue_rest_stream [OF env cl cb lt ok len, of remaining nwrote W'] nil show ?thesis by auto
    qed
  next
    case direct: True
    show ?thesis
    proof (cases "ce_write env (w_calls W) (length data)")
      case (WriteErr err)
      with t direct have e: "nwrote = 0" "remaining = length data" "W1 = ?W1"
        "fault = (err = EPIPE \<or> err = ECONNRESET)"
        by (auto simp: try_write_def Let_def)
      have lt1: "isLoopThread (ce_tid env) ?W1" using lt by (simp add: isLoopThread_def)
      show ?thesis
      proof (cases "fault \<or> data = []")
        case True
        with e q W1 WriteErr nil show ?thesis by auto
      next
        case False
        with e q queue_rest_stream [OF env cl cb lt1 W1(1) len, of remaining nwrote W'] W1(2) nil
        show ?thesis by auto
      qed
    next
      case (Wrote n)
      then have n: "n \<le> length data" using wr by (auto simp: writes_ok_def)
      have rm: "sz_sub (length data) n = length data - n"
        using n len by (intro sz_sub_le) (auto simp: VEC_MAX_def SIZE_MOD_def)
      let ?W2 = "?W1\<lparr>w_wire := (w_wire ?W1)(c := w_wire ?W1 c @ take n data)\<rparr>"
      have empty: "content ?out = []"
        using direct length_content [OF conn_okD(2) [OF ok]] by simp
      have W2: "conn_ok ?W2 c" "stream ?W2 c = stream W c @ take n data"
        using ok empty by (simp_all add: conn_ok_def stream_def queued_out_def)
      have lt2: "isLoopThread (ce_tid env) ?W2" using lt by (simp add: isLoopThread_def)
      show ?thesis
      proof (cases "n = length data")
        case True
        have "remaining = 0 \<and> (W1 = ?W2 \<or> (\<exists>f. ce_call env (WriteCompleteCb f) c ?W2 = Inr W1))"
          using t direct Wrote rm True lt2
          by (auto simp: try_write_def Let_def run_callback_here split: option.splits)
        moreover have "extends_stream M c ?W2 W1"
          using calculation callback_extends [OF cl cb W2(1)] extends_refl [OF cl W2(1)] by auto
        ultimately show ?thesis
          using q W2(2) True by (auto simp: extends_stream_def)
      next
        case False
        with t direct Wrote rm n have e: "nwrote = n" "remaining = length data - n" "\<not> fault" "W1 = ?W2"
          by (auto simp: try_write_def Let_def split: option.splits)
        have "0 < remaining" using e False n by simp
        with e q queue_rest_stream [OF env cl cb lt2 W2(1) len e(2) this] W2(2) nil show ?thesis by auto
      qed
    qed
  qed
qed

end

interpretation epc: conn_poller "epoll_upd sys junk" "epoll_rem sys" channels
  for sys junk
  by unfold_locales

interpretation kqc: conn_poller kq_upd kq_rem channels
  by unfold_locales

end
