(* ===== verification/ConnFrame.thy ===== *)
theory ConnFrame
  imports TcpConn
begin

text \<open>
  What the operations of \<open>TcpConnection\<close> (src/net/tcp_connection.cpp) can change. A relation between
  worlds that the elementary updates respect is respected by every operation: \<open>conn_writes\<close>
  for the operations that send on one connection, \<open>conn_events\<close> for all of one connection,
  \<open>conn_relation\<close> for all connections.
\<close>

section \<open>The life cycle\<close>

text \<open>The states in the order a connection passes through them.\<close>

fun state_rank :: "conn_state \<Rightarrow> nat" where
  "state_rank kConnecting = 0"
| "state_rank kConnected = 1"
| "state_rank kDisconnecting = 2"
| "state_rank kDisconnected = 3"

instantiation conn_state :: linorder
begin

definition less_eq_conn_state :: "conn_state \<Rightarrow> conn_state \<Rightarrow> bool" where
  "less_eq_conn_state a b \<longleftrightarrow> state_rank a \<le> state_rank b"

definition less_conn_state :: "conn_state \<Rightarrow> conn_state \<Rightarrow> bool" where
  "less_conn_state a b \<longleftrightarrow> state_rank a < state_rank b"

instance
proof
  fix a b :: conn_state
  show "a \<le> b \<Longrightarrow> b \<le> a \<Longrightarrow> a = b"
    by (cases a; cases b) (simp_all add: less_eq_conn_state_def)
qed (auto simp: less_eq_conn_state_def less_conn_state_def)

end

lemma state_order:
  "kConnecting \<le> s" "s \<le> kDisconnected" "kConnected \<le> kDisconnecting" "s \<noteq> kConnecting \<Longrightarrow> kConnected \<le> s"
  "kDisconnected \<le> s \<longleftrightarrow> s = kDisconnected"
  by (cases s; simp add: less_eq_conn_state_def)+

text \<open>Everything the rest of the program can do to a connection.\<close>

datatype conn_op =
    Establish
  | SendData "char list" nat
  | SendBuffer buffer
  | ShutdownOp
  | ReadEvent
  | WriteEvent
  | Deferred conn_fn

definition conn_step ::
  "('p, ('p, 'z) world_scheme) conn_env \<Rightarrow> conn_ptr \<Rightarrow> conn_op \<Rightarrow> ('p, 'z) world_scheme \<Rightarrow>
   ('p, 'z) world_scheme res" where
  "conn_step env c op W =
     (case op of
        Establish \<Rightarrow> connectEstablished env c W
      | SendData d n \<Rightarrow> send_data env c d (int n) W
      | SendBuffer b \<Rightarrow> bindE (send_buffer env c b W) (\<lambda>(b', W'). Inr W')
      | ShutdownOp \<Rightarrow> shutdown env c W
      | ReadEvent \<Rightarrow> handleRead env c W
      | WriteEvent \<Rightarrow> handleWrite env c W
      | Deferred f \<Rightarrow> conn_exec env (\<lambda>_. Inr) f W)"

text \<open>
  \<open>cb_respects R env\<close>: callbacks respect the relation \<open>R\<close>. \<open>env_local R c le env\<close>: the poller is that
  of \<open>le\<close>, callbacks of connection \<open>c\<close> respect \<open>R\<close>, and so does queueing a functor from a thread that
  is not the loop's.
\<close>

definition cb_respects :: "('w \<Rightarrow> 'w \<Rightarrow> bool) \<Rightarrow> ('p, 'w) conn_env \<Rightarrow> bool" where
  "cb_respects R env \<longleftrightarrow> (\<forall>k d W W'. ce_call env k d W = Inr W' \<longrightarrow> R W W')"

lemma cb_respectsD: "cb_respects R env \<Longrightarrow> ce_call env k d W = Inr W' \<Longrightarrow> R W W'"
  by (auto simp: cb_respects_def)

definition env_local :: "(('p, 'z) world_scheme \<Rightarrow> ('p, 'z) world_scheme \<Rightarrow> bool) \<Rightarrow> conn_ptr \<Rightarrow>
  ('p, handler, conn_fn) loop_env \<Rightarrow> ('p, ('p, 'z) world_scheme) conn_env \<Rightarrow> bool" where
  "env_local R c le env \<longleftrightarrow> ce_loop env = le \<and>
     (\<forall>k W W'. ce_call env k c W = Inr W' \<longrightarrow> R W W') \<and>
     (\<forall>f W. \<not> isLoopThread (ce_tid env) W \<longrightarrow> R W (queueInLoop (ce_tid env) f W))"

section \<open>The operations that send\<close>

locale conn_writes =
  fixes R :: "('p, 'z) world_scheme \<Rightarrow> ('p, 'z) world_scheme \<Rightarrow> bool" and c :: conn_ptr
    and le :: "('p, handler, conn_fn) loop_env"
  assumes L_refl: "R W W"
    and L_trans: "R W W1 \<Longrightarrow> R W1 W2 \<Longrightarrow> R W W2"
    and L_update: "R W (do_update le (tc_channel (w_conns W c)) W)"
    and L_event: "R W (set_conn_event c e W)"
    and L_output: "R W (upd_conn c (\<lambda>k. k\<lparr>tc_outputBuffer := b\<rparr>) W)"
    and L_calls: "R W (W\<lparr>w_calls := n\<rparr>)"
    and L_wire: "R W (W\<lparr>w_wire := (w_wire W)(c := w)\<rparr>)"
    and L_shut: "R W (W\<lparr>w_shut := (w_shut W)(c := h)\<rparr>)"
begin

lemma runInLoop_L:
  "env_local R c le env \<Longrightarrow> runInLoop (ce_tid env) now f W = Inr W' \<Longrightarrow> (\<And>W'. now W = Inr W' \<Longrightarrow> R W W') \<Longrightarrow> R W W'"
  by (auto simp: runInLoop_def env_local_def split: if_splits)

lemma update_L:
  assumes "env_local R c le env" "conn_updateChannel env c W = Inr W'"
  shows "R W W'"
  using assms(2) unfolding conn_updateChannel_def updateChannel_def
  by (rule runInLoop_L [OF assms(1)]) (use assms(1) L_update in \<open>auto simp: env_local_def\<close>)

lemma run_callback_L:
  assumes "env_local R c le env" "run_callback env k c W = Inr W'"
  shows "R W W'"
  using assms(2) unfolding run_callback_def
  by (rule runInLoop_L [OF assms(1)]) (use assms(1) in \<open>auto simp: env_local_def\<close>)

lemma try_write_L:
  assumes "env_local R c le env" "try_write env c data W = Inr (n, r, e, W')"
  shows "R W W'"
proof -
  let ?V = "W\<lparr>w_calls := Suc (w_calls W)\<rparr>"
  let ?V2 = "\<lambda>k. ?V\<lparr>w_wire := (w_wire ?V)(c := w_wire ?V c @ take k data)\<rparr>"
  have V2: "R W (?V2 k)" for k using L_trans [OF L_calls L_wire] .
  have "R W V'" if "run_callback env f c (?V2 k) = Inr V'" for f k V'
    using L_trans [OF V2 run_callback_L [OF assms(1) that]] .
  with assms(2) V2 L_refl L_calls show ?thesis
    by (auto simp: try_write_def Let_def split: if_splits write_result.splits option.splits)
qed

lemma queue_rest_L:
  assumes "env_local R c le env" "queue_rest env c data n r W = Inr W'"
  shows "R W W'"
proof -
  let ?out = "tc_outputBuffer (w_conns W c)"
  obtain W1 b where
    hw: "(case tc_highWaterMarkCallback (w_conns W c) of
            Some f \<Rightarrow> if tc_highWaterMark (w_conns W c) \<le> sz_add (readableBytes ?out) r
                        \<and> readableBytes ?out < tc_highWaterMark (w_conns W c)
                     then run_callback env (HighWaterCb f (sz_add (readableBytes ?out) r)) c W
                     else Inr W
          | None \<Rightarrow> Inr W) = Inr W1"
    and e: "(let W2 = upd_conn c (\<lambda>k. k\<lparr>tc_outputBuffer := b\<rparr>) W1 in
             if \<not> isWriting (conn_chan c W2)
             then conn_updateChannel env c (set_conn_event c (ch_events (conn_chan c W2) OR CHANNEL_WRITE) W2)
             else Inr W2) = Inr W'"
    using assms(2) by (auto simp: queue_rest_def Let_def)
  have w1: "R W W1"
    using hw run_callback_L [OF assms(1)] L_refl by (auto split: option.splits if_splits)
  let ?W2 = "upd_conn c (\<lambda>k. k\<lparr>tc_outputBuffer := b\<rparr>) W1"
  have "R ?W2 W'"
  proof (cases "isWriting (conn_chan c ?W2)")
    case True
    with e L_refl show ?thesis by (simp add: Let_def)
  next
    case False
    then have "conn_updateChannel env c (set_conn_event c (ch_events (conn_chan c ?W2) OR CHANNEL_WRITE) ?W2) = Inr W'"
      using e by (simp add: Let_def)
    from L_trans [OF L_event update_L [OF assms(1) this]] show ?thesis .
  qed
  with L_trans [OF w1 L_output] show ?thesis by (rule L_trans)
qed

lemma sendInLoop_L:
  assumes "env_local R c le env" "sendInLoop env c data W = Inr W'"
  shows "R W W'"
proof (cases "tc_state (w_conns W c) = kDisconnected")
  case True
  with assms(2) L_refl show ?thesis by (auto simp: sendInLoop_def)
next
  case False
  then obtain n r e W1 where t: "try_write env c data W = Inr (n, r, e, W1)"
    and q: "(if \<not> e \<and> 0 < r then queue_rest env c data n r W1 else Inr W1) = Inr W'"
    using assms(2) by (auto simp: sendInLoop_def)
  have "R W1 W'" using q queue_rest_L [OF assms(1)] L_refl by (auto split: if_splits)
  with try_write_L [OF assms(1) t] show ?thesis by (rule L_trans)
qed

lemma piece_L: "env_local R c le env \<Longrightarrow> sendInLoop_piece env c s W = Inr W' \<Longrightarrow> R W W'"
  by (auto simp: sendInLoop_piece_def intro: sendInLoop_L)

lemma send_L:
  assumes "env_local R c le env"
  shows "send_piece env c s W = Inr W' \<Longrightarrow> R W W'"
    and "send_buffer env c b W = Inr (b', W') \<Longrightarrow> R W W'"
proof -
  have later: "R W W'"
    if "runInLoop (ce_tid env) (sendInLoop_piece env c s) f W = Inr W'" for s f W'
    using assms that piece_L [OF assms] by (rule runInLoop_L)
  show "send_piece env c s W = Inr W' \<Longrightarrow> R W W'"
    using piece_L [OF assms] later L_refl by (auto simp: send_piece_def split: if_splits)
  show "send_buffer env c b W = Inr (b', W') \<Longrightarrow> R W W'"
    using sendInLoop_L [OF assms] later L_refl by (auto simp: send_buffer_def split: if_splits)
qed

lemma shutdownInLoop_L: "shutdownInLoop env c W = Inr W' \<Longrightarrow> R W W'"
  using L_refl L_shut by (auto simp: shutdownInLoop_def split: if_splits)

lemma output_drained_L:
  assumes "env_local R c le env" "output_drained env c W = Inr W'"
  shows "R W W'"
proof -
  obtain W1 W2 where
    u: "conn_updateChannel env c (set_conn_event c (ch_events (conn_chan c W) AND c_not CHANNEL_WRITE) W) = Inr W1"
    and w: "(case tc_writeCompleteCallback (w_conns W1 c) of
              Some f \<Rightarrow> run_callback env (WriteCompleteCb f) c W1 | None \<Rightarrow> Inr W1) = Inr W2"
    and s: "(if tc_state (w_conns W2 c) = kDisconnecting then shutdownInLoop env c W2 else Inr W2) = Inr W'"
    using assms(2) by (auto simp: output_drained_def)
  have "R W W1" using L_trans [OF L_event update_L [OF assms(1) u]] .
  moreover have "R W1 W2"
    using w run_callback_L [OF assms(1)] L_refl by (auto split: option.splits)
  moreover have "R W2 W'" using s shutdownInLoop_L L_refl by (auto split: if_splits)
  ultimately show ?thesis by (blast intro: L_trans)
qed

lemma handleWrite_L:
  assumes "env_local R c le env" "handleWrite env c W = Inr W'"
  shows "R W W'"
proof -
  let ?W1 = "W\<lparr>w_calls := Suc (w_calls W)\<rparr>"
  let ?W2 = "\<lambda>b w. upd_conn c (\<lambda>k. k\<lparr>tc_outputBuffer := b\<rparr>) (?W1\<lparr>w_wire := (w_wire ?W1)(c := w)\<rparr>)"
  have W2: "R W (?W2 b w)" for b w using L_trans [OF L_trans [OF L_calls L_wire] L_output] .
  have "R W V'" if "output_drained env c (?W2 b w) = Inr V'" for b w V'
    using L_trans [OF W2 output_drained_L [OF assms(1) that]] .
  with assms(2) W2 L_refl L_calls show ?thesis
    by (auto simp: handleWrite_def Let_def split: if_splits write_result.splits)
qed

end

section \<open>All operations of a connection\<close>

locale conn_events = conn_writes R c le
  for R :: "('p, 'z) world_scheme \<Rightarrow> ('p, 'z) world_scheme \<Rightarrow> bool" and c and le +
  assumes L_remove: "R W (do_remove le (tc_channel (w_conns W c)) W)"
    and L_input: "R W (upd_conn c (\<lambda>k. k\<lparr>tc_inputBuffer := b\<rparr>) W)"
    and L_state: "tc_state (w_conns W c) \<le> s \<Longrightarrow> R W (setState s c W)"
begin

lemma shutdown_L:
  assumes "env_local R c le env" "shutdown env c W = Inr W'"
  shows "R W W'"
proof (cases "tc_state (w_conns W c) = kConnected")
  case True
  then have "runInLoop (ce_tid env) (shutdownInLoop env c) (UserFn (ShutdownInLoopFn c))
      (setState kDisconnecting c W) = Inr W'"
    using assms(2) by (simp add: shutdown_def)
  then have "R (setState kDisconnecting c W) W'"
    using assms(1) shutdownInLoop_L by (auto elim: runInLoop_L)
  with L_state [of W kDisconnecting] True state_order(3) show ?thesis by (auto intro: L_trans)
qed (use assms L_refl in \<open>simp add: shutdown_def\<close>)

lemma call_cb_L: "env_local R c le env \<Longrightarrow> call_cb env f k c W = Inr W' \<Longrightarrow> R W W'"
  by (auto simp: call_cb_def env_local_def split: option.splits)

lemma connectEstablished_L:
  assumes "env_local R c le env" "connectEstablished env c W = Inr W'"
  shows "R W W'"
proof -
  obtain W1 where st: "tc_state (w_conns W c) = kConnecting"
    and u: "conn_updateChannel env c (set_conn_event c CHANNEL_READ (setState kConnected c W)) = Inr W1"
    and cb: "call_cb env (tc_connectionCallback (w_conns W1 c)) ConnectionCb c W1 = Inr W'"
    using assms(2) by (auto simp: connectEstablished_def)
  have "R W (setState kConnected c W)" using st state_order(1) by (intro L_state) simp
  from L_trans [OF L_trans [OF this L_event] update_L [OF assms(1) u]] call_cb_L [OF assms(1) cb]
  show ?thesis by (rule L_trans)
qed

lemma handleClose_L:
  assumes "env_local R c le env" "handleClose env c W = Inr W'"
  shows "R W W'"
proof -
  let ?W0 = "setState kDisconnected c W"
  obtain W1 where
    r: "removeChannel (ce_loop env) (ce_tid env) (tc_channel (w_conns W c)) ?W0 = Inr W1"
    and cb: "call_cb env (tc_closeCallback (w_conns W1 c)) CloseCb c W1 = Inr W'"
    using assms(2) by (auto simp: handleClose_def)
  have "tc_channel (w_conns ?W0 c) = tc_channel (w_conns W c)" by (simp add: setState_def)
  then have "R ?W0 W1"
    using r L_remove [of ?W0] assms(1) unfolding removeChannel_def
    by (auto simp: env_local_def elim!: runInLoop_L [OF assms(1)])
  moreover have "R W ?W0" using state_order(2) by (intro L_state)
  ultimately show ?thesis using call_cb_L [OF assms(1) cb] by (blast intro: L_trans)
qed

lemma handleRead_L:
  assumes "env_local R c le env" "handleRead env c W = Inr W'"
  shows "R W W'"
proof -
  obtain b n err where
    h: "(let W1 = upd_conn c (\<lambda>k. k\<lparr>tc_inputBuffer := b\<rparr>) (W\<lparr>w_calls := Suc (w_calls W)\<rparr>) in
       if 0 < n then call_cb env (tc_messageCallback (w_conns W1 c)) MessageCb c W1
       else if (n::int) = 0 then handleClose env c W1 else handleError c W1) = Inr W'"
    using assms(2) by (auto simp: handleRead_def)
  let ?W1 = "upd_conn c (\<lambda>k. k\<lparr>tc_inputBuffer := b\<rparr>) (W\<lparr>w_calls := Suc (w_calls W)\<rparr>)"
  have "R ?W1 W'"
    using h call_cb_L [OF assms(1)] handleClose_L [OF assms(1)] L_refl
    by (auto simp: Let_def handleError_def split: if_splits)
  with L_trans [OF L_calls L_input] show ?thesis by (rule L_trans)
qed

end

section \<open>All connections\<close>

locale conn_relation =
  fixes R :: "('p, 'z) world_scheme \<Rightarrow> ('p, 'z) world_scheme \<Rightarrow> bool"
  assumes R_refl: "R W W"
    and R_trans: "R W W1 \<Longrightarrow> R W1 W2 \<Longrightarrow> R W W2"
    and R_update: "\<And>le :: ('p, handler, conn_fn) loop_env. R W (do_update le p W)"
    and R_remove: "\<And>le :: ('p, handler, conn_fn) loop_env. R W (do_remove le p W)"
    and R_queue: "R W (queueInLoop tid f W)"
    and R_event: "R W (set_conn_event d e W)"
    and R_output: "R W (upd_conn d (\<lambda>k. k\<lparr>tc_outputBuffer := b\<rparr>) W)"
    and R_input: "R W (upd_conn d (\<lambda>k. k\<lparr>tc_inputBuffer := b\<rparr>) W)"
    and R_calls: "R W (W\<lparr>w_calls := n\<rparr>)" and R_wire: "R W (W\<lparr>w_wire := w\<rparr>)"
    and R_shut: "R W (W\<lparr>w_shut := h\<rparr>)"
    and R_state: "tc_state (w_conns W d) \<le> s \<Longrightarrow> R W (setState s d W)"
begin

lemma respects_local: "cb_respects R env \<Longrightarrow> env_local R d (ce_loop env) env"
  by (auto simp: env_local_def intro: R_queue cb_respectsD)

end

sublocale conn_relation \<subseteq> at: conn_events R d le for d le
  by unfold_locales (fact R_refl R_update R_event R_output R_calls R_wire R_shut R_remove R_input R_state
    | blast intro: R_trans)+

context conn_relation
begin

lemmas sendInLoop_R = at.sendInLoop_L [OF respects_local]
lemmas piece_R = at.piece_L [OF respects_local]
lemmas send_R = at.send_L [OF respects_local]
lemmas shutdown_R = at.shutdown_L [OF respects_local]
lemmas call_cb_R = at.call_cb_L [OF respects_local]
lemmas connectEstablished_R = at.connectEstablished_L [OF respects_local]
lemmas handleRead_R = at.handleRead_L [OF respects_local]
lemmas handleWrite_R = at.handleWrite_L [OF respects_local]

lemma conn_exec_R:
  assumes "cb_respects R env" "conn_exec env (\<lambda>_. Inr) f W = Inr W'"
  shows "R W W'"
  using assms by (auto simp: conn_exec_def split: conn_fn.splits
      intro: R_refl piece_R at.shutdownInLoop_L cb_respectsD)

lemma conn_step_R:
  assumes "cb_respects R env" "conn_step env d op W = Inr W'"
  shows "R W W'"
  using assms by (cases op) (auto simp: conn_step_def send_data_def
       intro: connectEstablished_R send_R shutdown_R handleRead_R handleWrite_R conn_exec_R)

end

end
