(* ===== verification/TcpProps.thy ===== *)
theory TcpProps
  imports ConnFrame Epoller
begin

text \<open>
  Properties of \<open>TcpConnection\<close> on the Linux poller: the bytes sent arrive in order and once,
  what the callbacks may do to that, the half close, the life cycle, the events, calls
  from other threads.
\<close>

section \<open>Sending: everything once, in order\<close>

text \<open>A run of the sending side: messages handed to \<open>sendInLoop\<close>, and write events. The
  result lists the messages given while the connection was not disconnected.\<close>

datatype out_op = Msg "char list" | Writable

fun run_out ::
  "('p, ('p, 'z) world_scheme) conn_env \<Rightarrow> conn_ptr \<Rightarrow> out_op list \<Rightarrow> ('p, 'z) world_scheme \<Rightarrow>
   (char list list \<times> ('p, 'z) world_scheme) res" where
  "run_out env c [] W = Inr ([], W)"
| "run_out env c (Msg d # ops) W =
     bindE (sendInLoop env c d W) (\<lambda>W1. bindE (run_out env c ops W1) (\<lambda>(ds, W2).
       Inr (if tc_state (w_conns W c) = kDisconnected then ds else d # ds, W2)))"
| "run_out env c (Writable # ops) W = bindE (handleWrite env c W) (run_out env c ops)"

text \<open>\<open>s\<close> is the messages \<open>ds\<close> in order, with elements of \<open>M\<close> before, between and behind them.\<close>

fun spliced :: "char list set \<Rightarrow> char list \<Rightarrow> char list list \<Rightarrow> bool" where
  "spliced M s [] \<longleftrightarrow> s \<in> M"
| "spliced M s (d # ds) \<longleftrightarrow> (\<exists>a\<in>M. \<exists>rest. s = a @ d @ rest \<and> spliced M rest ds)"

lemma spliced_silent: "spliced {[]} s ds \<longleftrightarrow> s = concat ds"
  by (induction ds arbitrary: s) auto

lemma spliced_front: "closed_appends M \<Longrightarrow> m \<in> M \<Longrightarrow> spliced M s ds \<Longrightarrow> spliced M (m @ s) ds"
proof (cases ds)
  case (Cons d ds')
  assume cl: "closed_appends M" "m \<in> M" "spliced M s ds"
  then obtain a rest where a: "a \<in> M" "s = a @ d @ rest" "spliced M rest ds'"
    using Cons by auto
  then have "m @ a \<in> M" "m @ s = (m @ a) @ d @ rest" using cl by (auto simp: closed_appends_def)
  with a(3) Cons show ?thesis by (metis spliced.simps(2))
qed (auto simp: closed_appends_def)

text \<open>When the insertions are made of bytes the messages do not have, taking these bytes out leaves the
  messages, each once.\<close>

lemma spliced_filter:
  "spliced (lists A) s ds \<Longrightarrow> \<forall>d\<in>set ds. set d \<inter> A = {} \<Longrightarrow> filter (\<lambda>x. x \<notin> A) s = concat ds"
proof (induction ds arbitrary: s)
  case Nil
  then show ?case by (auto simp: filter_empty_conv in_lists_conv_set)
next
  case (Cons d ds)
  then obtain a rest where s: "s = a @ d @ rest" "a \<in> lists A" "spliced (lists A) rest ds" by auto
  have "filter (\<lambda>x. x \<notin> A) a = []" using s(2) by (auto simp: filter_empty_conv in_lists_conv_set)
  moreover have "filter (\<lambda>x. x \<notin> A) d = d" using Cons.prems(2) by (auto simp: filter_id_conv)
  ultimately show ?case using s Cons.IH [OF s(3)] Cons.prems(2) by simp
qed

lemma closed_appends_lists [simp]: "closed_appends (lists A)"
  by (auto simp: closed_appends_def)

definition no_reset :: "('p, 'w) conn_env \<Rightarrow> bool" where
  "no_reset env \<longleftrightarrow> (\<forall>i n. ce_write env i n \<noteq> WriteErr EPIPE \<and> ce_write env i n \<noteq> WriteErr ECONNRESET)"

definition msgs_small :: "out_op list \<Rightarrow> bool" where
  "msgs_small ops \<longleftrightarrow> (\<forall>d. Msg d \<in> set ops \<longrightarrow> length d \<le> VEC_MAX)"

context conn_poller
begin

lemma run_out_stream:
  assumes "vt_update (ce_loop env) = upd" "closed_appends M" "callbacks_ok M env c"
    "writes_ok env" "no_reset env"
  shows "conn_ok W c \<Longrightarrow> msgs_small ops \<Longrightarrow> run_out env c ops W = Inr (ds, W') \<Longrightarrow>
         conn_ok W' c \<and> (\<exists>s. stream W' c = stream W c @ s \<and> spliced M s ds)"
proof (induction ops arbitrary: W ds)
  case Nil
  then show ?case using closed_appends_Nil [OF assms(2)] by auto
next
  case (Cons x ops)
  have small: "msgs_small ops" using Cons.prems(2) by (simp add: msgs_small_def)
  show ?case
  proof (cases x)
    case Writable
    with Cons.prems(3) obtain W1 where W1: "handleWrite env c W = Inr W1" "run_out env c ops W1 = Inr (ds, W')"
      by auto
    have e: "extends_stream M c W W1"
      using assms(1-3) Cons.prems(1) W1(1) by (rule handleWrite_extends)
    then obtain m where m: "m \<in> M" "stream W1 c = stream W c @ m" by (auto simp: extends_stream_def)
    with Cons.IH [OF extends_ok [OF e] small W1(2)] spliced_front [OF assms(2) m(1)] show ?thesis by auto
  next
    case (Msg d)
    with Cons.prems(3) obtain W1 ds1 where W1: "sendInLoop env c d W = Inr W1" "run_out env c ops W1 = Inr (ds1, W')"
      and ds: "ds = (if tc_state (w_conns W c) = kDisconnected then ds1 else d # ds1)"
      by auto
    show ?thesis
    proof (cases "tc_state (w_conns W c) = kDisconnected")
      case True
      then have "W1 = W" using W1(1) by (auto simp: sendInLoop_def)
      with True ds Cons.IH [OF Cons.prems(1) small] W1(2) show ?thesis by auto
    next
      case False
      have len: "length d \<le> VEC_MAX" using Cons.prems(2) Msg by (simp add: msgs_small_def)
      obtain m where m: "m \<in> M" "stream W1 c = stream W c @ d @ m" and ok1: "conn_ok W1 c"
        using sendInLoop_stream [OF assms(1-4) Cons.prems(1) len False W1(1)] assms(5)
        by (auto simp: no_reset_def)
      obtain s where s: "stream W' c = stream W1 c @ s" "spliced M s ds1" and ok': "conn_ok W' c"
        using Cons.IH [OF ok1 small W1(2)] by blast
      have "spliced M (d @ m @ s) ds"
        using spliced_front [OF assms(2) m(1) s(2)] closed_appends_Nil [OF assms(2)] ds False
        by (metis append_Nil spliced.simps(2))
      with m s ok' show ?thesis by auto
    qed
  qed
qed

end

subsection \<open>A concrete connection\<close>

text \<open>Connection 0 on channel 0 with descriptor 7, in the loop of thread 0, with eight bytes
  of buffer space; \<open>ce_write\<close> accepts \<open>lim\<close> bytes at most, each time; callbacks do nothing.\<close>

definition demo_conn_env :: "nat \<Rightarrow> nat \<Rightarrow> (epoller, (epoller, 'z) world_scheme) conn_env" where
  "demo_conn_env tid lim =
     \<lparr>ce_loop = \<lparr>vt_update = epoll_upd (\<lambda>_. 0) 0, vt_remove = epoll_rem (\<lambda>_. 0),
                 tm_handler = (\<lambda>_. OtherHandler 0), tm_junk = 0\<rparr>,
      ce_tid = tid, ce_write = (\<lambda>i n. Wrote (min n lim)), ce_readv = (\<lambda>i n. Inr (take n ''ping'')),
      ce_call = (\<lambda>k c. Inr)\<rparr>"

definition demo_tcp :: "conn_state \<Rightarrow> tcp_conn" where
  "demo_tcp st =
     \<lparr>tc_name = ''s#0'', tc_sockfd = 7, tc_peer = ''10.0.0.1:80'', tc_channel = 0,
      tc_highWaterMark = 64 * 1024 * 1024, tc_state = st, tc_connectionCallback = Some 1,
      tc_messageCallback = Some 2, tc_writeCompleteCallback = Some 3, tc_highWaterMarkCallback = None,
      tc_closeCallback = Some 4, tc_inputBuffer = small_buffer, tc_outputBuffer = small_buffer\<rparr>"

definition demo_world :: "conn_state \<Rightarrow> epoller world" where
  "demo_world st =
     \<lparr>el_running = True, el_calling_pending = False, el_thread_id = 0,
      el_poller = \<lparr>channels = [7 \<mapsto> 0], wakeup_channel = 1, epollfd = 3\<rparr>,
      el_heap = (\<lambda>_. setEvent CHANNEL_READ (setWriteHandler (ConnWrite 0) (setReadHandler (ConnRead 0)
                   (Channel_ctor 0 7 False)))),
      el_next_ptr = 2, el_pending = [], el_timers = Map.empty, el_wakeups = 0,
      w_conns = (\<lambda>_. demo_tcp st), w_wire = (\<lambda>_. []), w_shut = (\<lambda>_. False), w_calls = 0\<rparr>"

lemma demo_conn_ok: "conn_ok (demo_world st) c"
  using small_buffer_ok
  by (simp add: conn_ok_def demo_world_def demo_tcp_def conn_chan_def isWriting_def setEvent_def
      content_def small_buffer_def has_def channel_masks)

lemma demo_world_simps [simp]:
  "w_wire (demo_world st) c = []" "queued_out (demo_world st) c = []"
  "w_shut (demo_world st) c = False" "el_pending (demo_world st) = []"
  "tc_state (w_conns (demo_world st) c) = st" "el_thread_id (demo_world st) = 0"
  "tc_highWaterMarkCallback (w_conns (demo_world st) c) = None"
  "tc_sockfd (w_conns (demo_world st) c) = 7" "tc_channel (w_conns (demo_world st) c) = 0"
  "ce_tid (demo_conn_env tid lim) = tid"
  by (simp_all add: demo_world_def demo_tcp_def demo_conn_env_def queued_out_def content_def
      small_buffer_def)

lemma demo_loop_update: "vt_update (ce_loop (demo_conn_env tid lim)) = epoll_upd (\<lambda>_. 0) 0"
  "vt_remove (ce_loop (demo_conn_env tid lim)) = epoll_rem (\<lambda>_. 0)"
  by (simp_all add: demo_conn_env_def)

lemma demo_callbacks: "callbacks_ok {[]} (demo_conn_env tid lim) c"
  by (auto simp: callbacks_ok_def demo_conn_env_def extends_stream_def split: cb_call.splits)

lemma demo_writes: "writes_ok (demo_conn_env tid lim)" "no_reset (demo_conn_env tid lim)"
  by (auto simp: writes_ok_def no_reset_def demo_conn_env_def)

section \<open>Properties\<close>

text \<open>Delivery. Whatever messages are sent on the loop thread and whenever the descriptor
  becomes writable, however many bytes each \<open>write\<close> accepts: as long as no write reports a
  reset connection and callbacks do not send, what the kernel was given followed by what
  is still queued is the old stream followed by exactly the messages, in order, and the
  connection waits for write events exactly while bytes are queued.\<close>

theorem conn_delivery:
  assumes "vt_update (ce_loop env) = epoll_upd sys junk" "callbacks_ok {[]} env c"
    and "writes_ok env" "no_reset env" "conn_ok W c" "msgs_small ops"
    and "run_out env c ops W = Inr (ds, W')"
  shows "w_wire W' c @ queued_out W' c = w_wire W c @ queued_out W c @ concat ds \<and> conn_ok W' c"
  using epc.run_out_stream [OF assms(1) closed_appends_silent assms(2-7)]
  by (auto simp: spliced_silent stream_def)

theorem conn_delivery_witness:
  "\<exists>W'. run_out (demo_conn_env 0 3) 0 [Msg ''hello'', Msg ''!'', Writable] (demo_world kConnected)
          = Inr ([''hello'', ''!''], W') \<and>
        w_wire W' 0 @ queued_out W' 0 = ''hello!'' \<and> conn_ok W' 0"
proof -
  let ?r = "run_out (demo_conn_env 0 3) 0 [Msg ''hello'', Msg ''!'', Writable] (demo_world kConnected)"
  have "case ?r of Inl e \<Rightarrow> False | Inr (ds, W) \<Rightarrow> ds = [''hello'', ''!'']" by code_simp
  then obtain W' where r: "?r = Inr ([''hello'', ''!''], W')" by (auto split: sum.splits)
  have "msgs_small [Msg ''hello'', Msg ''!'', Writable]" by (auto simp: msgs_small_def VEC_MAX_def)
  from conn_delivery [OF demo_loop_update(1) demo_callbacks demo_writes demo_conn_ok this r] r
  show ?thesis by (intro exI [of _ W']) simp
qed

text \<open>C10. With callbacks that send. Let the write-complete, connection, message and close callbacks send
  what they like, made of the bytes in \<open>A\<close>. Then every message given to a live connection is in the
  stream, whole and in the order of the calls, and only bytes of \<open>A\<close> stand before, between and behind
  the messages; and when the messages have no byte of \<open>A\<close> themselves, taking the bytes of \<open>A\<close> out of
  the stream leaves exactly the messages, each once. The high-water callback is assumed not to send: it
  runs in the middle of \<open>sendInLoop\<close>, and what it sends goes out inside the message
  (\<open>high_water_overtakes\<close>). No write reports a reset connection, and the calls are assumed to return.\<close>

theorem conn_delivery_callbacks:
  assumes "vt_update (ce_loop env) = epoll_upd sys junk" "callbacks_ok (lists A) env c"
    and "writes_ok env" "no_reset env" "conn_ok W c" "msgs_small ops"
    and "run_out env c ops W = Inr (ds, W')"
  shows "\<exists>s. w_wire W' c @ queued_out W' c = w_wire W c @ queued_out W c @ s \<and> spliced (lists A) s ds \<and>
    ((\<forall>d\<in>set ds. set d \<inter> A = {}) \<longrightarrow> filter (\<lambda>x. x \<notin> A) s = concat ds)"
  using epc.run_out_stream [OF assms(1) closed_appends_lists assms(2-7)] spliced_filter
  by (auto simp: stream_def)

definition chatty_env :: "nat \<Rightarrow> (epoller, (epoller, 'z) world_scheme) conn_env" where
  "chatty_env lim =
     (demo_conn_env 0 lim)\<lparr>ce_call := (\<lambda>k c W. case k of
        WriteCompleteCb f \<Rightarrow> if w_calls W < 2 then sendInLoop (demo_conn_env 0 lim) c ''+'' W else Inr W
      | _ \<Rightarrow> Inr W)\<rparr>"

lemma chatty_callbacks: "callbacks_ok (lists {CHR ''+''}) (chatty_env lim) c"
proof -
  have "extends_stream (lists {CHR ''+''}) c W W'"
    if "conn_ok W c" "sendInLoop (demo_conn_env 0 lim) c ''+'' W = Inr W'"
    for W W' :: "(epoller, 'a) world_scheme"
  proof (cases "tc_state (w_conns W c) = kDisconnected")
    case True
    with that have "W' = W" by (auto simp: sendInLoop_def)
    with that show ?thesis by (auto intro: extends_refl)
  next
    case False
    have "length ''+'' \<le> VEC_MAX" by (simp add: VEC_MAX_def)
    from epc.sendInLoop_stream [OF demo_loop_update(1) closed_appends_silent demo_callbacks demo_writes(1)
        that(1) this False that(2)]
    show ?thesis by (auto simp: extends_stream_def)
  qed
  then show ?thesis
    by (auto simp: callbacks_ok_def chatty_env_def split: cb_call.splits if_splits intro: extends_refl)
qed

theorem conn_delivery_callbacks_witness:
  "\<exists>s W'. run_out (chatty_env 9) 0 [Msg ''ab'', Msg ''cd''] (demo_world kConnected)
          = Inr ([''ab'', ''cd''], W') \<and>
        w_wire W' 0 @ queued_out W' 0 = s \<and> s = ''ab+cd'' \<and> spliced (lists {CHR ''+''}) s [''ab'', ''cd''] \<and>
        filter (\<lambda>x. x \<notin> {CHR ''+''}) s = concat [''ab'', ''cd'']"
proof -
  let ?r = "run_out (chatty_env 9) 0 [Msg ''ab'', Msg ''cd''] (demo_world kConnected)"
  have "case ?r of Inl e \<Rightarrow> False | Inr (ds, W) \<Rightarrow> ds = [''ab'', ''cd''] \<and> w_wire W 0 @ queued_out W 0 = ''ab+cd''"
    by code_simp
  then obtain W' where r: "?r = Inr ([''ab'', ''cd''], W')" "w_wire W' 0 @ queued_out W' 0 = ''ab+cd''"
    by (auto split: sum.splits)
  have small: "msgs_small [Msg ''ab'', Msg ''cd'']" by (auto simp: msgs_small_def VEC_MAX_def)
  have u: "vt_update (ce_loop (chatty_env 9)) = epoll_upd (\<lambda>_. 0) 0" "writes_ok (chatty_env 9)" "no_reset (chatty_env 9)"
    using demo_writes [of 0 9] by (simp_all add: chatty_env_def writes_ok_def no_reset_def demo_loop_update)
  from conn_delivery_callbacks [OF u(1) chatty_callbacks u(2,3) demo_conn_ok small r(1)] r
  show ?thesis by (intro exI [of _ "''ab+cd''"] exI [of _ W']) (simp del: spliced.simps)
qed

text \<open>The high-water callback runs inside \<open>sendInLoop\<close>, before the message it reports is
  queued: when it answers by sending \<open>m\<close> on the same connection, \<open>m\<close> goes out in front of
  the message that was sent first.\<close>

theorem high_water_overtakes:
  assumes "isLoopThread (ce_tid env) W" "conn_ok W c" "tc_state (w_conns W c) \<noteq> kDisconnected"
    and "queued_out W c \<noteq> []" "data \<noteq> []" "m \<noteq> []"
    and "tc_highWaterMarkCallback (w_conns W c) = Some f"
    and "\<And>n. ce_call env (HighWaterCb f n) c W = sendInLoop env' c m W" "ce_tid env' = ce_tid env"
    and "tc_highWaterMark (w_conns W c) \<le> length (queued_out W c) + length data"
    and "length (queued_out W c) + length m < tc_highWaterMark (w_conns W c)"
    and "length data \<le> VEC_MAX" "length m \<le> VEC_MAX"
    and "sendInLoop env c data W = Inr W'"
  shows "w_wire W' c @ queued_out W' c = w_wire W c @ queued_out W c @ m @ data"
proof -
  let ?out = "tc_outputBuffer (w_conns W c)"
  have ok: "buf_ok ?out" "buf_ok (tc_inputBuffer (w_conns W c))" "isWriting (conn_chan c W)"
    using conn_okD [OF assms(2)] assms(4) by (simp_all add: queued_out_def)
  have rb: "readableBytes ?out = length (queued_out W c)"
    using length_content [OF ok(1)] by (simp add: queued_out_def)
  have sm: "length (queued_out W c) \<le> VEC_MAX"
    using ok(1) by (auto simp: buf_ok_def queued_out_def content_def)
  have sz: "sz_add (length (queued_out W c)) (length d) = length (queued_out W c) + length d"
    if "length d \<le> VEC_MAX" for d :: "char list"
    using that sm by (simp add: sz_add_def VEC_MAX_def SIZE_MOD_def)
  have no: "\<not> (sz_add (length (queued_out W c)) (length m) \<ge> tc_highWaterMark (w_conns W c))"
    using sz [OF assms(13)] assms(11) by simp
  have fires: "sz_add (length (queued_out W c)) (length data) \<ge> tc_highWaterMark (w_conns W c) \<and>
      length (queued_out W c) < tc_highWaterMark (w_conns W c)"
    using sz [OF assms(12)] assms(10,11) by simp
  have inner: "sendInLoop env' c m W =
      bindE (append ?out m (length m)) (\<lambda>b. Inr (upd_conn c (\<lambda>k. k\<lparr>tc_outputBuffer := b\<rparr>) W))"
    using assms(1,3,6,7,9) ok(3) no
    by (simp add: sendInLoop_def try_write_def queue_rest_def Let_def rb)
  have outer: "sendInLoop env c data W = bindE (sendInLoop env' c m W) (\<lambda>W1.
      bindE (append (tc_outputBuffer (w_conns W1 c)) data (length data)) (\<lambda>b.
      let W2 = upd_conn c (\<lambda>k. k\<lparr>tc_outputBuffer := b\<rparr>) W1 in
      if \<not> isWriting (conn_chan c W2)
      then conn_updateChannel env c (set_conn_event c (ch_events (conn_chan c W2) OR CHANNEL_WRITE) W2)
      else Inr W2))"
    using assms(1,3,5,7,8) ok(3) fires
    by (simp add: sendInLoop_def [of env c data] try_write_def queue_rest_def Let_def rb
        run_callback_here)
  obtain b1 where b1: "append ?out m (length m) = Inr b1"
    and q: "bindE (append b1 data (length data))
         (\<lambda>b. Inr (upd_conn c (\<lambda>k. k\<lparr>tc_outputBuffer := b\<rparr>) (upd_conn c (\<lambda>k. k\<lparr>tc_outputBuffer := b1\<rparr>) W))) = Inr W'"
    using assms(14) ok(3) unfolding outer inner by (auto simp: Let_def)
  then obtain b2 where b2: "append b1 data (length data) = Inr b2"
    and W': "W' = upd_conn c (\<lambda>k. k\<lparr>tc_outputBuffer := b2\<rparr>) (upd_conn c (\<lambda>k. k\<lparr>tc_outputBuffer := b1\<rparr>) W)"
    by auto
  have "buf_ok b1" "content b1 = content ?out @ m"
    using append_InrD [OF ok(1) assms(13) b1] by simp_all
  moreover from this have "content b2 = content b1 @ data"
    using append_InrD [OF _ assms(12) b2] by simp
  ultimately show ?thesis by (simp add: W' queued_out_def)
qed

definition brim_world :: "epoller world" where
  "brim_world = upd_conn 0 (\<lambda>k. k\<lparr>tc_highWaterMark := 4, tc_highWaterMarkCallback := Some 5,
       tc_outputBuffer := \<lparr>buf_data = replicate 8 (CHR 0x00) @ ''qq'' @ replicate 9 (CHR 0x00),
                           readerIndex = 8, writerIndex = 10\<rparr>\<rparr>)
     (set_conn_event 0 (CHANNEL_READ OR CHANNEL_WRITE) (demo_world kConnected))"

definition brim_env :: "(epoller, epoller world) conn_env" where
  "brim_env = (demo_conn_env 0 9)\<lparr>ce_call := (\<lambda>k c W. case k of
      HighWaterCb f n \<Rightarrow> sendInLoop (demo_conn_env 0 9) c ''!'' W | _ \<Rightarrow> Inr W)\<rparr>"

theorem high_water_overtakes_witness:
  "\<exists>W'. sendInLoop brim_env 0 ''data'' brim_world = Inr W' \<and>
        w_wire W' 0 @ queued_out W' 0 = ''qq!data''"
proof -
  have "case sendInLoop brim_env 0 ''data'' brim_world of Inl e \<Rightarrow> False | Inr W \<Rightarrow> True" by code_simp
  then obtain W' where r: "sendInLoop brim_env 0 ''data'' brim_world = Inr W'"
    by (auto split: sum.splits)
  have q: "queued_out brim_world 0 = ''qq''" "w_wire brim_world 0 = []"
    "tc_highWaterMark (w_conns brim_world 0) = 4" "tc_state (w_conns brim_world 0) = kConnected"
    "tc_highWaterMarkCallback (w_conns brim_world 0) = Some 5"
    by code_simp+
  have ok: "conn_ok brim_world 0"
    using small_buffer_ok
    by (simp add: conn_ok_def brim_world_def demo_world_def demo_tcp_def isWriting_def setEvent_def
        conn_chan_def on_chan_def set_conn_event_def content_def buf_ok_def buf_const has_def
        channel_masks)
  have lt: "isLoopThread (ce_tid brim_env) brim_world"
    by (simp add: isLoopThread_def brim_env_def brim_world_def upd_conn_def set_conn_event_def)
  have cb: "ce_call brim_env (HighWaterCb 5 n) 0 brim_world = sendInLoop (demo_conn_env 0 9) 0 ''!'' brim_world" for n
    by (simp add: brim_env_def)
  have tid: "ce_tid (demo_conn_env 0 9) = ce_tid brim_env" by (simp add: brim_env_def)
  from high_water_overtakes [where m = "''!''", OF lt ok _ _ _ _ q(5) cb tid _ _ _ _ r] r
  show ?thesis by (simp add: q VEC_MAX_def)
qed

section \<open>The life cycle\<close>

text \<open>\<open>ahead c W W'\<close>: connection \<open>c\<close> has gone no step back.\<close>

definition ahead :: "conn_ptr \<Rightarrow> ('p, 'z) world_scheme \<Rightarrow> ('p, 'z) world_scheme \<Rightarrow> bool" where
  "ahead c W W' \<longleftrightarrow> tc_state (w_conns W c) \<le> tc_state (w_conns W' c)"

lemma queue_world [simp]:
  "w_conns (queueInLoop tid f W) = w_conns W" "w_wire (queueInLoop tid f W) = w_wire W"
  "w_shut (queueInLoop tid f W) = w_shut W" "w_calls (queueInLoop tid f W) = w_calls W"
  by (simp_all add: queueInLoop_def loop_wakeup_def Let_def)

lemma state_upd_conn:
  "tc_state (w_conns (upd_conn d f W) c) = (if c = d then tc_state (f (w_conns W d)) else tc_state (w_conns W c))"
  by simp

interpretation ahead: conn_relation "ahead c" for c
  by unfold_locales (auto simp: ahead_def state_upd_conn setState_def)

fun run_conn where
  "run_conn env c [] W = Inr W"
| "run_conn env c (op # ops) W = bindE (conn_step env c op W) (run_conn env c ops)"

lemma run_conn_ahead:
  "cb_respects (ahead c) env \<Longrightarrow> run_conn env d ops W = Inr W' \<Longrightarrow> ahead c W W'"
  by (induction ops arbitrary: W) (auto dest: ahead.conn_step_R intro: ahead.R_refl ahead.R_trans)

text \<open>C25. A connection passes through its states in the order connecting, connected,
  disconnecting, disconnected and never goes back, through any sequence of public calls,
  events and deferred closures, as long as no callback sets a state back; a disconnected
  connection stays so.\<close>

theorem conn_states_ordered:
  assumes "cb_respects (ahead c) env" "run_conn env c ops W = Inr W'"
  shows "tc_state (w_conns W c) \<le> tc_state (w_conns W' c) \<and>
         (tc_state (w_conns W c) = kDisconnected \<longrightarrow> tc_state (w_conns W' c) = kDisconnected)"
  using run_conn_ahead [OF assms] state_order(5) [of "tc_state (w_conns W' c)"]
  by (auto simp: ahead_def)

theorem conn_states_ordered_witness:
  "\<exists>W'. run_conn (demo_conn_env 0 9) 0 [Establish, SendData ''abc'' 3, ReadEvent, ShutdownOp]
          (demo_world kConnecting) = Inr W' \<and>
        kConnecting \<le> tc_state (w_conns W' 0) \<and> tc_state (w_conns W' 0) = kDisconnecting"
proof -
  let ?r = "run_conn (demo_conn_env 0 9) 0 [Establish, SendData ''abc'' 3, ReadEvent, ShutdownOp]
          (demo_world kConnecting)"
  have "case ?r of Inl e \<Rightarrow> False | Inr W \<Rightarrow> tc_state (w_conns W 0) = kDisconnecting"
    by code_simp
  then obtain W' where r: "?r = Inr W'" "tc_state (w_conns W' 0) = kDisconnecting"
    by (auto split: sum.splits)
  have "cb_respects (ahead 0) (demo_conn_env 0 9)"
    by (simp add: cb_respects_def demo_conn_env_def ahead.R_refl)
  from conn_states_ordered [OF this r(1)] r show ?thesis by auto
qed

section \<open>Events\<close>

lemma handleRead_cases:
  assumes "conn_ok W c" "readv_ok (ce_readv env (w_calls W))"
    and "length (buf_data (tc_inputBuffer (w_conns W c))) + EXTRABUF \<le> VEC_MAX"
  shows "(case ce_readv env (w_calls W) (readFd_capacity (tc_inputBuffer (w_conns W c))) of
            Inl err \<Rightarrow> handleRead env c W = Inr (W\<lparr>w_calls := Suc (w_calls W)\<rparr>)
          | Inr bytes \<Rightarrow> \<exists>b. buf_ok b \<and> content b = content (tc_inputBuffer (w_conns W c)) @ bytes \<and>
              (let W1 = upd_conn c (\<lambda>k. k\<lparr>tc_inputBuffer := b\<rparr>) (W\<lparr>w_calls := Suc (w_calls W)\<rparr>) in
               handleRead env c W =
                 (if bytes = [] then handleClose env c W1
                  else call_cb env (tc_messageCallback (w_conns W c)) MessageCb c W1)))"
proof (cases "ce_readv env (w_calls W) (readFd_capacity (tc_inputBuffer (w_conns W c)))")
  case (Inl err)
  have "upd_conn c (\<lambda>k. k\<lparr>tc_inputBuffer := tc_inputBuffer (w_conns W c)\<rparr>) V = V"
    if "w_conns V = w_conns W" for V :: "('a, 'b) world_scheme"
    by (simp add: upd_conn_def flip: that)
  with Inl show ?thesis
    by (simp add: handleRead_def readFd_error handleError_def Let_def)
next
  case (Inr bytes)
  obtain b where "readFd (ce_readv env (w_calls W)) (tc_inputBuffer (w_conns W c)) = Inr (b, int (length bytes), None)"
    "buf_ok b" "content b = content (tc_inputBuffer (w_conns W c)) @ bytes"
    using readFd_content [OF conn_okD(1) [OF assms(1)] assms(2) Inr assms(3)] by blast
  with Inr show ?thesis by (auto simp: handleRead_def Let_def intro!: exI [of _ b])
qed

text \<open>\<open>handleRead\<close> on each branch. Bytes: they are queued in the input buffer and the message
  callback is called on the result; end of file: the connection closes; an error: it is
  logged, and nothing but the count of calls changes.\<close>

theorem handleRead_branches:
  assumes "conn_ok W c" "readv_ok (ce_readv env (w_calls W))"
    and "length (buf_data (tc_inputBuffer (w_conns W c))) + EXTRABUF \<le> VEC_MAX"
  shows "(case ce_readv env (w_calls W) (readFd_capacity (tc_inputBuffer (w_conns W c))) of
            Inl err \<Rightarrow> handleRead env c W = Inr (W\<lparr>w_calls := Suc (w_calls W)\<rparr>)
          | Inr bytes \<Rightarrow> \<exists>b. buf_ok b \<and> content b = content (tc_inputBuffer (w_conns W c)) @ bytes \<and>
              (let W1 = upd_conn c (\<lambda>k. k\<lparr>tc_inputBuffer := b\<rparr>) (W\<lparr>w_calls := Suc (w_calls W)\<rparr>) in
               handleRead env c W =
                 (if bytes = [] then handleClose env c W1
                  else call_cb env (tc_messageCallback (w_conns W c)) MessageCb c W1)))"
  using assms by (rule handleRead_cases)

theorem handleRead_branches_witness:
  "\<exists>b. content b = ''ping'' \<and>
       handleRead (demo_conn_env 0 9) 0 (demo_world kConnected) =
         Inr (upd_conn 0 (\<lambda>k. k\<lparr>tc_inputBuffer := b\<rparr>) ((demo_world kConnected)\<lparr>w_calls := 1\<rparr>))"
proof -
  have b: "tc_inputBuffer (w_conns (demo_world kConnected) 0) = small_buffer"
    "w_calls (demo_world kConnected) = 0" "tc_messageCallback (w_conns (demo_world kConnected) 0) = Some 2"
    by (simp_all add: demo_world_def demo_tcp_def)
  have c: "readFd_capacity small_buffer = 65544" "content small_buffer = []"
    by code_simp+
  have rv: "readv_ok (ce_readv (demo_conn_env 0 9) i)" for i
    by (simp add: readv_ok_def demo_conn_env_def)
  have len: "length (buf_data (tc_inputBuffer (w_conns (demo_world kConnected) 0))) + EXTRABUF \<le> VEC_MAX"
    by (simp add: b small_buffer_def EXTRABUF_def VEC_MAX_def)
  have r: "ce_readv (demo_conn_env 0 9) 0 65544 = Inr ''ping''" by (simp add: demo_conn_env_def)
  from handleRead_branches [OF demo_conn_ok rv len] show ?thesis
    by (simp add: b c r call_cb_def) (auto simp: Let_def demo_conn_env_def)
qed

lemma handleClose_effect:
  assumes "vt_remove (ce_loop env) = epoll_rem sys" "\<And>call. 0 \<le> sys call"
    and "isLoopThread (ce_tid env) W"
    and "tc_state (w_conns W c) = kConnected \<or> tc_state (w_conns W c) = kDisconnecting"
  shows "\<exists>W1. handleClose env c W = call_cb env (tc_closeCallback (w_conns W c)) CloseCb c W1 \<and>
           tc_state (w_conns W1 c) = kDisconnected \<and>
           channels (el_poller W1) (ch_fd (conn_chan c W)) = None \<and>
           (\<forall>fd. fd \<noteq> ch_fd (conn_chan c W) \<longrightarrow> channels (el_poller W1) fd = channels (el_poller W) fd) \<and>
           sendInLoop env c data W1 = Inr W1 \<and> send_piece env c s W1 = Inr W1 \<and>
           handleClose env c W1 = Inl AssertFailed"
proof -
  let ?W1 = "do_remove (ce_loop env) (tc_channel (w_conns W c)) (setState kDisconnected c W)"
  have sys: "\<not> sys call < 0" for call using assms(2) [of call] by simp
  have lt: "isLoopThread (ce_tid env) (setState kDisconnected c W)" "isLoopThread (ce_tid env) ?W1"
    using assms(3) by (simp_all add: isLoopThread_def setState_def)
  have cb: "tc_closeCallback (w_conns ?W1 c) = tc_closeCallback (w_conns W c)"
    by (simp add: setState_def)
  have "removeChannel (ce_loop env) (ce_tid env) (tc_channel (w_conns W c)) (setState kDisconnected c W) = Inr ?W1"
    using lt(1) by (simp add: removeChannel_def runInLoop_def)
  then have "handleClose env c W = call_cb env (tc_closeCallback (w_conns W c)) CloseCb c ?W1"
    using assms(3,4) cb by (auto simp: handleClose_def)
  moreover have st: "tc_state (w_conns ?W1 c) = kDisconnected" by (simp add: setState_def)
  moreover have "channels (el_poller ?W1) = (channels (el_poller W))(ch_fd (conn_chan c W) := None)"
    by (auto simp: do_remove_def assms(1) epoll_rem_def epoll_remove_def Let_def sys setState_def
        conn_chan_def)
  moreover have "sendInLoop env c data ?W1 = Inr ?W1" using st lt(2) by (simp add: sendInLoop_def)
  moreover have "send_piece env c s ?W1 = Inr ?W1" using st by (simp add: send_piece_def)
  moreover have "handleClose env c ?W1 = Inl AssertFailed" using st lt(2) by (simp add: handleClose_def)
  ultimately show ?thesis by (intro exI [of _ ?W1]) simp
qed

text \<open>Closing: on a connection that is connected or disconnecting, \<open>handleClose\<close> on the loop
  thread sets it to disconnected and takes its descriptor off the poller before the close
  callback runs; once disconnected, sending does nothing, and a second \<open>handleClose\<close> fails
  its assert.\<close>

theorem handleClose_behaviour:
  assumes "vt_remove (ce_loop env) = epoll_rem sys" "\<And>call. 0 \<le> sys call"
    and "isLoopThread (ce_tid env) W"
    and "tc_state (w_conns W c) = kConnected \<or> tc_state (w_conns W c) = kDisconnecting"
  shows "\<exists>W1. handleClose env c W = call_cb env (tc_closeCallback (w_conns W c)) CloseCb c W1 \<and>
           tc_state (w_conns W1 c) = kDisconnected \<and>
           channels (el_poller W1) (ch_fd (conn_chan c W)) = None \<and>
           (\<forall>fd. fd \<noteq> ch_fd (conn_chan c W) \<longrightarrow> channels (el_poller W1) fd = channels (el_poller W) fd) \<and>
           sendInLoop env c data W1 = Inr W1 \<and> send_piece env c s W1 = Inr W1 \<and>
           handleClose env c W1 = Inl AssertFailed"
  using assms by (rule handleClose_effect)

theorem handleClose_behaviour_witness:
  "\<exists>W1. handleClose (demo_conn_env 0 9) 0 (demo_world kConnected) = Inr W1 \<and>
        tc_state (w_conns W1 0) = kDisconnected \<and> channels (el_poller W1) 7 = None"
proof -
  have lt: "isLoopThread (ce_tid (demo_conn_env 0 9)) (demo_world kConnected)"
    by (simp add: isLoopThread_def)
  have fd: "ch_fd (conn_chan 0 (demo_world kConnected)) = 7"
    by (simp add: conn_chan_def demo_world_def demo_tcp_def channel_ops Channel_ctor_def)
  have cb: "call_cb (demo_conn_env 0 9) (tc_closeCallback (w_conns (demo_world kConnected) 0)) CloseCb 0 V = Inr V"
    for V :: "epoller world"
    by (simp add: call_cb_def demo_world_def demo_tcp_def demo_conn_env_def)
  have "\<And>call. 0 \<le> (\<lambda>_. 0 :: int) (call :: sys_call)" by simp
  from handleClose_behaviour [OF demo_loop_update(2) this lt, of 0 "[]" "sp_of_string []"]
  show ?thesis by (auto simp: fd cb)
qed

lemma send_other_thread_effect:
  assumes "tc_state (w_conns W c) = kConnected" "\<not> isLoopThread (ce_tid env) W"
    and "length d < 2147483648"
  shows "send_data env c d (int (length d)) W =
           Inr (W\<lparr>el_pending := el_pending W @ [UserFn (SendInLoopFn c d)],
                  el_wakeups := Suc (el_wakeups W)\<rparr>) \<and>
         conn_exec env' other (SendInLoopFn c d) V = sendInLoop env' c d V"
proof -
  have p: "sp_ok (sp_of_ptr d (int (length d)))" "sp_text (sp_of_ptr d (int (length d))) = d"
    using assms(3) by (simp_all add: sp_of_ptr_def sp_ok_def sp_text_def)
  have "piece_bytes (sp_of_string d) = Inr d"
    using assms(3) by (simp add: piece_bytes_def sp_of_string_def int_of_size_small size_of_int_nonneg)
  then show ?thesis
    using assms(1,2)
    by (simp add: send_data_def send_piece_def as_string_text [OF p(1)] p(2) runInLoop_def
        queueInLoop_def loop_wakeup_def isLoopThread_def Let_def conn_exec_def sendInLoop_piece_def)
qed

text \<open>\<open>send\<close> from another thread touches nothing but the queue of functors: it leaves a
  closure with a copy of the bytes and wakes the loop, and calling that closure on the loop
  thread is \<open>sendInLoop\<close> of these bytes.\<close>

theorem send_from_other_thread:
  assumes "tc_state (w_conns W c) = kConnected" "\<not> isLoopThread (ce_tid env) W"
    and "length d < 2147483648"
  shows "send_data env c d (int (length d)) W =
           Inr (W\<lparr>el_pending := el_pending W @ [UserFn (SendInLoopFn c d)],
                  el_wakeups := Suc (el_wakeups W)\<rparr>) \<and>
         conn_exec env' other (SendInLoopFn c d) V = sendInLoop env' c d V"
  using assms by (rule send_other_thread_effect)

theorem send_from_other_thread_witness:
  "\<exists>W1. send_data (demo_conn_env 5 9) 0 ''abc'' 3 (demo_world kConnected) = Inr W1 \<and>
        el_pending W1 = [UserFn (SendInLoopFn 0 ''abc'')] \<and> w_wire W1 0 = [] \<and>
        conn_exec (demo_conn_env 0 9) (\<lambda>_. Inr) (SendInLoopFn 0 ''abc'') W1 =
          sendInLoop (demo_conn_env 0 9) 0 ''abc'' W1"
proof -
  have "tc_state (w_conns (demo_world kConnected) 0) = kConnected"
    "\<not> isLoopThread (ce_tid (demo_conn_env 5 9)) (demo_world kConnected)" "length ''abc'' < 2147483648"
    by (simp_all add: isLoopThread_def)
  note s = send_from_other_thread [OF this, of "demo_conn_env 0 9" "\<lambda>_. Inr"]
  from s [THEN conjunct1] s [THEN conjunct2] show ?thesis by simp
qed

section \<open>Draining the output\<close>

text \<open>Callbacks that leave the connection alone.\<close>

definition same_conn :: "conn_ptr \<Rightarrow> ('p, 'z) world_scheme \<Rightarrow> ('p, 'z) world_scheme \<Rightarrow> bool" where
  "same_conn c W W' \<longleftrightarrow>
     w_conns W' c = w_conns W c \<and> w_wire W' c = w_wire W c \<and> w_shut W' c = w_shut W c \<and>
     ch_events (conn_chan c W') = ch_events (conn_chan c W) \<and> el_thread_id W' = el_thread_id W"

definition inert_callbacks :: "('p, ('p, 'z) world_scheme) conn_env \<Rightarrow> conn_ptr \<Rightarrow> bool" where
  "inert_callbacks env c \<longleftrightarrow> (\<forall>k W W'. ce_call env k c W = Inr W' \<longrightarrow> same_conn c W W')"

lemma same_conn_refl [simp]: "same_conn c W W"
  by (simp add: same_conn_def)

lemma same_conn_trans: "same_conn c W W1 \<Longrightarrow> same_conn c W1 W2 \<Longrightarrow> same_conn c W W2"
  by (simp add: same_conn_def)

lemma inert_run:
  "inert_callbacks env c \<Longrightarrow> isLoopThread (ce_tid env) W \<Longrightarrow> run_callback env k c W = Inr W' \<Longrightarrow>
   same_conn c W W'"
  by (simp add: run_callback_here inert_callbacks_def)

lemma inert_callbacks_ok:
  assumes "inert_callbacks env c"
  shows "callbacks_ok {[]} env c"
proof -
  have "same_out c W W'" if "ce_call env k c W = Inr W'" for k W W'
    using assms that by (auto simp: inert_callbacks_def same_conn_def same_out_def)
  then show ?thesis
    by (auto simp: callbacks_ok_def split: cb_call.splits intro: same_out_extends)
qed

lemma same_conn_stream:
  "same_conn c W W' \<Longrightarrow> stream W' c = stream W c \<and> queued_out W' c = queued_out W c"
  by (simp add: same_conn_def stream_def queued_out_def)

context conn_poller
begin

lemma update_same_conn:
  assumes "vt_update (ce_loop env) = upd" "isLoopThread (ce_tid env) W"
    and "conn_updateChannel env c W = Inr W'"
  shows "same_conn c W W'"
  using updateChannel_same_out [OF assms, of c] by (simp add: same_conn_def same_out_def)

lemma output_drained_inert:
  assumes env: "vt_update (ce_loop env) = upd" and cb: "inert_callbacks env c"
    and lt: "isLoopThread (ce_tid env) W" and d: "output_drained env c W = Inr W'"
  shows "w_conns W' c = w_conns W c \<and> w_wire W' c = w_wire W c \<and> ch_events (conn_chan c W') = 0 \<and>
         el_thread_id W' = el_thread_id W \<and>
         w_shut W' c = (w_shut W c \<or> tc_state (w_conns W c) = kDisconnecting)"
proof -
  let ?W0 = "set_conn_event c (ch_events (conn_chan c W) AND c_not CHANNEL_WRITE) W"
  obtain W1 W2 where u: "conn_updateChannel env c ?W0 = Inr W1"
    and w: "(case tc_writeCompleteCallback (w_conns W1 c) of
              Some f \<Rightarrow> run_callback env (WriteCompleteCb f) c W1 | None \<Rightarrow> Inr W1) = Inr W2"
    and s: "(if tc_state (w_conns W2 c) = kDisconnecting then shutdownInLoop env c W2 else Inr W2) = Inr W'"
    using d by (auto simp: output_drained_def)
  have lt0: "isLoopThread (ce_tid env) ?W0" using lt by (simp add: isLoopThread_def)
  have s1: "same_conn c ?W0 W1" using env lt0 u by (rule update_same_conn)
  then have lt1: "isLoopThread (ce_tid env) W1" using lt0 by (simp add: isLoopThread_def same_conn_def)
  then have "same_conn c W1 W2"
    using w inert_run [OF cb lt1] by (auto split: option.splits)
  with s1 have "same_conn c ?W0 W2" by (rule same_conn_trans)
  then have W2: "w_conns W2 c = w_conns W c" "w_wire W2 c = w_wire W c" "w_shut W2 c = w_shut W c"
    "ch_events (conn_chan c W2) = 0" "el_thread_id W2 = el_thread_id W"
    by (simp_all add: same_conn_def setEvent_def)
  show ?thesis
  proof (cases "tc_state (w_conns W c) = kDisconnecting")
    case True
    then have "W' = W2\<lparr>w_shut := (w_shut W2)(c := True)\<rparr>"
      using s W2 by (auto simp: shutdownInLoop_def isWriting_def has_def)
    with True W2 show ?thesis by simp
  next
    case False
    with s W2 show ?thesis by simp
  qed
qed

text \<open>What a write event does to a connection with bytes queued.\<close>

lemma handleWrite_inert:
  assumes env: "vt_update (ce_loop env) = upd" and cb: "inert_callbacks env c"
    and ok: "conn_ok W c" and wr: "isWriting (conn_chan c W)" and h: "handleWrite env c W = Inr W'"
  shows "tc_state (w_conns W' c) = tc_state (w_conns W c) \<and> el_thread_id W' = el_thread_id W \<and>
    (if queued_out W' c = []
     then ch_events (conn_chan c W') = 0 \<and>
          w_shut W' c = (w_shut W c \<or> tc_state (w_conns W c) = kDisconnecting)
     else ch_events (conn_chan c W') = ch_events (conn_chan c W) \<and> w_shut W' c = w_shut W c)"
proof (cases "case ce_write env (w_calls W) (readableBytes (tc_outputBuffer (w_conns W c))) of
       Wrote n \<Rightarrow> 0 < n | WriteErr e \<Rightarrow> False")
  case False
  then have "W' = W\<lparr>w_calls := Suc (w_calls W)\<rparr>"
    using h wr by (auto simp: handleWrite_def Let_def split: write_result.splits)
  with wr conn_okD(3) [OF ok] show ?thesis by (simp add: queued_out_def)
next
  case True
  let ?out = "tc_outputBuffer (w_conns W c)"
  let ?W1 = "W\<lparr>w_calls := Suc (w_calls W)\<rparr>"
  have lt: "isLoopThread (ce_tid env) W" using h by (auto simp: handleWrite_def)
  obtain n where n: "0 < n" "ce_write env (w_calls W) (readableBytes ?out) = Wrote n"
    using True by (auto split: write_result.splits)
  then obtain b where r: "retrieve ?out n = Inr b" and
    rest: "(let W2 = upd_conn c (\<lambda>k. k\<lparr>tc_outputBuffer := b\<rparr>)
                       (?W1\<lparr>w_wire := (w_wire ?W1)(c := w_wire ?W1 c @ take n (content ?out))\<rparr>)
            in if readableBytes b = 0 then output_drained env c W2 else Inr W2) = Inr W'"
    using h wr by (auto simp: handleWrite_def Let_def)
  let ?W2 = "upd_conn c (\<lambda>k. k\<lparr>tc_outputBuffer := b\<rparr>)
               (?W1\<lparr>w_wire := (w_wire ?W1)(c := w_wire ?W1 c @ take n (content ?out))\<rparr>)"
  have b: "length (content b) = readableBytes b"
    using retrieve_content [OF conn_okD(2) [OF ok] r] length_content [of b] by blast
  have lt2: "isLoopThread (ce_tid env) ?W2" using lt by (simp add: isLoopThread_def)
  show ?thesis
  proof (cases "readableBytes b = 0")
    case True
    then have "output_drained env c ?W2 = Inr W'" using rest by (simp add: Let_def)
    from output_drained_inert [OF env cb lt2 this] True b show ?thesis by (simp add: queued_out_def)
  next
    case False
    with rest b show ?thesis by (auto simp: Let_def queued_out_def)
  qed
qed

end

lemma demo_inert: "inert_callbacks (demo_conn_env tid lim) c"
  by (auto simp: inert_callbacks_def demo_conn_env_def)

context conn_poller
begin

lemma try_write_inert:
  assumes cb: "inert_callbacks env c" and lt: "isLoopThread (ce_tid env) W"
    and t: "try_write env c data W = Inr (n, r, e, W1)"
  shows "ch_events (conn_chan c W1) = ch_events (conn_chan c W) \<and> el_thread_id W1 = el_thread_id W"
proof (cases "\<not> isWriting (conn_chan c W) \<and> readableBytes (tc_outputBuffer (w_conns W c)) = 0")
  case False
  with t show ?thesis by (auto simp: try_write_def Let_def)
next
  case direct: True
  let ?V = "W\<lparr>w_calls := Suc (w_calls W)\<rparr>"
  show ?thesis
  proof (cases "ce_write env (w_calls W) (length data)")
    case (WriteErr err)
    with t direct have "W1 = ?V" by (auto simp: try_write_def Let_def)
    then show ?thesis by simp
  next
    case (Wrote k)
    let ?V2 = "?V\<lparr>w_wire := (w_wire ?V)(c := w_wire ?V c @ take k data)\<rparr>"
    have "W1 = ?V2 \<or> (\<exists>f. run_callback env (WriteCompleteCb f) c ?V2 = Inr W1)"
      using t direct Wrote
      by (cases "tc_writeCompleteCallback (w_conns W c)") (auto simp: try_write_def Let_def split: if_splits)
    moreover have "isLoopThread (ce_tid env) ?V2" using lt by (simp add: isLoopThread_def)
    then have "same_conn c ?V2 W1" if "run_callback env k c ?V2 = Inr W1" for k
      using inert_run [OF cb _ that] by simp
    ultimately have "same_conn c ?V2 W1" by auto
    then show ?thesis by (simp add: same_conn_def)
  qed
qed

lemma sendInLoop_not_reading:
  assumes env: "vt_update (ce_loop env) = upd" and cb: "inert_callbacks env c"
    and s: "sendInLoop env c data W = Inr W'"
  shows "isReading (conn_chan c W') = isReading (conn_chan c W)"
proof (cases "tc_state (w_conns W c) = kDisconnected")
  case True
  with s show ?thesis by (auto simp: sendInLoop_def)
next
  case False
  have lt: "isLoopThread (ce_tid env) W" using s by (auto simp: sendInLoop_def)
  obtain n r e W1 where t: "try_write env c data W = Inr (n, r, e, W1)"
    and q: "(if \<not> e \<and> 0 < r then queue_rest env c data n r W1 else Inr W1) = Inr W'"
    using s False by (auto simp: sendInLoop_def)
  have inert: "ch_events (conn_chan c V') = ch_events (conn_chan c V) \<and> el_thread_id V' = el_thread_id V"
    if "el_thread_id V = el_thread_id W" "run_callback env k c V = Inr V'" for k V V'
    using inert_run [OF cb _ that(2)] that(1) lt by (auto simp: same_conn_def isLoopThread_def)
  have 1: "ch_events (conn_chan c W1) = ch_events (conn_chan c W) \<and> el_thread_id W1 = el_thread_id W"
    using cb lt t by (rule try_write_inert)
  show ?thesis
  proof (cases "\<not> e \<and> 0 < r")
    case False
    with q 1 show ?thesis by (auto simp: isReading_def)
  next
    case True
    let ?out = "tc_outputBuffer (w_conns W1 c)"
    obtain W2 b where
      hw: "(case tc_highWaterMarkCallback (w_conns W1 c) of
            Some f \<Rightarrow> if tc_highWaterMark (w_conns W1 c) \<le> sz_add (readableBytes ?out) r
                        \<and> readableBytes ?out < tc_highWaterMark (w_conns W1 c)
                     then run_callback env (HighWaterCb f (sz_add (readableBytes ?out) r)) c W1
                     else Inr W1
          | None \<Rightarrow> Inr W1) = Inr W2"
      and e: "(let W3 = upd_conn c (\<lambda>k. k\<lparr>tc_outputBuffer := b\<rparr>) W2 in
             if \<not> isWriting (conn_chan c W3)
             then conn_updateChannel env c (set_conn_event c (ch_events (conn_chan c W3) OR CHANNEL_WRITE) W3)
             else Inr W3) = Inr W'"
    proof -
      have "queue_rest env c data n r W1 = Inr W'" using q True by simp
      then show ?thesis using that by (auto simp: queue_rest_def Let_def)
    qed
    have 2: "ch_events (conn_chan c W2) = ch_events (conn_chan c W) \<and> el_thread_id W2 = el_thread_id W"
    proof -
      have "W2 = W1 \<or> (\<exists>k. run_callback env k c W1 = Inr W2)"
        using hw by (auto split: option.splits if_splits)
      then show ?thesis
      proof (elim disjE exE)
        fix k
        assume "run_callback env k c W1 = Inr W2"
        with 1 inert [of W1 k W2] show ?thesis by simp
      qed (use 1 in simp)
    qed
    let ?W3 = "upd_conn c (\<lambda>k. k\<lparr>tc_outputBuffer := b\<rparr>) W2"
    let ?W4 = "set_conn_event c (ch_events (conn_chan c ?W3) OR CHANNEL_WRITE) ?W3"
    have "ch_events (conn_chan c W') = ch_events (conn_chan c W) \<or>
          ch_events (conn_chan c W') = ch_events (conn_chan c W) OR CHANNEL_WRITE"
    proof (cases "isWriting (conn_chan c ?W3)")
      case True
      with e 2 show ?thesis by (auto simp: Let_def)
    next
      case False
      then have u: "conn_updateChannel env c ?W4 = Inr W'" using e by (simp add: Let_def)
      have "isLoopThread (ce_tid env) ?W4" using 2 lt by (simp add: isLoopThread_def)
      from update_same_conn [OF env this u] 2 show ?thesis by (simp add: same_conn_def setEvent_def)
    qed
    then show ?thesis
      by (auto simp: isReading_def has_or) (simp add: has_def channel_masks)
  qed
qed

lemma run_out_not_reading:
  assumes "vt_update (ce_loop env) = upd" "inert_callbacks env c" "writes_ok env" "no_reset env"
  shows "conn_ok W c \<Longrightarrow> msgs_small ops \<Longrightarrow> \<not> isReading (conn_chan c W) \<Longrightarrow>
         run_out env c ops W = Inr (ds, W') \<Longrightarrow> \<not> isReading (conn_chan c W')"
proof (induction ops arbitrary: W ds)
  case (Cons x ops)
  have small: "msgs_small ops" using Cons.prems(2) by (simp add: msgs_small_def)
  note cb = inert_callbacks_ok [OF assms(2)]
  show ?case
  proof (cases x)
    case Writable
    with Cons.prems(4) obtain W1 where W1: "handleWrite env c W = Inr W1" "run_out env c ops W1 = Inr (ds, W')"
      by auto
    have "conn_ok W1 c"
      using handleWrite_extends [OF assms(1) closed_appends_silent cb Cons.prems(1) W1(1)] by (rule extends_ok)
    moreover have "\<not> isReading (conn_chan c W1)"
    proof (cases "isWriting (conn_chan c W)")
      case True
      from handleWrite_inert [OF assms(1,2) Cons.prems(1) True W1(1)] Cons.prems(3) show ?thesis
        by (auto simp: isReading_def has_def split: if_splits)
    next
      case False
      with W1(1) Cons.prems(3) show ?thesis by (auto simp: handleWrite_def)
    qed
    ultimately show ?thesis using Cons.IH small W1(2) by blast
  next
    case (Msg d)
    with Cons.prems(4) obtain W1 ds1 where W1: "sendInLoop env c d W = Inr W1" "run_out env c ops W1 = Inr (ds1, W')"
      by auto
    have "run_out env c [Msg d] W = Inr (if tc_state (w_conns W c) = kDisconnected then [] else [d], W1)"
      using W1(1) by simp
    then have "conn_ok W1 c"
      using run_out_stream [OF assms(1) closed_appends_silent cb assms(3,4) Cons.prems(1), of "[Msg d]"]
        Cons.prems(2) Msg by (auto simp: msgs_small_def)
    moreover have "\<not> isReading (conn_chan c W1)"
      using sendInLoop_not_reading [OF assms(1,2) W1(1)] Cons.prems(3) by simp
    ultimately show ?thesis using Cons.IH small W1(2) by blast
  qed
qed simp

end

end
