(* ===== verification/ConnTotal.thy ===== *)
theory ConnTotal
  imports TcpProps
begin

text \<open>
  The sending side of a connection does not fail: when the callbacks it has return, the buffer can still
  grow and the kernel accepts no more than it is given, \<open>sendInLoop\<close> and \<open>handleWrite\<close> run through. With
  the stream of TcpProps this makes delivery unconditional.
\<close>

section \<open>Every call returns\<close>

text \<open>A callback that returns and leaves connection \<open>c\<close> alone.\<close>

definition untouched :: "conn_ptr \<Rightarrow> ('p, 'z) world_scheme \<Rightarrow> ('p, 'z) world_scheme \<Rightarrow> bool" where
  "untouched c W W' \<longleftrightarrow> same_out c W W' \<and> w_conns W' c = w_conns W c"

definition callbacks_return :: "('p, ('p, 'z) world_scheme) conn_env \<Rightarrow> conn_ptr \<Rightarrow> tcp_conn \<Rightarrow> bool" where
  "callbacks_return env c k \<longleftrightarrow>
     (\<forall>f W. tc_writeCompleteCallback k = Some f \<longrightarrow>
        (\<exists>W'. ce_call env (WriteCompleteCb f) c W = Inr W' \<and> untouched c W W')) \<and>
     (\<forall>f n W. tc_highWaterMarkCallback k = Some f \<longrightarrow>
        (\<exists>W'. ce_call env (HighWaterCb f n) c W = Inr W' \<and> untouched c W W'))"

text \<open>Only the output buffer of connection \<open>c\<close> has changed, and its writer moved by \<open>n\<close> bytes at most.\<close>

definition filled :: "conn_ptr \<Rightarrow> nat \<Rightarrow> ('p, 'z) world_scheme \<Rightarrow> ('p, 'z) world_scheme \<Rightarrow> bool" where
  "filled c n W W' \<longleftrightarrow> el_thread_id W' = el_thread_id W \<and>
     (\<exists>b. w_conns W' c = (w_conns W c)\<lparr>tc_outputBuffer := b\<rparr> \<and>
          fill b \<le> fill (tc_outputBuffer (w_conns W c)) + n)"

lemma filled_same: "w_conns W' c = w_conns W c \<Longrightarrow> el_thread_id W' = el_thread_id W \<Longrightarrow> filled c n W W'"
  by (auto simp: filled_def intro!: exI [of _ "tc_outputBuffer (w_conns W c)"])

lemma untouched_filled: "untouched c W W' \<Longrightarrow> filled c n W W'"
  by (rule filled_same) (simp_all add: untouched_def same_out_def)

lemma filled_trans:
  assumes "filled c m W W1" "filled c n W1 W2"
  shows "filled c (m + n) W W2"
  using assms by (fastforce simp: filled_def)

lemma filled_callbacks: "filled c n W W' \<Longrightarrow> callbacks_return env c (w_conns W' c) = callbacks_return env c (w_conns W c)"
  by (auto simp: filled_def callbacks_return_def)

lemma update_here:
  "isLoopThread (ce_tid env) W \<Longrightarrow>
   conn_updateChannel env c W = Inr (do_update (ce_loop env) (tc_channel (w_conns W c)) W)"
  by (simp add: conn_updateChannel_def updateChannel_def runInLoop_here)

lemma write_complete_returns:
  assumes "callbacks_return env c (w_conns W c)" "isLoopThread (ce_tid env) W"
  shows "\<exists>W'. (case tc_writeCompleteCallback (w_conns W c) of
      Some f \<Rightarrow> run_callback env (WriteCompleteCb f) c W | None \<Rightarrow> Inr W) = Inr W' \<and> untouched c W W'"
proof (cases "tc_writeCompleteCallback (w_conns W c)")
  case None
  then show ?thesis by (simp add: untouched_def)
next
  case (Some f)
  with assms show ?thesis by (simp add: callbacks_return_def run_callback_here)
qed

lemma try_write_total:
  assumes cb: "callbacks_return env c (w_conns W c)" and wr: "writes_ok env" and lt: "isLoopThread (ce_tid env) W"
    and len: "length d \<le> VEC_MAX"
  shows "\<exists>n r e W1. try_write env c d W = Inr (n, r, e, W1) \<and> r = length d - n \<and>
    w_conns W1 c = w_conns W c \<and> el_thread_id W1 = el_thread_id W"
proof -
  let ?out = "tc_outputBuffer (w_conns W c)"
  show ?thesis
  proof (cases "\<not> isWriting (conn_chan c W) \<and> readableBytes ?out = 0")
    case False
    then show ?thesis by (auto simp: try_write_def Let_def)
  next
    case direct: True
    show ?thesis
    proof (cases "ce_write env (w_calls W) (length d)")
      case (WriteErr e)
      with direct show ?thesis by (simp add: try_write_def Let_def)
    next
      case (Wrote n)
      then have "n \<le> length d" using wr by (auto simp: writes_ok_def)
      then have sub: "sz_sub (length d) n = length d - n"
        using len by (intro sz_sub_le) (auto simp: VEC_MAX_def SIZE_MOD_def)
      let ?V = "W\<lparr>w_calls := Suc (w_calls W), w_wire := (w_wire W)(c := w_wire W c @ take n d)\<rparr>"
      obtain W1 where W1: "(case tc_writeCompleteCallback (w_conns W c) of
          Some f \<Rightarrow> run_callback env (WriteCompleteCb f) c ?V | None \<Rightarrow> Inr ?V) = Inr W1" "untouched c ?V W1"
        using write_complete_returns [of env c ?V] cb lt by (auto simp: isLoopThread_def)
      have "try_write env c d W = Inr (n, length d - n, False, if length d \<le> n then W1 else ?V)"
        using direct Wrote sub W1(1) by (auto simp: try_write_def Let_def split: option.splits)
      moreover have "w_conns W1 c = w_conns W c" "el_thread_id W1 = el_thread_id W"
        using W1(2) by (simp_all add: untouched_def same_out_def)
      ultimately have "\<exists>W2. try_write env c d W = Inr (n, length d - n, False, W2) \<and>
          w_conns W2 c = w_conns W c \<and> el_thread_id W2 = el_thread_id W"
        by (cases "length d \<le> n") auto
      then show ?thesis by blast
    qed
  qed
qed

lemma queue_rest_total:
  assumes cb: "callbacks_return env c (w_conns W c)" and lt: "isLoopThread (ce_tid env) W"
    and ok: "buf_ok (tc_outputBuffer (w_conns W c))" and r: "r = length d - n"
    and room: "fill (tc_outputBuffer (w_conns W c)) + length d \<le> VEC_MAX"
  shows "\<exists>W'. queue_rest env c d n r W = Inr W' \<and> filled c (length d) W W'"
proof -
  let ?out = "tc_outputBuffer (w_conns W c)"
  obtain W1 where hw: "(case tc_highWaterMarkCallback (w_conns W c) of
       Some f \<Rightarrow> if tc_highWaterMark (w_conns W c) \<le> sz_add (readableBytes ?out) r \<and>
                    readableBytes ?out < tc_highWaterMark (w_conns W c)
                 then run_callback env (HighWaterCb f (sz_add (readableBytes ?out) r)) c W else Inr W
     | None \<Rightarrow> Inr W) = Inr W1" and u: "untouched c W W1"
  proof (cases "tc_highWaterMarkCallback (w_conns W c)")
    case None
    then show ?thesis by (intro that [of W]) (simp_all add: untouched_def)
  next
    case (Some f)
    obtain V where "ce_call env (HighWaterCb f (sz_add (readableBytes ?out) r)) c W = Inr V" "untouched c W V"
      using cb Some unfolding callbacks_return_def by blast
    with Some lt show ?thesis
      by (intro that [of "if tc_highWaterMark (w_conns W c) \<le> sz_add (readableBytes ?out) r \<and>
          readableBytes ?out < tc_highWaterMark (w_conns W c) then V else W"])
        (auto simp: run_callback_here untouched_def)
  qed
  have W1: "w_conns W1 c = w_conns W c" "el_thread_id W1 = el_thread_id W"
    using u by (simp_all add: untouched_def same_out_def)
  have "writerIndex ?out + length (drop n d) \<le> VEC_MAX" using room by (simp add: fill_def)
  from append_total [OF ok this] obtain b where b: "append ?out (drop n d) (length (drop n d)) = Inr b" by blast
  have w: "fill b \<le> fill ?out + length d" using append_fill [OF ok b] by simp
  let ?W2 = "upd_conn c (\<lambda>k. k\<lparr>tc_outputBuffer := b\<rparr>) W1"
  have "isLoopThread (ce_tid env) (set_conn_event c e ?W2)" for e
    using lt W1(2) by (simp add: isLoopThread_def)
  moreover have "queue_rest env c d n r W =
      (if \<not> isWriting (conn_chan c ?W2)
       then conn_updateChannel env c (set_conn_event c (ch_events (conn_chan c ?W2) OR CHANNEL_WRITE) ?W2)
       else Inr ?W2)"
    unfolding queue_rest_def Let_def hw using b r W1 by simp
  ultimately have "\<exists>W'. queue_rest env c d n r W = Inr W' \<and> w_conns W' = w_conns ?W2 \<and> el_thread_id W' = el_thread_id W"
    using W1(2) by (simp add: update_here)
  then show ?thesis using W1 w by (auto simp: filled_def)
qed

lemma sendInLoop_total:
  assumes "callbacks_return env c (w_conns W c)" "writes_ok env" "isLoopThread (ce_tid env) W"
    and "buf_ok (tc_outputBuffer (w_conns W c))"
    and "fill (tc_outputBuffer (w_conns W c)) + length d \<le> VEC_MAX"
  shows "\<exists>W'. sendInLoop env c d W = Inr W' \<and> filled c (length d) W W'"
proof (cases "tc_state (w_conns W c) = kDisconnected")
  case True
  with assms(3) show ?thesis by (auto simp: sendInLoop_def intro: filled_same)
next
  case False
  obtain n r e W1 where t: "try_write env c d W = Inr (n, r, e, W1)" "r = length d - n"
    "w_conns W1 c = w_conns W c" "el_thread_id W1 = el_thread_id W"
    using try_write_total [OF assms(1-3), of d] assms(5) by auto
  obtain W2 where "queue_rest env c d n r W1 = Inr W2" "filled c (length d) W1 W2"
    using queue_rest_total [of env c W1 r d n] t assms(1,3-5) by (auto simp: isLoopThread_def)
  moreover from this(2) have "filled c (length d) W W2" using t(3,4) by (simp add: filled_def)
  moreover have "filled c (length d) W W1" using t(3,4) by (rule filled_same)
  ultimately show ?thesis using t(1,2) assms(3) False by (simp add: sendInLoop_def)
qed

lemma output_drained_total:
  assumes "callbacks_return env c (w_conns W c)" "isLoopThread (ce_tid env) W"
  shows "\<exists>W'. output_drained env c W = Inr W' \<and> w_conns W' c = w_conns W c \<and> el_thread_id W' = el_thread_id W"
proof -
  let ?W0 = "set_conn_event c (ch_events (conn_chan c W) AND c_not CHANNEL_WRITE) W"
  let ?W1 = "do_update (ce_loop env) (tc_channel (w_conns ?W0 c)) ?W0"
  have lt: "isLoopThread (ce_tid env) ?W0" "isLoopThread (ce_tid env) ?W1"
    using assms(2) by (simp_all add: isLoopThread_def)
  obtain W2 where w: "(case tc_writeCompleteCallback (w_conns ?W1 c) of
      Some f \<Rightarrow> run_callback env (WriteCompleteCb f) c ?W1 | None \<Rightarrow> Inr ?W1) = Inr W2" "untouched c ?W1 W2"
    using write_complete_returns [OF _ lt(2), of c] assms(1) by auto
  have W2: "w_conns W2 c = w_conns W c" "el_thread_id W2 = el_thread_id W"
    using w(2) by (simp_all add: untouched_def same_out_def)
  have "\<exists>W'. shutdownInLoop env c W2 = Inr W' \<and> w_conns W' c = w_conns W c \<and> el_thread_id W' = el_thread_id W"
    using lt(2) W2 assms(2) by (simp add: shutdownInLoop_def isLoopThread_def)
  then obtain W' where W': "shutdownInLoop env c W2 = Inr W'" "w_conns W' c = w_conns W c" "el_thread_id W' = el_thread_id W"
    by blast
  have "conn_updateChannel env c ?W0 = Inr ?W1" using lt(1) by (rule update_here)
  then have "output_drained env c W = (if tc_state (w_conns W2 c) = kDisconnecting then shutdownInLoop env c W2 else Inr W2)"
    unfolding output_drained_def by (simp only: bindE_simps w(1))
  with W' W2 show ?thesis by simp
qed

lemma handleWrite_total:
  assumes "callbacks_return env c (w_conns W c)" "writes_ok env" "isLoopThread (ce_tid env) W"
    and "buf_ok (tc_outputBuffer (w_conns W c))"
  shows "\<exists>W'. handleWrite env c W = Inr W' \<and> filled c 0 W W'"
proof -
  let ?out = "tc_outputBuffer (w_conns W c)"
  let ?V = "\<lambda>b w. upd_conn c (\<lambda>k. k\<lparr>tc_outputBuffer := b\<rparr>) (W\<lparr>w_calls := Suc (w_calls W), w_wire := w\<rparr>)"
  show ?thesis
  proof (cases "isWriting (conn_chan c W)")
    case False
    with assms(3) show ?thesis by (simp add: handleWrite_def filled_same)
  next
    case writing: True
    show ?thesis
    proof (cases "ce_write env (w_calls W) (readableBytes ?out)")
      case (WriteErr e)
      with assms(3) writing show ?thesis by (simp add: handleWrite_def filled_same)
    next
      case (Wrote n)
      then have "n \<le> length (content ?out)"
        using assms(2) length_content [OF assms(4)] by (auto simp: writes_ok_def)
      then obtain b where b: "retrieve ?out n = Inr b" using retrieve_total [OF assms(4)] by blast
      have V: "filled c 0 W (?V b w)" for w
        using retrieve_fill [OF assms(4) b] by (auto simp: filled_def)
      have "isLoopThread (ce_tid env) (?V b w)" "callbacks_return env c (w_conns (?V b w) c)" for w
        using assms(1,3) by (simp_all add: isLoopThread_def callbacks_return_def)
      from output_drained_total [OF this(2,1)]
      have "\<exists>W'. output_drained env c (?V b w) = Inr W' \<and> filled c 0 W W'" for w
        using V [of w] by (fastforce simp: filled_def)
      with assms(3) writing Wrote b V show ?thesis by (simp add: handleWrite_def Let_def filled_same)
    qed
  qed
qed

section \<open>Properties\<close>

text \<open>The messages of a run of the sending side.\<close>

fun msgs :: "out_op list \<Rightarrow> char list list" where
  "msgs [] = []"
| "msgs (Msg d # ops) = d # msgs ops"
| "msgs (Writable # ops) = msgs ops"

definition room_for :: "out_op list \<Rightarrow> conn_ptr \<Rightarrow> ('p, 'z) world_scheme \<Rightarrow> bool" where
  "room_for ops c W \<longleftrightarrow> fill (tc_outputBuffer (w_conns W c)) + length (concat (msgs ops)) \<le> VEC_MAX"

lemma room_small: "room_for ops c W \<Longrightarrow> msgs_small ops"
proof -
  have "length d \<le> length (concat (msgs ops))" if "Msg d \<in> set ops" for d
    using that by (induction ops rule: msgs.induct) auto
  then show "room_for ops c W \<Longrightarrow> msgs_small ops"
    unfolding room_for_def msgs_small_def by (meson le_add2 le_trans)
qed

context conn_poller
begin

lemma run_out_total:
  assumes env: "vt_update (ce_loop env) = upd" "callbacks_ok {[]} env c" "writes_ok env"
  shows "callbacks_return env c (w_conns W c) \<Longrightarrow> isLoopThread (ce_tid env) W \<Longrightarrow> conn_ok W c \<Longrightarrow>
    tc_state (w_conns W c) \<noteq> kDisconnected \<Longrightarrow> room_for ops c W \<Longrightarrow>
    \<exists>W'. run_out env c ops W = Inr (msgs ops, W')"
proof (induction ops arbitrary: W rule: msgs.induct)
  case (2 d ops)
  have buf: "buf_ok (tc_outputBuffer (w_conns W c))" using conn_okD(2) [OF 2(4)] .
  have room: "fill (tc_outputBuffer (w_conns W c)) + length d \<le> VEC_MAX" using 2(6) by (simp add: room_for_def)
  obtain W1 where W1: "sendInLoop env c d W = Inr W1" "filled c (length d) W W1"
    using sendInLoop_total [OF 2(2) env(3) 2(3) buf room] by blast
  have "conn_ok W1 c"
    using sendInLoop_stream [OF env(1) closed_appends_silent env(2,3) 2(4) _ 2(5) W1(1)] room by simp
  moreover have "callbacks_return env c (w_conns W1 c)" using 2(2) by (simp add: filled_callbacks [OF W1(2)])
  moreover have "isLoopThread (ce_tid env) W1" "tc_state (w_conns W1 c) \<noteq> kDisconnected" "room_for ops c W1"
    using W1(2) 2(3,5,6) by (auto simp: filled_def isLoopThread_def room_for_def)
  ultimately obtain W' where "run_out env c ops W1 = Inr (msgs ops, W')" using 2(1) by blast
  with W1(1) 2(5) show ?case by simp
next
  case (3 ops)
  obtain W1 where W1: "handleWrite env c W = Inr W1" "filled c 0 W W1"
    using handleWrite_total [OF 3(2) env(3) 3(3) conn_okD(2) [OF 3(4)]] by blast
  have "conn_ok W1 c"
    using handleWrite_extends [OF env(1) closed_appends_silent env(2) 3(4) W1(1)] by (rule extends_ok)
  moreover have "callbacks_return env c (w_conns W1 c)" using 3(2) by (simp add: filled_callbacks [OF W1(2)])
  moreover have "isLoopThread (ce_tid env) W1" "tc_state (w_conns W1 c) \<noteq> kDisconnected" "room_for ops c W1"
    using W1(2) 3(3,5,6) by (auto simp: filled_def isLoopThread_def room_for_def)
  ultimately obtain W' where "run_out env c ops W1 = Inr (msgs ops, W')" using 3(1) by blast
  with W1(1) show ?case by simp
qed simp

end

text \<open>C3. Delivery. Whatever messages are sent on the loop thread and whenever the descriptor
  becomes writable, however many bytes each \<open>write\<close> accepts: every call returns, and what the kernel
  was given followed by what is still queued is the old stream followed by exactly the
  messages, in order; the connection waits for write events exactly while bytes are queued. Assumed is
  that no write reports a reset connection, that the callbacks of the connection return and do not send, and that
  the messages fit into the largest vector there is.\<close>

theorem conn_delivered:
  assumes "vt_update (ce_loop env) = epoll_upd sys junk" "callbacks_ok {[]} env c"
    and "callbacks_return env c (w_conns W c)" "writes_ok env" "no_reset env"
    and "isLoopThread (ce_tid env) W" "conn_ok W c" "tc_state (w_conns W c) \<noteq> kDisconnected" "room_for ops c W"
  shows "\<exists>W'. run_out env c ops W = Inr (msgs ops, W') \<and> conn_ok W' c \<and>
    w_wire W' c @ queued_out W' c = w_wire W c @ queued_out W c @ concat (msgs ops)"
proof -
  obtain W' where r: "run_out env c ops W = Inr (msgs ops, W')"
    using epc.run_out_total [OF assms(1,2,4,3,6-9)] by blast
  from epc.run_out_stream [OF assms(1) closed_appends_silent assms(2,4,5,7) room_small [OF assms(9)] r] r
  show ?thesis by (auto simp: spliced_silent stream_def)
qed

theorem conn_delivered_witness:
  "\<exists>W'. run_out (demo_conn_env 0 3) 0 [Msg ''hello'', Msg ''!'', Writable] (demo_world kConnected)
          = Inr ([''hello'', ''!''], W') \<and>
        w_wire W' 0 @ queued_out W' 0 = ''hello!'' \<and> conn_ok W' 0"
proof -
  have cb: "callbacks_return (demo_conn_env 0 3) 0 (w_conns (demo_world kConnected) 0)"
    by (auto simp: callbacks_return_def demo_conn_env_def untouched_def)
  have lt: "isLoopThread (ce_tid (demo_conn_env 0 3)) (demo_world kConnected)" by (simp add: isLoopThread_def)
  have room: "room_for [Msg ''hello'', Msg ''!'', Writable] 0 (demo_world kConnected)"
    by (simp add: room_for_def demo_world_def demo_tcp_def small_buffer_def fill_def buf_const)
  from conn_delivered [OF demo_loop_update(1) demo_callbacks cb demo_writes lt demo_conn_ok _ room]
  show ?thesis by (auto simp del: run_out.simps)
qed

end
