(* ===== verification/Draining.thy ===== *)
theory Draining
  imports ConnTotal
begin

text \<open>
  What becomes of a connection whose output is drained (src/net/tcp_connection.cpp: \<open>shutdown\<close>,
  \<open>shutdownInLoop\<close>, \<open>handleWrite\<close>): a connection being shut down closes its write side once everything
  is written, and no connection listens once it has waited for its output. The callbacks return and leave
  the connection alone; that every call returns is then part of the conclusions.
\<close>

section \<open>Write events\<close>

text \<open>A kernel that accepts at least one byte whenever the descriptor is reported writable.\<close>

definition accepting :: "('p, 'w) conn_env \<Rightarrow> bool" where
  "accepting env \<longleftrightarrow> (\<forall>i n. 0 < n \<longrightarrow> (case ce_write env i n of Wrote m \<Rightarrow> 0 < m | WriteErr e \<Rightarrow> False))"

text \<open>A connection after \<open>shutdown\<close>, with \<open>s\<close> to be sent in all.\<close>

definition closing ::
  "('p, ('p, 'z) world_scheme) conn_env \<Rightarrow> conn_ptr \<Rightarrow> char list \<Rightarrow> ('p, 'z) world_scheme \<Rightarrow> bool" where
  "closing env c s V \<longleftrightarrow> conn_ok V c \<and> isLoopThread (ce_tid env) V \<and> callbacks_return env c (w_conns V c) \<and>
     stream V c = s \<and> tc_state (w_conns V c) = kDisconnecting \<and> (w_shut V c \<longleftrightarrow> queued_out V c = [])"

context conn_poller
begin

lemma handleWrite_progress:
  assumes env: "vt_update (ce_loop env) = upd" and cb: "inert_callbacks env c" and ac: "accepting env"
    and ok: "conn_ok W c" and wr: "isWriting (conn_chan c W)" and h: "handleWrite env c W = Inr W'"
  shows "length (queued_out W' c) < length (queued_out W c)"
proof -
  let ?out = "tc_outputBuffer (w_conns W c)"
  have lt: "isLoopThread (ce_tid env) W" using h by (auto simp: handleWrite_def)
  have ne: "content ?out \<noteq> []" using conn_okD(3) [OF ok] wr by simp
  then have "0 < readableBytes ?out" using length_content [OF conn_okD(2) [OF ok]] by (metis length_greater_0_conv)
  with ac have "case ce_write env (w_calls W) (readableBytes ?out) of Wrote m \<Rightarrow> 0 < m | WriteErr e \<Rightarrow> False"
    unfolding accepting_def by blast
  then obtain n where n: "ce_write env (w_calls W) (readableBytes ?out) = Wrote n" "0 < n"
    by (auto split: write_result.splits)
  let ?V = "\<lambda>b. upd_conn c (\<lambda>k. k\<lparr>tc_outputBuffer := b\<rparr>) (W\<lparr>w_calls := Suc (w_calls W),
      w_wire := (w_wire W)(c := w_wire W c @ take n (content ?out))\<rparr>)"
  obtain b where b: "retrieve ?out n = Inr b"
    and e: "(if readableBytes b = 0 then output_drained env c (?V b) else Inr (?V b)) = Inr W'"
    using h wr n by (auto simp: handleWrite_def Let_def)
  have "isLoopThread (ce_tid env) (?V b)" using lt by (simp add: isLoopThread_def)
  note drained = output_drained_inert [OF env cb this, of W']
  have "w_conns W' c = w_conns (?V b) c"
  proof (cases "readableBytes b = 0")
    case True
    with e have "output_drained env c (?V b) = Inr W'" by simp
    from drained [OF this] show ?thesis by simp
  next
    case False
    with e show ?thesis by simp
  qed
  then have "queued_out W' c = drop n (content ?out)"
    using retrieve_content [OF conn_okD(2) [OF ok] b] by (simp add: queued_out_def)
  moreover have "n \<le> 0 \<Longrightarrow> False" using n(2) by simp
  ultimately show ?thesis using ne n(2) by (cases "content ?out") (auto simp: queued_out_def)
qed

lemma closing_step:
  assumes env: "vt_update (ce_loop env) = upd" and cb: "inert_callbacks env c" and wr: "writes_ok env"
    and c: "closing env c s V"
  shows "\<exists>V1. handleWrite env c V = Inr V1 \<and> closing env c s V1 \<and>
    (accepting env \<longrightarrow> length (queued_out V1 c) \<le> length (queued_out V c) - 1)"
proof -
  have V: "conn_ok V c" "isLoopThread (ce_tid env) V" "callbacks_return env c (w_conns V c)"
    "stream V c = s" "tc_state (w_conns V c) = kDisconnecting" "w_shut V c \<longleftrightarrow> queued_out V c = []"
    using c by (auto simp: closing_def)
  obtain V1 where h: "handleWrite env c V = Inr V1" "filled c 0 V V1"
    using handleWrite_total [OF V(3) wr V(2) conn_okD(2) [OF V(1)]] by blast
  have e: "extends_stream {[]} c V V1"
    using handleWrite_extends [OF env closed_appends_silent inert_callbacks_ok [OF cb] V(1) h(1)] .
  have "tc_state (w_conns V1 c) = kDisconnecting \<and> (w_shut V1 c \<longleftrightarrow> queued_out V1 c = []) \<and>
      (accepting env \<longrightarrow> length (queued_out V1 c) \<le> length (queued_out V c) - 1)"
  proof (cases "isWriting (conn_chan c V)")
    case True
    then have "\<not> w_shut V c" using V(6) conn_okD(3) [OF V(1)] by (simp add: queued_out_def)
    with handleWrite_inert [OF env cb V(1) True h(1)] handleWrite_progress [OF env cb _ V(1) True h(1)] V(5)
    show ?thesis by (auto split: if_splits)
  next
    case False
    with h V have "V1 = V" "queued_out V c = []" using conn_okD(3) [OF V(1)]
      by (auto simp: handleWrite_def queued_out_def)
    with V show ?thesis by simp
  qed
  moreover have "isLoopThread (ce_tid env) V1" "callbacks_return env c (w_conns V1 c)"
    using V(2,3) h(2) filled_callbacks [OF h(2), of env] by (simp_all add: filled_def isLoopThread_def)
  moreover have "conn_ok V1 c" "stream V1 c = s" using e V(4) by (auto simp: extends_stream_def)
  ultimately show ?thesis using h(1) by (auto simp: closing_def)
qed

lemma closing_run:
  assumes "vt_update (ce_loop env) = upd" "inert_callbacks env c" "writes_ok env"
  shows "closing env c s V \<Longrightarrow> \<exists>V'. run_out env c (replicate n Writable) V = Inr ([], V') \<and> closing env c s V' \<and>
    (accepting env \<longrightarrow> length (queued_out V' c) \<le> length (queued_out V c) - n)"
proof (induction n arbitrary: V)
  case (Suc n)
  obtain V1 where V1: "handleWrite env c V = Inr V1" "closing env c s V1"
    "accepting env \<longrightarrow> length (queued_out V1 c) \<le> length (queued_out V c) - 1"
    using closing_step [OF assms Suc.prems] by blast
  from Suc.IH [OF V1(2)] obtain V' where V': "run_out env c (replicate n Writable) V1 = Inr ([], V')"
    "closing env c s V'" "accepting env \<longrightarrow> length (queued_out V' c) \<le> length (queued_out V1 c) - n"
    by blast
  have "accepting env \<longrightarrow> length (queued_out V' c) \<le> length (queued_out V c) - Suc n"
    using V1(3) V'(3) by auto
  with V1(1) V'(1,2) show ?case by simp
qed simp

lemma shutdown_closing:
  assumes "conn_ok W c" "tc_state (w_conns W c) = kConnected" "isLoopThread (ce_tid env) W"
    and "\<not> w_shut W c" "callbacks_return env c (w_conns W c)"
  shows "\<exists>W1. shutdown env c W = Inr W1 \<and> closing env c (stream W c) W1 \<and> queued_out W1 c = queued_out W c"
proof -
  let ?W0 = "setState kDisconnecting c W"
  let ?W1 = "if isWriting (conn_chan c W) then ?W0 else ?W0\<lparr>w_shut := (w_shut W)(c := True)\<rparr>"
  have "shutdown env c W = Inr ?W1"
    using assms(2,3) by (simp add: shutdown_def runInLoop_def shutdownInLoop_def isLoopThread_def setState_def)
  moreover have "closing env c (stream W c) ?W1" "queued_out ?W1 c = queued_out W c"
    using assms by (auto simp: closing_def conn_ok_def stream_def queued_out_def setState_def isLoopThread_def callbacks_return_def)
  ultimately show ?thesis by blast
qed

end

section \<open>Properties\<close>

text \<open>C15. Graceful close. \<open>shutdown\<close> on the loop thread and any number of write events after it
  return, with callbacks that return and leave the connection alone; no byte of the stream is lost, and
  the write side of the socket is shut down exactly if every queued byte has been given to the
  kernel: at once when nothing was queued, else by the write event that drains the output. If every
  write accepts at least one byte, as many events as bytes were queued are enough.\<close>

theorem graceful_shutdown:
  assumes "vt_update (ce_loop env) = epoll_upd sys junk" "inert_callbacks env c"
    and "callbacks_return env c (w_conns W c)" "writes_ok env"
    and "conn_ok W c" "tc_state (w_conns W c) = kConnected" "isLoopThread (ce_tid env) W" "\<not> w_shut W c"
  shows "\<exists>W1 W2. shutdown env c W = Inr W1 \<and> run_out env c (replicate n Writable) W1 = Inr ([], W2) \<and>
    w_wire W2 c @ queued_out W2 c = w_wire W c @ queued_out W c \<and>
    tc_state (w_conns W2 c) = kDisconnecting \<and> (w_shut W2 c \<longleftrightarrow> queued_out W2 c = []) \<and>
    (accepting env \<longrightarrow> length (queued_out W c) \<le> n \<longrightarrow> w_shut W2 c)"
proof -
  obtain W1 where W1: "shutdown env c W = Inr W1" "closing env c (stream W c) W1" "queued_out W1 c = queued_out W c"
    using epc.shutdown_closing [OF assms(5-8,3)] by blast
  obtain W2 where W2: "run_out env c (replicate n Writable) W1 = Inr ([], W2)" "closing env c (stream W c) W2"
    "accepting env \<longrightarrow> length (queued_out W2 c) \<le> length (queued_out W1 c) - n"
    using epc.closing_run [OF assms(1,2,4) W1(2), of n] by blast
  then have "accepting env \<longrightarrow> length (queued_out W c) \<le> n \<longrightarrow> queued_out W2 c = []" using W1(3) by auto
  with W1(1) W2(1,2) show ?thesis by (simp add: closing_def stream_def)
qed


text \<open>A connection whose first write took three of five bytes.\<close>

lemma demo_queued:
  obtains W :: "epoller world" where "sendInLoop (demo_conn_env 0 3) 0 ''hello'' (demo_world kConnected) = Inr W"
    and "conn_ok W 0" "tc_state (w_conns W 0) = kConnected" "isLoopThread (ce_tid (demo_conn_env 0 3 :: (epoller, epoller world) conn_env)) W"
    and "callbacks_return (demo_conn_env 0 3 :: (epoller, epoller world) conn_env) 0 (w_conns W 0)" "\<not> w_shut W 0"
    and "w_wire W 0 = ''hel''" "queued_out W 0 = ''lo''" "fill (tc_outputBuffer (w_conns W 0)) \<le> 100"
proof -
  let ?e = "demo_conn_env 0 3 :: (epoller, epoller world) conn_env"
  have "case sendInLoop ?e 0 ''hello'' (demo_world kConnected) of Inl e \<Rightarrow> False
    | Inr W \<Rightarrow> w_wire W 0 = ''hel'' \<and> queued_out W 0 = ''lo'' \<and> \<not> w_shut W 0"
    by code_simp
  then obtain W where W: "sendInLoop ?e 0 ''hello'' (demo_world kConnected) = Inr W"
    "w_wire W 0 = ''hel''" "queued_out W 0 = ''lo''" "\<not> w_shut W 0"
    by (auto split: sum.splits)
  have fl: "fill (tc_outputBuffer (w_conns (demo_world kConnected) 0)) + length ''hello'' \<le> 100"
    by (simp add: demo_world_def demo_tcp_def small_buffer_def fill_def buf_const)
  have cb: "callbacks_return ?e 0 (w_conns (demo_world kConnected) 0)"
    by (auto simp: callbacks_return_def demo_conn_env_def untouched_def)
  have lt: "isLoopThread (ce_tid ?e) (demo_world kConnected)" by (simp add: isLoopThread_def)
  have room: "fill (tc_outputBuffer (w_conns (demo_world kConnected) 0)) + length ''hello'' \<le> VEC_MAX"
    using fl by (simp add: VEC_MAX_def)
  have f: "filled 0 (length ''hello'') (demo_world kConnected) W"
    using sendInLoop_total [OF cb demo_writes(1) lt conn_okD(2) [OF demo_conn_ok] room] W(1) by auto
  have al: "tc_state (w_conns (demo_world kConnected) 0) \<noteq> kDisconnected" by simp
  have len: "length ''hello'' \<le> VEC_MAX" using room by simp
  from epc.sendInLoop_stream [OF demo_loop_update(1) closed_appends_silent demo_callbacks demo_writes(1)
      demo_conn_ok len al W(1)]
  have ok: "conn_ok W 0" by simp
  have st: "tc_state (w_conns W 0) = kConnected" "isLoopThread (ce_tid ?e) W"
    "fill (tc_outputBuffer (w_conns W 0)) \<le> 100"
    using f fl by (auto simp: filled_def isLoopThread_def)
  have "callbacks_return ?e 0 (w_conns W 0)" using cb by (simp add: filled_callbacks [OF f])
  from that [OF W(1) ok st(1,2) this W(4,2,3) st(3)] show thesis .
qed

theorem graceful_shutdown_witness:
  "\<exists>W W1 W2. sendInLoop (demo_conn_env 0 3) 0 ''hello'' (demo_world kConnected) = Inr W \<and>
     shutdown (demo_conn_env 0 3) 0 W = Inr W1 \<and> run_out (demo_conn_env 0 3) 0 (replicate 2 Writable) W1 = Inr ([], W2) \<and>
     w_wire W2 0 = ''hello'' \<and> w_shut W2 0"
proof -
  let ?e = "demo_conn_env 0 3 :: (epoller, epoller world) conn_env"
  obtain W where s: "sendInLoop ?e 0 ''hello'' (demo_world kConnected) = Inr W"
    and W: "conn_ok W 0" "tc_state (w_conns W 0) = kConnected" "isLoopThread (ce_tid ?e) W"
    "callbacks_return ?e 0 (w_conns W 0)" "\<not> w_shut W 0" "w_wire W 0 = ''hel''" "queued_out W 0 = ''lo''"
    using demo_queued by blast
  have ac: "accepting ?e" by (simp add: accepting_def demo_conn_env_def)
  have "\<exists>W1 W2. shutdown ?e 0 W = Inr W1 \<and> run_out ?e 0 (replicate 2 Writable) W1 = Inr ([], W2) \<and>
      w_wire W2 0 = ''hello'' \<and> w_shut W2 0"
    using graceful_shutdown [OF demo_loop_update(1) demo_inert W(4) demo_writes(1) W(1-3,5), of 2] ac W(6,7) by auto
  with s show ?thesis by blast
qed

text \<open>C24. A write event of a connection with bytes queued returns. If it drains the output, the connection
  listens no longer: its events are empty, so the mask asked of epoll is the uninitialised word \<open>update\<close> starts
  from, with no EPOLLIN when that word is zero, and no later
  messages and write events, which all return, bring reading back. The cause is the logical negation in
  \<open>events() & !CHANNEL_WRITE\<close>, which clears the read bit with the write bit.\<close>

theorem drained_stops_reading:
  assumes "vt_update (ce_loop env) = epoll_upd sys junk" "inert_callbacks env c"
    and "callbacks_return env c (w_conns W c)" "writes_ok env" "no_reset env"
    and "conn_ok W c" "queued_out W c \<noteq> []" "isLoopThread (ce_tid env) W"
    and "tc_state (w_conns W c) \<noteq> kDisconnected" "room_for ops c W"
  shows "\<exists>W1. handleWrite env c W = Inr W1 \<and> (queued_out W1 c = [] \<longrightarrow>
    ch_events (conn_chan c W1) = 0 \<and> \<not> has (epoll_mask 0 (ch_events (conn_chan c W1))) EPOLLIN \<and>
    epoll_mask junk (ch_events (conn_chan c W1)) = junk \<and>
    (\<exists>W2. run_out env c ops W1 = Inr (msgs ops, W2) \<and> \<not> isReading (conn_chan c W2)))"
proof -
  note cb = inert_callbacks_ok [OF assms(2)]
  obtain W1 where W1: "handleWrite env c W = Inr W1" "filled c 0 W W1"
    using handleWrite_total [OF assms(3,4,8) conn_okD(2) [OF assms(6)]] by blast
  have ok: "conn_ok W1 c"
    using epc.handleWrite_extends [OF assms(1) closed_appends_silent cb assms(6) W1(1)] by (rule extends_ok)
  have "callbacks_return env c (w_conns W1 c)" using assms(3) by (simp add: filled_callbacks [OF W1(2)])
  moreover have "isLoopThread (ce_tid env) W1" "tc_state (w_conns W1 c) \<noteq> kDisconnected" "room_for ops c W1"
    using W1(2) assms(8-10) by (auto simp: filled_def isLoopThread_def room_for_def)
  ultimately obtain W2 where W2: "run_out env c ops W1 = Inr (msgs ops, W2)"
    using epc.run_out_total [OF assms(1) cb assms(4) _ _ ok] by blast
  have wr: "isWriting (conn_chan c W)" using conn_okD(3) [OF assms(6)] assms(7) by (simp add: queued_out_def)
  have "ch_events (conn_chan c W1) = 0 \<and> \<not> isReading (conn_chan c W2)" if d: "queued_out W1 c = []"
  proof
    show e: "ch_events (conn_chan c W1) = 0"
      using epc.handleWrite_inert [OF assms(1,2,6) wr W1(1)] d by simp
    then have "\<not> isReading (conn_chan c W1)" by (simp add: isReading_def has_def)
    with epc.run_out_not_reading [OF assms(1,2,4,5) ok room_small _ W2] assms(10)
    show "\<not> isReading (conn_chan c W2)" using \<open>room_for ops c W1\<close> by blast
  qed
  then show ?thesis using W1(1) W2 by (auto simp: epoll_mask_def has_def)
qed

theorem drained_stops_reading_witness:
  "\<exists>W W1 W2. sendInLoop (demo_conn_env 0 3) 0 ''hello'' (demo_world kConnected) = Inr W \<and>
     handleWrite (demo_conn_env 0 3) 0 W = Inr W1 \<and> ch_events (conn_chan 0 W1) = 0 \<and>
     run_out (demo_conn_env 0 3) 0 [Msg ''again''] W1 = Inr ([''again''], W2) \<and> \<not> isReading (conn_chan 0 W2)"
proof -
  let ?e = "demo_conn_env 0 3 :: (epoller, epoller world) conn_env"
  obtain W where s: "sendInLoop ?e 0 ''hello'' (demo_world kConnected) = Inr W"
    and W: "conn_ok W 0" "tc_state (w_conns W 0) = kConnected" "isLoopThread (ce_tid ?e) W"
    "callbacks_return ?e 0 (w_conns W 0)" "queued_out W 0 = ''lo''" "fill (tc_outputBuffer (w_conns W 0)) \<le> 100"
    using demo_queued by blast
  have "case sendInLoop ?e 0 ''hello'' (demo_world kConnected) of Inl e \<Rightarrow> False
    | Inr W \<Rightarrow> (case handleWrite ?e 0 W of Inl e \<Rightarrow> False | Inr W1 \<Rightarrow> queued_out W1 0 = [])"
    by code_simp
  with s have d: "case handleWrite ?e 0 W of Inl e \<Rightarrow> False | Inr W1 \<Rightarrow> queued_out W1 0 = []" by simp
  have st: "tc_state (w_conns W 0) \<noteq> kDisconnected" "queued_out W 0 \<noteq> []" using W by simp_all
  have room: "room_for [Msg ''again''] 0 W" using W(6) by (simp add: room_for_def VEC_MAX_def)
  have "\<exists>W1. handleWrite ?e 0 W = Inr W1 \<and> (queued_out W1 0 = [] \<longrightarrow> ch_events (conn_chan 0 W1) = 0 \<and>
      (\<exists>W2. run_out ?e 0 [Msg ''again''] W1 = Inr ([''again''], W2) \<and> \<not> isReading (conn_chan 0 W2)))"
    using drained_stops_reading [OF demo_loop_update(1) demo_inert W(4) demo_writes W(1) st(2) W(3) st(1) room]
    by (auto simp del: run_out.simps)
  with d have "\<exists>W1 W2. handleWrite ?e 0 W = Inr W1 \<and> ch_events (conn_chan 0 W1) = 0 \<and>
     run_out ?e 0 [Msg ''again''] W1 = Inr ([''again''], W2) \<and> \<not> isReading (conn_chan 0 W2)"
    by (auto simp del: run_out.simps)
  with s show ?thesis by blast
qed

end
