(* ===== verification/CrossThread.thy ===== *)
theory CrossThread
  imports ConnTotal
begin

text \<open>
  Sending on one connection from several threads at once (src/net/tcp_connection.cpp: \<open>send\<close>,
  \<open>sendInLoop\<close>, \<open>handleWrite\<close>; src/net/event_loop.cpp: \<open>runInLoop\<close>, \<open>doPendingFunctors\<close>). Calls of other
  threads, calls on the loop thread, write events and the execution of the queued functors are
  interleaved in any order; the composition of the connection with the queue of its loop.
\<close>

section \<open>Interleaved calls\<close>

datatype mixed_op =
    FromThread nat "char list"
  | FromLoop "char list"
  | WriteReady
  | RunPending

definition in_thread :: "nat \<Rightarrow> ('p, 'w) conn_env \<Rightarrow> ('p, 'w) conn_env" where
  "in_thread t env = env\<lparr>ce_tid := t\<rparr>"

definition mixed_step ::
  "('p, ('p, 'z) world_scheme) conn_env \<Rightarrow>
   (conn_fn \<Rightarrow> ('p, 'z) world_scheme \<Rightarrow> ('p, 'z) world_scheme res) \<Rightarrow> conn_ptr \<Rightarrow> mixed_op \<Rightarrow>
   ('p, 'z) world_scheme \<Rightarrow> ('p, 'z) world_scheme res" where
  "mixed_step env other c op W =
     (case op of
        FromThread t d \<Rightarrow> send_data (in_thread t env) c d (int (length d)) W
      | FromLoop d \<Rightarrow> send_data env c d (int (length d)) W
      | WriteReady \<Rightarrow> handleWrite env c W
      | RunPending \<Rightarrow> doPendingFunctors (exec_fn (ce_loop env) (conn_exec env other)) W)"

text \<open>The messages a step accepts from another thread and on the loop thread: \<open>send\<close> ignores a
  message unless the connection is connected. A run collects them.\<close>

fun remote_msgs :: "conn_ptr \<Rightarrow> mixed_op \<Rightarrow> ('p, 'z) world_scheme \<Rightarrow> char list list" where
  "remote_msgs c (FromThread t d) W = (if connected c W then [d] else [])"
| "remote_msgs c _ W = []"

fun local_msgs :: "conn_ptr \<Rightarrow> mixed_op \<Rightarrow> ('p, 'z) world_scheme \<Rightarrow> char list list" where
  "local_msgs c (FromLoop d) W = (if connected c W then [d] else [])"
| "local_msgs c _ W = []"

fun run_mixed ::
  "('p, ('p, 'z) world_scheme) conn_env \<Rightarrow>
   (conn_fn \<Rightarrow> ('p, 'z) world_scheme \<Rightarrow> ('p, 'z) world_scheme res) \<Rightarrow> conn_ptr \<Rightarrow> mixed_op list \<Rightarrow>
   ('p, 'z) world_scheme \<Rightarrow> (char list list \<times> char list list \<times> ('p, 'z) world_scheme) res" where
  "run_mixed env other c [] W = Inr ([], [], W)"
| "run_mixed env other c (op # ops) W =
     bindE (mixed_step env other c op W) (\<lambda>W1.
     bindE (run_mixed env other c ops W1) (\<lambda>(rs, ls, W2).
       Inr (remote_msgs c op W @ rs, local_msgs c op W @ ls, W2)))"

text \<open>The messages waiting in the queue of the loop.\<close>

fun waiting :: "conn_ptr \<Rightarrow> conn_fn loop_fn list \<Rightarrow> char list list" where
  "waiting c [] = []"
| "waiting c (UserFn (SendInLoopFn d s) # fs) = (if d = c then s # waiting c fs else waiting c fs)"
| "waiting c (f # fs) = waiting c fs"

lemma waiting_append [simp]: "waiting c (fs @ gs) = waiting c fs @ waiting c gs"
  by (induction c fs rule: waiting.induct) auto

text \<open>The functors in the queue are sends on this connection, and closures of the loop itself.\<close>

definition plain_fn :: "conn_ptr \<Rightarrow> conn_fn loop_fn \<Rightarrow> bool" where
  "plain_fn c f \<longleftrightarrow>
     (case f of
        UserFn (SendInLoopFn d s) \<Rightarrow> d = c \<and> length s < 2147483648
      | UpdateFn p \<Rightarrow> True | RemoveFn p \<Rightarrow> True | CancelFn i \<Rightarrow> True | _ \<Rightarrow> False)"

definition mixed_op_ok :: "('p, 'w) conn_env \<Rightarrow> mixed_op \<Rightarrow> bool" where
  "mixed_op_ok env op \<longleftrightarrow>
     (case op of
        FromThread t d \<Rightarrow> t \<noteq> ce_tid env \<and> length d < 2147483648
      | FromLoop d \<Rightarrow> length d < 2147483648
      | _ \<Rightarrow> True)"

section \<open>What stays the same\<close>

text \<open>Callbacks that leave the connection and the queue alone.\<close>

definition calm :: "conn_ptr \<Rightarrow> ('p, 'z) world_scheme \<Rightarrow> ('p, 'z) world_scheme \<Rightarrow> bool" where
  "calm c W W' \<longleftrightarrow>
     tc_state (w_conns W' c) = tc_state (w_conns W c) \<and> el_pending W' = el_pending W \<and>
     el_thread_id W' = el_thread_id W"

definition calm_callbacks :: "('p, ('p, 'z) world_scheme) conn_env \<Rightarrow> conn_ptr \<Rightarrow> bool" where
  "calm_callbacks env c \<longleftrightarrow>
     (\<forall>k W W'. ce_call env k c W = Inr W' \<longrightarrow> same_conn c W W' \<and> el_pending W' = el_pending W)"

lemma calm_inert: "calm_callbacks env c \<Longrightarrow> inert_callbacks env c"
  by (auto simp: calm_callbacks_def inert_callbacks_def)

lemma calm_refl [simp]: "calm c W W"
  by (simp add: calm_def)

lemma calm_trans: "calm c W W1 \<Longrightarrow> calm c W1 W2 \<Longrightarrow> calm c W W2"
  by (simp add: calm_def)

lemma calm_frame [simp]: "calm c W (do_update le p W)" "calm c W (do_remove le p W)"
  by (simp_all add: calm_def)

text \<open>On the loop thread \<open>t\<close> no operation queues a functor.\<close>

definition calm_on :: "nat \<Rightarrow> conn_ptr \<Rightarrow> ('p, 'z) world_scheme \<Rightarrow> ('p, 'z) world_scheme \<Rightarrow> bool" where
  "calm_on t c W W' \<longleftrightarrow> (isLoopThread t W \<longrightarrow> calm c W W')"

interpretation calm: conn_writes "calm_on t c" c le for t c le
  by unfold_locales (auto simp: calm_on_def calm_def isLoopThread_def set_conn_event_def upd_conn_def)

lemma calm_local: "calm_callbacks env c \<Longrightarrow> env_local (calm_on (ce_tid env) c) c (ce_loop env) env"
  by (auto simp: env_local_def calm_on_def calm_def calm_callbacks_def same_conn_def)

lemma sendInLoop_calm:
  assumes "calm_callbacks env c" "sendInLoop env c data W = Inr W'"
  shows "calm c W W'"
proof -
  have "isLoopThread (ce_tid env) W" using assms(2) by (auto simp: sendInLoop_def)
  with calm.sendInLoop_L [OF calm_local [OF assms(1)] assms(2)] show ?thesis by (simp add: calm_on_def)
qed

lemma handleWrite_calm:
  assumes "calm_callbacks env c" "handleWrite env c W = Inr W'"
  shows "calm c W W'"
proof -
  have "isLoopThread (ce_tid env) W" using assms(2) by (auto simp: handleWrite_def)
  with calm.handleWrite_L [OF calm_local [OF assms(1)] assms(2)] show ?thesis by (simp add: calm_on_def)
qed

section \<open>Delivery\<close>

lemma shuffles_front: "zs \<in> shuffles xs ys \<Longrightarrow> us @ zs \<in> shuffles (us @ xs) ys"
  by (induction us) (auto intro: Cons_in_shuffles_leftI)

lemma sendInLoop_closure:
  "length s < 2147483648 \<Longrightarrow> sendInLoop_piece env c (sp_of_string s) W = sendInLoop env c s W"
  by (simp add: sendInLoop_piece_def piece_bytes_def sp_of_string_def int_of_size_small size_of_int_nonneg)

lemma send_data_here:
  assumes "isLoopThread (ce_tid env) W" "length d < 2147483648"
  shows "send_data env c d (int (length d)) W = (if connected c W then sendInLoop env c d W else Inr W)"
  using assms by (simp add: send_data_def send_piece_def connected_def sendInLoop_piece_def piece_bytes_def
      sp_of_ptr_def size_of_int_nonneg)

lemma send_data_elsewhere:
  assumes "\<not> isLoopThread (ce_tid env) W" "length d < 2147483648"
  shows "send_data env c d (int (length d)) W =
    (if connected c W
     then Inr (W\<lparr>el_pending := el_pending W @ [UserFn (SendInLoopFn c d)], el_wakeups := Suc (el_wakeups W)\<rparr>)
     else Inr W)"
proof (cases "connected c W")
  case True
  then have "tc_state (w_conns W c) = kConnected" by (simp add: connected_def)
  from send_other_thread_effect [OF this assms, THEN conjunct1] True show ?thesis by simp
qed (simp add: connected_def send_data_def send_piece_def)

text \<open>A step of the connection that leaves the queue and the state alone and adds \<open>d\<close> to the stream.\<close>

definition adds :: "conn_ptr \<Rightarrow> char list \<Rightarrow> ('p, 'z) world_scheme \<Rightarrow> ('p, 'z) world_scheme \<Rightarrow> bool" where
  "adds c d W W' \<longleftrightarrow> conn_ok W' c \<and> stream W' c = stream W c @ d \<and> calm c W W'"

lemma adds_trans: "adds c d W W1 \<Longrightarrow> adds c e W1 W2 \<Longrightarrow> adds c (d @ e) W W2"
  by (auto simp: adds_def intro: calm_trans)

context conn_poller
begin

lemma do_update_adds:
  assumes "vt_update le = upd" "conn_ok W c"
  shows "adds c [] W (do_update le p W)"
proof -
  have "ch_events (el_heap (do_update le p W) q) = ch_events (el_heap W q)" for q
    unfolding do_update_def assms(1) by (auto split: prod.split dest: upd_events)
  then have "same_out c W (do_update le p W)" by (simp add: same_out_def conn_chan_def)
  from same_out_ok [OF this assms(2)] show ?thesis by (simp add: adds_def)
qed

lemma sendInLoop_adds:
  assumes "vt_update (ce_loop env) = upd" "calm_callbacks env c" "writes_ok env" "no_reset env"
    and "conn_ok W c" "tc_state (w_conns W c) \<noteq> kDisconnected" "length d < 2147483648"
    and "sendInLoop env c d W = Inr W'"
  shows "adds c d W W'"
proof -
  have "length d \<le> VEC_MAX" using assms(7) by (simp add: VEC_MAX_def)
  from sendInLoop_stream [OF assms(1) closed_appends_silent
      inert_callbacks_ok [OF calm_inert [OF assms(2)]] assms(3,5) this assms(6,8)]
    sendInLoop_calm [OF assms(2,8)] assms(4) show ?thesis
    by (auto simp: adds_def no_reset_def)
qed

lemma handleWrite_adds:
  assumes "vt_update (ce_loop env) = upd" "calm_callbacks env c" "conn_ok W c"
    and "handleWrite env c W = Inr W'"
  shows "adds c [] W W'"
  using handleWrite_extends [OF assms(1) closed_appends_silent
      inert_callbacks_ok [OF calm_inert [OF assms(2)]] assms(3,4)]
    handleWrite_calm [OF assms(2,4)] by (simp add: adds_def extends_stream_def)

lemma functor_adds:
  assumes "vt_update (ce_loop env) = upd" "calm_callbacks env c" "writes_ok env" "no_reset env"
    and "conn_ok W c" "tc_state (w_conns W c) \<noteq> kDisconnected" "plain_fn c f"
    and "exec_fn (ce_loop env) (conn_exec env other) f W = Inr W'"
  shows "adds c (concat (waiting c [f])) W W'"
proof (cases f)
  case (UserFn u)
  with assms(7) obtain s where u: "u = SendInLoopFn c s" "length s < 2147483648"
    by (auto simp: plain_fn_def split: conn_fn.splits)
  then have "sendInLoop env c s W = Inr W'"
    using assms(8) UserFn by (simp add: exec_fn_def conn_exec_def sendInLoop_closure)
  from sendInLoop_adds [OF assms(1-6) u(2) this] UserFn u show ?thesis by simp
next
  case (UpdateFn p)
  with assms(8) do_update_adds [OF assms(1,5)] show ?thesis by (auto simp: exec_fn_def)
next
  case (RemoveFn p)
  have "same_out c W (do_remove (ce_loop env) p W)" by (simp add: same_out_def conn_chan_def)
  from same_out_ok [OF this assms(5)] RemoveFn assms(8) show ?thesis
    by (auto simp: exec_fn_def adds_def)
next
  case (CancelFn i)
  let ?V = "do_cancel (ce_loop env) i W"
  have V: "same_out c W ?V" "calm c W ?V"
    by (auto simp: same_out_def conn_chan_def calm_def do_cancel_def split: option.split)
  from same_out_ok [OF V(1) assms(5)] V(2) CancelFn assms(8) show ?thesis
    by (auto simp: exec_fn_def adds_def)
qed (use assms(7) in \<open>simp add: plain_fn_def\<close>)

lemma functors_add:
  assumes "vt_update (ce_loop env) = upd" "calm_callbacks env c" "writes_ok env" "no_reset env"
  shows "conn_ok W c \<Longrightarrow> tc_state (w_conns W c) \<noteq> kDisconnected \<Longrightarrow> \<forall>f\<in>set fs. plain_fn c f \<Longrightarrow>
    run_functors (exec_fn (ce_loop env) (conn_exec env other)) fs W = Inr W' \<Longrightarrow>
    adds c (concat (waiting c fs)) W W'"
proof (induction fs arbitrary: W)
  case Nil
  then show ?case by (simp add: adds_def)
next
  case (Cons f fs)
  then obtain W1 where e: "exec_fn (ce_loop env) (conn_exec env other) f W = Inr W1"
    and r: "run_functors (exec_fn (ce_loop env) (conn_exec env other)) fs W1 = Inr W'" by auto
  have a: "adds c (concat (waiting c [f])) W W1"
    using functor_adds [OF assms Cons.prems(1,2) _ e] Cons.prems(3) by simp
  then have "adds c (concat (waiting c fs)) W1 W'"
    using Cons.IH [OF _ _ _ r] Cons.prems(2,3) by (simp add: adds_def calm_def)
  from adds_trans [OF a this] show ?case
    using waiting_append [of c "[f]" fs] by simp
qed

lemma pending_add:
  assumes "vt_update (ce_loop env) = upd" "calm_callbacks env c" "writes_ok env" "no_reset env"
    and "conn_ok W c" "tc_state (w_conns W c) \<noteq> kDisconnected" "\<forall>f\<in>set (el_pending W). plain_fn c f"
    and "doPendingFunctors (exec_fn (ce_loop env) (conn_exec env other)) W = Inr W'"
  shows "conn_ok W' c \<and> stream W' c = stream W c @ concat (waiting c (el_pending W)) \<and>
    tc_state (w_conns W' c) = tc_state (w_conns W c) \<and> el_pending W' = [] \<and>
    el_thread_id W' = el_thread_id W"
proof -
  let ?V = "W\<lparr>el_calling_pending := True, el_pending := []\<rparr>"
  obtain W2 where r: "run_functors (exec_fn (ce_loop env) (conn_exec env other)) (el_pending W) ?V = Inr W2"
    and W': "W' = W2\<lparr>el_calling_pending := False\<rparr>"
    using assms(8) by (auto simp: doPendingFunctors_def Let_def)
  have "conn_ok ?V c" using assms(5) by (simp add: conn_ok_def conn_chan_def)
  from functors_add [OF assms(1-4) this _ assms(7) r] assms(6) show ?thesis
    by (simp add: W' adds_def calm_def conn_ok_def conn_chan_def stream_def queued_out_def)
qed

lemma mixed_step_effect:
  assumes "vt_update (ce_loop env) = upd" "calm_callbacks env c" "writes_ok env" "no_reset env"
    and "conn_ok W c" "tc_state (w_conns W c) \<noteq> kDisconnected" "isLoopThread (ce_tid env) W"
    and "\<forall>f\<in>set (el_pending W). plain_fn c f" "mixed_op_ok env op"
    and "mixed_step env other c op W = Inr W1"
  shows "conn_ok W1 c \<and> tc_state (w_conns W1 c) = tc_state (w_conns W c) \<and>
    el_thread_id W1 = el_thread_id W \<and> (\<forall>f\<in>set (el_pending W1). plain_fn c f) \<and>
    (\<exists>sent. sent @ waiting c (el_pending W1) = waiting c (el_pending W) @ remote_msgs c op W \<and>
       stream W1 c = stream W c @ concat (sent @ local_msgs c op W))"
proof (cases op)
  case (FromThread t d)
  have "\<not> isLoopThread (ce_tid (in_thread t env)) W"
    using assms(7,9) FromThread by (simp add: in_thread_def isLoopThread_def mixed_op_ok_def)
  from send_data_elsewhere [OF this, of d c] assms(5,8-10) FromThread show ?thesis
    by (auto simp: mixed_step_def mixed_op_ok_def plain_fn_def conn_ok_def conn_chan_def stream_def
        queued_out_def split: if_splits)
next
  case (FromLoop d)
  then have "adds c (concat (local_msgs c op W)) W W1"
    using send_data_here [OF assms(7), of d c] sendInLoop_adds [OF assms(1-6), of d] assms(5,9,10)
    by (auto simp: mixed_step_def mixed_op_ok_def adds_def split: if_splits)
  with assms(8) FromLoop show ?thesis by (simp add: adds_def calm_def)
next
  case WriteReady
  with assms(10) handleWrite_adds [OF assms(1,2,5), of W1] assms(8) show ?thesis
    by (simp add: mixed_step_def adds_def calm_def)
next
  case RunPending
  with assms(10) pending_add [OF assms(1-6,8), of other W1] show ?thesis
    by (simp add: mixed_step_def)
qed

lemma run_mixed_delivers:
  assumes "vt_update (ce_loop env) = upd" "calm_callbacks env c" "writes_ok env" "no_reset env"
  shows "conn_ok W c \<Longrightarrow> tc_state (w_conns W c) \<noteq> kDisconnected \<Longrightarrow> isLoopThread (ce_tid env) W \<Longrightarrow>
    \<forall>f\<in>set (el_pending W). plain_fn c f \<Longrightarrow> \<forall>op\<in>set ops. mixed_op_ok env op \<Longrightarrow>
    run_mixed env other c ops W = Inr (rs, ls, W') \<Longrightarrow>
    conn_ok W' c \<and> (\<exists>sent ms. sent @ waiting c (el_pending W') = waiting c (el_pending W) @ rs \<and>
      ms \<in> shuffles sent ls \<and> stream W' c = stream W c @ concat ms)"
proof (induction ops arbitrary: W rs ls)
  case Nil
  then show ?case by (auto intro!: exI [of _ "[]"])
next
  case (Cons op ops)
  obtain W1 rs1 ls1 where s: "mixed_step env other c op W = Inr W1"
    and r: "run_mixed env other c ops W1 = Inr (rs1, ls1, W')"
    and rl: "rs = remote_msgs c op W @ rs1" "ls = local_msgs c op W @ ls1"
    using Cons.prems(6) by auto
  have ops: "\<forall>op\<in>set ops. mixed_op_ok env op" "mixed_op_ok env op" using Cons.prems(5) by simp_all
  note e = mixed_step_effect [OF assms Cons.prems(1-4) ops(2) s]
  obtain sent0 where s0: "sent0 @ waiting c (el_pending W1) = waiting c (el_pending W) @ remote_msgs c op W"
    "stream W1 c = stream W c @ concat (sent0 @ local_msgs c op W)" using e by auto
  obtain sent ms where s1: "sent @ waiting c (el_pending W') = waiting c (el_pending W1) @ rs1"
    "ms \<in> shuffles sent ls1" "stream W' c = stream W1 c @ concat ms" "conn_ok W' c"
    using Cons.IH [OF _ _ _ _ ops(1) r] e Cons.prems(2,3) by (auto simp: isLoopThread_def)
  have "local_msgs c op W @ ms \<in> shuffles sent ls"
    using shuffles_front [of ms ls1 sent] s1(2) rl(2) by (simp add: shuffles_commutes)
  then have "(sent0 @ local_msgs c op W) @ ms \<in> shuffles (sent0 @ sent) ls"
    using shuffles_front by fastforce
  moreover have "(sent0 @ sent) @ waiting c (el_pending W') = waiting c (el_pending W) @ rs"
    using s0(1) s1(1) rl(1) by (metis append.assoc)
  ultimately show ?case using s0(2) s1(3,4)
    by (intro conjI exI [of _ "sent0 @ sent"] exI [of _ "(sent0 @ local_msgs c op W) @ ms"]) simp_all
qed

end

section \<open>Every step returns\<close>

fun op_bytes :: "mixed_op \<Rightarrow> nat" where
  "op_bytes (FromThread t d) = length d"
| "op_bytes (FromLoop d) = length d"
| "op_bytes _ = 0"

text \<open>The messages of the other threads and those of the loop thread, in a run on a connected connection.\<close>

fun from_threads :: "mixed_op list \<Rightarrow> char list list" where
  "from_threads [] = []"
| "from_threads (FromThread t d # ops) = d # from_threads ops"
| "from_threads (op # ops) = from_threads ops"

fun from_loop :: "mixed_op list \<Rightarrow> char list list" where
  "from_loop [] = []"
| "from_loop (FromLoop d # ops) = d # from_loop ops"
| "from_loop (op # ops) = from_loop ops"

text \<open>A connection of the loop that has room for what waits for it and \<open>n\<close> bytes more.\<close>

definition has_room :: "conn_ptr \<Rightarrow> nat \<Rightarrow> ('p, 'z) world_scheme \<Rightarrow> bool" where
  "has_room c n W \<longleftrightarrow>
     fill (tc_outputBuffer (w_conns W c)) + length (concat (waiting c (el_pending W))) + n \<le> VEC_MAX"

lemma filled_frame:
  "filled c n W (do_update le p W)" "filled c n W (do_remove le p W)" "filled c n W (do_cancel le i W)"
  by (rule filled_same; simp add: do_cancel_def split: option.split)+

lemma functor_total:
  assumes "callbacks_return env c (w_conns W c)" "writes_ok env" "isLoopThread (ce_tid env) W" "conn_ok W c"
    and "plain_fn c f" "fill (tc_outputBuffer (w_conns W c)) + length (concat (waiting c [f])) \<le> VEC_MAX"
  shows "\<exists>W'. exec_fn (ce_loop env) (conn_exec env other) f W = Inr W' \<and>
    filled c (length (concat (waiting c [f]))) W W'"
proof (cases f)
  case (UserFn u)
  with assms(5) obtain s where u: "u = SendInLoopFn c s" "length s < 2147483648"
    by (auto simp: plain_fn_def split: conn_fn.splits)
  with UserFn sendInLoop_total [OF assms(1-3) conn_okD(2) [OF assms(4)], of s] assms(6) show ?thesis
    by (simp add: exec_fn_def conn_exec_def sendInLoop_closure)
qed (use assms(5) filled_frame in \<open>simp_all add: exec_fn_def plain_fn_def\<close>)

context conn_poller
begin

lemma functors_total:
  assumes env: "vt_update (ce_loop env) = upd" "calm_callbacks env c" "writes_ok env" "no_reset env"
  shows "callbacks_return env c (w_conns W c) \<Longrightarrow> isLoopThread (ce_tid env) W \<Longrightarrow> conn_ok W c \<Longrightarrow>
    tc_state (w_conns W c) \<noteq> kDisconnected \<Longrightarrow> \<forall>f\<in>set fs. plain_fn c f \<Longrightarrow>
    fill (tc_outputBuffer (w_conns W c)) + length (concat (waiting c fs)) \<le> VEC_MAX \<Longrightarrow>
    \<exists>W'. run_functors (exec_fn (ce_loop env) (conn_exec env other)) fs W = Inr W' \<and>
      filled c (length (concat (waiting c fs))) W W'"
proof (induction fs arbitrary: W)
  case Nil
  then show ?case by (simp add: filled_same)
next
  case (Cons f fs)
  have len: "length (concat (waiting c (f # fs))) = length (concat (waiting c [f])) + length (concat (waiting c fs))"
    using waiting_append [of c "[f]" fs] by simp
  obtain W1 where W1: "exec_fn (ce_loop env) (conn_exec env other) f W = Inr W1"
    "filled c (length (concat (waiting c [f]))) W W1"
    using functor_total [OF Cons.prems(1) env(3) Cons.prems(2,3), of f other] Cons.prems(5,6) len by auto
  have "adds c (concat (waiting c [f])) W W1"
    using functor_adds [OF env Cons.prems(3,4) _ W1(1)] Cons.prems(5) by simp
  then have k: "conn_ok W1 c" "tc_state (w_conns W1 c) \<noteq> kDisconnected" "isLoopThread (ce_tid env) W1"
    using Cons.prems(2,4) by (simp_all add: adds_def calm_def isLoopThread_def)
  have cb: "callbacks_return env c (w_conns W1 c)"
    using Cons.prems(1) by (simp add: filled_callbacks [OF W1(2)])
  have "fill (tc_outputBuffer (w_conns W1 c)) + length (concat (waiting c fs)) \<le> VEC_MAX"
    using W1(2) Cons.prems(6) len by (auto simp: filled_def)
  from Cons.IH [OF cb k(3,1,2) _ this] Cons.prems(5) obtain W' where
    "run_functors (exec_fn (ce_loop env) (conn_exec env other)) fs W1 = Inr W'"
    "filled c (length (concat (waiting c fs))) W1 W'" by auto
  with W1(1) filled_trans [OF W1(2)] show ?case by (auto simp del: length_concat simp: len)
qed

lemma mixed_step_total:
  assumes env: "vt_update (ce_loop env) = upd" "calm_callbacks env c" "writes_ok env" "no_reset env"
    and k: "callbacks_return env c (w_conns W c)" "isLoopThread (ce_tid env) W" "conn_ok W c"
    "tc_state (w_conns W c) \<noteq> kDisconnected" "\<forall>f\<in>set (el_pending W). plain_fn c f" "mixed_op_ok env op"
    and room: "has_room c (op_bytes op + n) W"
  shows "\<exists>W1. mixed_step env other c op W = Inr W1 \<and> callbacks_return env c (w_conns W1 c) \<and> has_room c n W1"
proof (cases op)
  case (FromThread t d)
  have "\<not> isLoopThread (ce_tid (in_thread t env)) W"
    using k(2,6) FromThread by (simp add: in_thread_def isLoopThread_def mixed_op_ok_def)
  from send_data_elsewhere [OF this, of d c] k(1,6) room FromThread show ?thesis
    by (auto simp: mixed_step_def mixed_op_ok_def has_room_def)
next
  case (FromLoop d)
  have "fill (tc_outputBuffer (w_conns W c)) + length d \<le> VEC_MAX" using room FromLoop by (simp add: has_room_def)
  from sendInLoop_total [OF k(1) env(3) k(2) conn_okD(2) [OF k(3)] this]
  obtain V where V: "sendInLoop env c d W = Inr V" "filled c (length d) W V" by blast
  let ?W1 = "if connected c W then V else W"
  have "mixed_step env other c op W = Inr ?W1"
    using send_data_here [OF k(2), of d c] V(1) k(6) FromLoop by (simp add: mixed_step_def mixed_op_ok_def)
  moreover have "has_room c n V"
    using V(2) sendInLoop_calm [OF env(2) V(1)] room FromLoop by (auto simp: has_room_def filled_def calm_def)
  moreover have "has_room c n W" using room by (simp add: has_room_def)
  moreover have "callbacks_return env c (w_conns V c)" using k(1) by (simp add: filled_callbacks [OF V(2)])
  ultimately show ?thesis using k(1) by simp
next
  case WriteReady
  obtain V where V: "handleWrite env c W = Inr V" "filled c 0 W V"
    using handleWrite_total [OF k(1) env(3) k(2) conn_okD(2) [OF k(3)]] by blast
  moreover have "has_room c n V"
    using V(2) handleWrite_calm [OF env(2) V(1)] room WriteReady by (auto simp: has_room_def filled_def calm_def)
  moreover have "callbacks_return env c (w_conns V c)" using k(1) by (simp add: filled_callbacks [OF V(2)])
  ultimately show ?thesis using WriteReady by (simp add: mixed_step_def)
next
  case RunPending
  let ?V = "W\<lparr>el_calling_pending := True, el_pending := []\<rparr>"
  have "conn_ok ?V c" using k(3) by (simp add: conn_ok_def conn_chan_def)
  moreover have "isLoopThread (ce_tid env) ?V" using k(2) by (simp add: isLoopThread_def)
  ultimately obtain V where V: "run_functors (exec_fn (ce_loop env) (conn_exec env other)) (el_pending W) ?V = Inr V"
    "filled c (length (concat (waiting c (el_pending W)))) ?V V"
    using functors_total [OF env, of ?V "el_pending W" other] k(1,4,5) room RunPending by (auto simp: has_room_def)
  then have run: "mixed_step env other c op W = Inr (V\<lparr>el_calling_pending := False\<rparr>)"
    using RunPending by (simp add: mixed_step_def doPendingFunctors_def Let_def)
  have "adds c (concat (waiting c (el_pending W))) ?V V"
    using functors_add [OF env \<open>conn_ok ?V c\<close> _ k(5) V(1)] k(4) by simp
  then have "has_room c n (V\<lparr>el_calling_pending := False\<rparr>)"
    using V(2) room RunPending by (auto simp: has_room_def filled_def adds_def calm_def)
  moreover have "callbacks_return env c (w_conns V c)" using k(1) filled_callbacks [OF V(2), of env] by simp
  ultimately show ?thesis using run by simp
qed

lemma run_mixed_total:
  assumes env: "vt_update (ce_loop env) = upd" "calm_callbacks env c" "writes_ok env" "no_reset env"
  shows "callbacks_return env c (w_conns W c) \<Longrightarrow> isLoopThread (ce_tid env) W \<Longrightarrow> conn_ok W c \<Longrightarrow>
    tc_state (w_conns W c) = kConnected \<Longrightarrow> \<forall>f\<in>set (el_pending W). plain_fn c f \<Longrightarrow>
    \<forall>op\<in>set ops. mixed_op_ok env op \<Longrightarrow> has_room c (sum_list (map op_bytes ops)) W \<Longrightarrow>
    \<exists>W'. run_mixed env other c ops W = Inr (from_threads ops, from_loop ops, W')"
proof (induction ops arbitrary: W)
  case (Cons op ops)
  have op: "mixed_op_ok env op" "\<forall>op\<in>set ops. mixed_op_ok env op" using Cons.prems(6) by simp_all
  have st: "tc_state (w_conns W c) \<noteq> kDisconnected" using Cons.prems(4) by simp
  obtain W1 where W1: "mixed_step env other c op W = Inr W1" "callbacks_return env c (w_conns W1 c)"
    "has_room c (sum_list (map op_bytes ops)) W1"
    using mixed_step_total [OF env Cons.prems(1-3) st Cons.prems(5) op(1), of "sum_list (map op_bytes ops)" other]
      Cons.prems(7) by auto
  obtain W' where "run_mixed env other c ops W1 = Inr (from_threads ops, from_loop ops, W')"
    using Cons.IH [OF W1(2) _ _ _ _ op(2) W1(3)] mixed_step_effect [OF env Cons.prems(3) st Cons.prems(2,5) op(1) W1(1)]
      Cons.prems(2,4) by (auto simp: isLoopThread_def)
  with W1(1) Cons.prems(4) show ?case by (cases op) (simp_all add: connected_def)
qed simp

end

section \<open>Properties\<close>

text \<open>C20. Sends from any number of threads, sends on the loop thread, write events and rounds of
  queued functors in any interleaving: every call returns, and what the kernel was given followed by what
  is buffered is the old stream followed by an interleaving of the messages, each whole and once, in
  which the messages of other threads keep the order they were queued in and those of the loop thread theirs;
  what is missing of the former still waits in the queue of the loop, and is sent by the next
  round of functors.\<close>

theorem sends_interleave:
  assumes "vt_update (ce_loop env) = epoll_upd sys junk" "calm_callbacks env c" "writes_ok env" "no_reset env"
    and "callbacks_return env c (w_conns W c)" "conn_ok W c" "tc_state (w_conns W c) = kConnected"
    and "isLoopThread (ce_tid env) W" "\<forall>f\<in>set (el_pending W). plain_fn c f"
    and "\<forall>op\<in>set ops. mixed_op_ok env op" "has_room c (sum_list (map op_bytes ops)) W"
  shows "\<exists>W' sent ms. run_mixed env other c ops W = Inr (from_threads ops, from_loop ops, W') \<and>
           sent @ waiting c (el_pending W') = waiting c (el_pending W) @ from_threads ops \<and>
           ms \<in> shuffles sent (from_loop ops) \<and>
           w_wire W' c @ queued_out W' c = w_wire W c @ queued_out W c @ concat ms"
proof -
  obtain W' where r: "run_mixed env other c ops W = Inr (from_threads ops, from_loop ops, W')"
    using epc.run_mixed_total [OF assms(1-5,8,6,7,9-11)] by blast
  have "tc_state (w_conns W c) \<noteq> kDisconnected" using assms(7) by simp
  from epc.run_mixed_delivers [OF assms(1-4,6) this assms(8-10) r] r show ?thesis
    by (fastforce simp: stream_def)
qed

lemma demo_calm: "calm_callbacks (demo_conn_env tid lim) c"
  by (auto simp: calm_callbacks_def demo_conn_env_def)

theorem sends_interleave_witness:
  "\<exists>W'. run_mixed (demo_conn_env 0 3) (\<lambda>_. Inr) 0
          [FromThread 1 ''one'', FromLoop ''loop'', FromThread 2 ''two'', RunPending, WriteReady]
          (demo_world kConnected) = Inr ([''one'', ''two''], [''loop''], W') \<and>
        w_wire W' 0 @ queued_out W' 0 = ''looponetwo'' \<and>
        (\<exists>sent ms. sent @ waiting 0 (el_pending W') = [''one'', ''two''] \<and> ms \<in> shuffles sent [''loop''] \<and>
           concat ms = ''looponetwo'')"
proof -
  let ?ops = "[FromThread 1 ''one'', FromLoop ''loop'', FromThread 2 ''two'', RunPending, WriteReady]"
  let ?r = "run_mixed (demo_conn_env 0 3) (\<lambda>_. Inr) 0 ?ops (demo_world kConnected)"
  have "case ?r of Inl e \<Rightarrow> False
      | Inr (rs, ls, W) \<Rightarrow> rs = [''one'', ''two''] \<and> ls = [''loop''] \<and> w_wire W 0 @ queued_out W 0 = ''looponetwo''"
    by code_simp
  then obtain W' where r: "?r = Inr ([''one'', ''two''], [''loop''], W')"
    and w: "w_wire W' 0 @ queued_out W' 0 = ''looponetwo''"
    by (auto split: sum.splits)
  have ok: "\<forall>op\<in>set ?ops. mixed_op_ok (demo_conn_env 0 3 :: (epoller, epoller world) conn_env) op"
    by (simp add: mixed_op_ok_def)
  have lt: "isLoopThread (ce_tid (demo_conn_env 0 3 :: (epoller, epoller world) conn_env)) (demo_world kConnected)"
    by (simp add: isLoopThread_def)
  have cb: "callbacks_return (demo_conn_env 0 3) 0 (w_conns (demo_world kConnected) 0)"
    by (auto simp: callbacks_return_def demo_conn_env_def untouched_def)
  have room: "has_room 0 (sum_list (map op_bytes ?ops)) (demo_world kConnected)"
    by (simp add: has_room_def demo_world_def demo_tcp_def small_buffer_def fill_def buf_const VEC_MAX_def)
  from sends_interleave [OF demo_loop_update(1) demo_calm demo_writes cb demo_conn_ok _ lt _ ok room, of "\<lambda>_. Inr"] r
  obtain sent ms where "sent @ waiting 0 (el_pending W') = [''one'', ''two'']"
    "ms \<in> shuffles sent [''loop'']" "w_wire W' 0 @ queued_out W' 0 = concat ms"
    by (auto simp del: run_mixed.simps)
  with r w show ?thesis by (intro exI [of _ W'] conjI exI [of _ sent] exI [of _ ms]) simp_all
qed

end
