(* ===== verification/StdLib.thy ===== *)
theory StdLib
  imports StringPiece
begin

text \<open>
  What several components use of the C and C++ libraries beyond the prelude: the decimal
  text printf writes for \<open>%d\<close>, and \<open>std::map\<close> with string keys, a list sorted by
  key with the order of \<open>std::string\<close>, which is that of the bytes.
\<close>

section \<open>Decimal numbers\<close>

definition digit_char :: "nat \<Rightarrow> char" where
  "digit_char d = char_of (48 + d mod 10)"

fun dec_nat :: "nat \<Rightarrow> char list" where
  "dec_nat n = (if n < 10 then [digit_char n] else dec_nat (n div 10) @ [digit_char (n mod 10)])"

declare dec_nat.simps [simp del]

definition decimal :: "int \<Rightarrow> char list" where
  "decimal i = (if i < 0 then CHR ''-'' # dec_nat (nat (- i)) else dec_nat (nat i))"

text \<open>Reading the digits back.\<close>

definition digit_val :: "char \<Rightarrow> nat" where
  "digit_val c = of_char c - 48"

definition dec_value :: "char list \<Rightarrow> nat" where
  "dec_value cs = foldl (\<lambda>v c. 10 * v + digit_val c) 0 cs"

lemma ubyte_digit: "ubyte (digit_char d) = 48 + d mod 10"
  unfolding ubyte_def digit_char_def
  by (simp add: take_bit_eq_mod)

lemma digit_val_char [simp]: "digit_val (digit_char d) = d mod 10"
  using ubyte_digit [of d] by (simp add: digit_val_def ubyte_def)

lemma dec_value_append: "dec_value (xs @ [c]) = 10 * dec_value xs + digit_val c"
  by (simp add: dec_value_def)

lemma dec_value_nat: "dec_value (dec_nat n) = n"
proof (induction n rule: dec_nat.induct)
  case (1 n)
  then show ?case
    by (subst dec_nat.simps) (auto simp: dec_value_append, simp add: dec_value_def)
qed

lemma dec_nat_inj: "dec_nat m = dec_nat n \<longleftrightarrow> m = n"
  by (metis dec_value_nat)

lemma dec_nat_digits: "c \<in> set (dec_nat n) \<Longrightarrow> \<exists>d. c = digit_char d"
  by (induction n rule: dec_nat.induct) (subst (asm) (2) dec_nat.simps, auto split: if_splits)

lemma digit_char_range: "48 \<le> ubyte (digit_char d) \<and> ubyte (digit_char d) < 58"
  by (simp add: ubyte_digit)

lemma dec_nat_no: "ubyte c < 48 \<or> 58 \<le> ubyte c \<Longrightarrow> c \<notin> set (dec_nat n)"
  using dec_nat_digits [of c n] digit_char_range by (metis not_le)

lemma dec_nat_ne [simp]: "dec_nat n \<noteq> []"
  by (subst dec_nat.simps) simp

lemma minus_no_digit: "CHR ''-'' \<notin> set (dec_nat n)" "CHR ''#'' \<notin> set (dec_nat n)"
  by (intro dec_nat_no, simp add: ubyte_def)+

lemma decimal_inj: "decimal i = decimal j \<longleftrightarrow> i = j"
proof
  assume e: "decimal i = decimal j"
  have "(i < 0) = (j < 0)"
    using e minus_no_digit(1) [of "nat i"] minus_no_digit(1) [of "nat j"]
    by (auto simp: decimal_def split: if_splits) (metis list.set_intros(1))+
  with e show "i = j" by (auto simp: decimal_def dec_nat_inj split: if_splits)
qed simp

lemma hash_no_decimal: "CHR ''#'' \<notin> set (decimal i)"
  using minus_no_digit(2) by (auto simp: decimal_def)

lemma dec_nat_length: "n < 10 ^ Suc k \<Longrightarrow> length (dec_nat n) \<le> Suc k"
proof (induction k arbitrary: n)
  case 0
  then show ?case by (subst dec_nat.simps) simp
next
  case (Suc k)
  have "n div 10 < 10 ^ Suc k" using Suc.prems by (simp add: less_mult_imp_div_less)
  with Suc.IH show ?case by (subst dec_nat.simps) simp
qed

text \<open>An \<open>int\<close> prints in at most eleven characters, a 64-bit integer in at most twenty.\<close>

lemma decimal_int_length:
  assumes "-(2 ^ 31) \<le> i" "i < 2 ^ 31"
  shows "length (decimal i) \<le> 11"
proof -
  have "nat \<bar>i\<bar> < 10 ^ Suc 9" using assms by simp
  then have "length (dec_nat (nat \<bar>i\<bar>)) \<le> 10" using dec_nat_length by fastforce
  then show ?thesis by (auto simp: decimal_def)
qed

section \<open>Maps with string keys\<close>

fun smap_set :: "char list \<Rightarrow> 'v \<Rightarrow> (char list \<times> 'v) list \<Rightarrow> (char list \<times> 'v) list" where
  "smap_set k v [] = [(k, v)]"
| "smap_set k v ((k', v') # m) =
     (if lex_cmp k k' < 0 then (k, v) # (k', v') # m
      else if lex_cmp k' k < 0 then (k', v') # smap_set k v m
      else (k, v) # m)"

definition smap_erase :: "char list \<Rightarrow> (char list \<times> 'v) list \<Rightarrow> (char list \<times> 'v) list" where
  "smap_erase k m = filter (\<lambda>(k', _). k' \<noteq> k) m"

definition smap_ok :: "(char list \<times> 'v) list \<Rightarrow> bool" where
  "smap_ok m \<longleftrightarrow> sorted_wrt (\<lambda>a b. lex_cmp a b < 0) (map fst m)"

lemma lex_less_trans:
  assumes "lex_cmp a b < 0" "lex_cmp b c < 0"
  shows "lex_cmp a c < 0"
proof -
  have "lex_cmp a c \<le> 0" using lex_cmp_trans [of a b c] assms by simp
  moreover have "lex_cmp a c \<noteq> 0"
    using assms lex_cmp_swap [of b a] by (auto simp: lex_cmp_zero)
  ultimately show ?thesis by simp
qed

lemma lex_neq: "lex_cmp a b \<noteq> 0 \<Longrightarrow> \<not> lex_cmp a b < 0 \<Longrightarrow> lex_cmp b a < 0"
  using lex_cmp_swap [of b a] by simp

lemma lex_less_irrefl: "lex_cmp a b < 0 \<Longrightarrow> a \<noteq> b"
  using lex_cmp_zero [of a b] by auto

lemma smap_set_lookup: "map_of (smap_set k v m) = (map_of m)(k \<mapsto> v)"
proof (induction m)
  case (Cons x m)
  obtain k' v' where x: "x = (k', v')" by (cases x)
  have "\<not> lex_cmp k k' < 0 \<Longrightarrow> \<not> lex_cmp k' k < 0 \<Longrightarrow> k = k'"
    using lex_neq [of k k'] lex_cmp_zero by blast
  with Cons x lex_less_irrefl show ?case by (auto simp: fun_eq_iff)
qed simp

lemma smap_set_keys: "fst ` set (smap_set k v m) = insert k (fst ` set m)"
proof (induction m)
  case (Cons x m)
  obtain k' v' where x: "x = (k', v')" by (cases x)
  have "\<not> lex_cmp k k' < 0 \<Longrightarrow> \<not> lex_cmp k' k < 0 \<Longrightarrow> k = k'"
    using lex_neq [of k k'] lex_cmp_zero by blast
  with Cons x show ?case by auto
qed simp

lemma smap_set_elem: "x \<in> set (smap_set k v m) \<Longrightarrow> x = (k, v) \<or> x \<in> set m"
  by (induction m) (auto split: if_splits)

lemma smap_set_ok: "smap_ok m \<Longrightarrow> smap_ok (smap_set k v m)"
proof (induction m)
  case (Cons x m)
  obtain k' v' where x: "x = (k', v')" by (cases x)
  have keys: "fst ` set (smap_set k v m) = insert k (fst ` set m)" by (rule smap_set_keys)
  have "\<not> lex_cmp k k' < 0 \<Longrightarrow> \<not> lex_cmp k' k < 0 \<Longrightarrow> k = k'"
    using lex_neq [of k k'] lex_cmp_zero by blast
  with Cons x keys show ?case
    by (auto simp: smap_ok_def dest: lex_less_trans)
qed (simp add: smap_ok_def)

lemma smap_ok_distinct: "smap_ok m \<Longrightarrow> distinct (map fst m)"
proof (induction m)
  case (Cons x m)
  then show ?case using lex_less_irrefl by (fastforce simp: smap_ok_def)
qed simp

lemma smap_erase_lookup: "map_of (smap_erase k m) = (map_of m)(k := None)"
  by (induction m) (auto simp: smap_erase_def fun_eq_iff)

lemma smap_erase_ok: "smap_ok m \<Longrightarrow> smap_ok (smap_erase k m)"
  by (auto simp: smap_ok_def smap_erase_def sorted_wrt_map intro: sorted_wrt_filter)

lemma smap_erase_set: "set (smap_erase k m) = {x \<in> set m. fst x \<noteq> k}"
  by (auto simp: smap_erase_def)

end
