(* ===== verification/Sockets.thy ===== *)
theory Sockets
  imports StdLib NetBuffer
begin

text \<open>
  \<open>Socket\<close> (src/net/socket.h, src/net/socket.cpp) and \<open>InetAddress\<close> (src/net/inet_address.h): an
  operation is the sequence of the system calls it makes, whose results are the
  argument \<open>sys\<close>. Of the address union the IPv4 member is modelled, the only one in use.
\<close>

section \<open>Sockets and addresses\<close>

datatype sock_call =
    SCreate
  | SBind int nat
  | SListen int
  | SReuseAddr int bool
  | SReusePort int bool
  | SKeepAlive int bool
  | SNoDelay int bool
  | SShutdownWr int
  | SClose int

definition Socket_dtor :: "int \<Rightarrow> sock_call list" where
  "Socket_dtor fd = [SClose fd]"

definition getTcpInfo :: bool where
  "getTcpInfo = False"

definition getSocketError :: int where
  "getSocketError = 0"

definition bindAddress :: "(sock_call \<Rightarrow> int) \<Rightarrow> int \<Rightarrow> nat \<Rightarrow> sock_call list res" where
  "bindAddress sys fd port =
     (if sys (SBind fd port) < 0 then Inl FatalAbort else Inr [SBind fd port])"

definition Socket_listen :: "(sock_call \<Rightarrow> int) \<Rightarrow> int \<Rightarrow> sock_call list res" where
  "Socket_listen sys fd = (if sys (SListen fd) < 0 then Inl FatalAbort else Inr [SListen fd])"

definition shutdownWrite :: "int \<Rightarrow> sock_call list" where
  "shutdownWrite fd = [SShutdownWr fd]"

definition setTcpNoDelay :: "int \<Rightarrow> bool \<Rightarrow> sock_call list" where
  "setTcpNoDelay fd on = [SNoDelay fd on]"

definition setReuseAddr :: "int \<Rightarrow> bool \<Rightarrow> sock_call list" where
  "setReuseAddr fd on = [SReuseAddr fd on]"

definition setReusePort :: "int \<Rightarrow> bool \<Rightarrow> sock_call list" where
  "setReusePort fd on = [SReusePort fd on]"

definition setKeepAlive :: "int \<Rightarrow> bool \<Rightarrow> sock_call list" where
  "setKeepAlive fd on = [SKeepAlive fd on]"

text \<open>The IPv4 variant of the union: the four bytes of the address as they are in memory
  and the port in network order.\<close>

record inet_address =
  ia_addr :: "nat list"
  ia_port :: "16 word"

definition inet_ntoa :: "nat list \<Rightarrow> char list" where
  "inet_ntoa bs = dec_nat (bs ! 0) @ ''.'' @ dec_nat (bs ! 1) @ ''.'' @ dec_nat (bs ! 2) @ ''.'' @ dec_nat (bs ! 3)"

definition InetAddress_toString :: "inet_address \<Rightarrow> char list" where
  "InetAddress_toString a = inet_ntoa (ia_addr a) @ '':'' @ dec_nat (unat (hton16 (ia_port a)))"

text \<open>\<open>accept\<close>: \<open>res\<close> is the descriptor the kernel returns and the peer's address; on an
  error the address object keeps the value it had.\<close>

definition Socket_accept :: "int \<times> inet_address \<Rightarrow> inet_address \<Rightarrow> int \<times> inet_address" where
  "Socket_accept res peeraddr = (if 0 \<le> fst res then res else (fst res, peeraddr))"

end
