(* ===== verification/TcpServer.thy ===== *)
theory TcpServer
  imports Sockets TcpProps
begin

text \<open>
  \<open>Acceptor\<close> (src/net/acceptor.cpp) and \<open>TcpServer\<close> (src/net/tcp_server.cpp). The world of
  connections is extended by the server's members, the acceptor's members, the calls
  made on sockets, in order, and by which connection objects are alive. A connection is
  destroyed when the last \<open>shared_ptr\<close> to it goes: \<open>held\<close> says which connections user
  code keeps one of.
\<close>

section \<open>State\<close>

record 'p server_world = "'p world" +
  sv_port :: int
  sv_nextConnId :: int
  sv_conn_map :: "(char list \<times> conn_ptr) list"
  sv_started :: bool
  sv_connectionCallback :: "nat option"
  sv_messageCallback :: "nat option"
  sv_writeCompleteCallback :: "nat option"
  ac_listenfd :: int
  ac_listenning :: bool
  ac_channel :: chan_ptr
  ac_new_conn_cb :: bool
  sk_calls :: "sock_call list"
  cn_next :: conn_ptr
  cn_alive :: "conn_ptr \<Rightarrow> bool"

type_synonym ('p, 'z) sworld = "('p, 'z) server_world_scheme"

definition sock_do :: "sock_call list \<Rightarrow> ('p, 'z) sworld \<Rightarrow> ('p, 'z) sworld" where
  "sock_do calls W = W\<lparr>sk_calls := sk_calls W @ calls\<rparr>"

section \<open>Connections of the server\<close>

text \<open>Dropping a \<open>shared_ptr\<close> that may be the last one: the destructor of the connection, then
  that of its socket.\<close>

definition release :: "(conn_ptr \<Rightarrow> bool) \<Rightarrow> conn_ptr \<Rightarrow> ('p, 'z) sworld \<Rightarrow> ('p, 'z) sworld res" where
  "release held c W =
     (if held c then Inr W
      else bindE (TcpConnection_dtor c W) (\<lambda>W1.
           Inr (sock_do (Socket_dtor (tc_sockfd (w_conns W1 c)))
                  (W1\<lparr>cn_alive := (cn_alive W1)(c := False)\<rparr>))))"

text \<open>The two operations of a connection that go to its socket alone.\<close>

definition conn_setTcpNoDelay :: "bool \<Rightarrow> conn_ptr \<Rightarrow> ('p, 'z) sworld \<Rightarrow> ('p, 'z) sworld" where
  "conn_setTcpNoDelay on c W = sock_do (setTcpNoDelay (tc_sockfd (w_conns W c)) on) W"

definition conn_getTcpInfo :: "conn_ptr \<Rightarrow> ('p, 'z) sworld \<Rightarrow> bool" where
  "conn_getTcpInfo c W = getTcpInfo"

definition removeConnection :: "conn_ptr \<Rightarrow> ('p, 'z) sworld \<Rightarrow> ('p, 'z) sworld" where
  "removeConnection c W =
     W\<lparr>sv_conn_map := smap_erase (tc_name (w_conns W c)) (sv_conn_map W)\<rparr>"

text \<open>The close callback of every connection is bound to \<open>removeConnection\<close>. The temporary
  \<open>shared_ptr\<close> of \<open>handleClose\<close> dies right behind it.\<close>

definition server_env ::
  "(conn_ptr \<Rightarrow> bool) \<Rightarrow> ('p, ('p, 'z) sworld) conn_env \<Rightarrow> ('p, ('p, 'z) sworld) conn_env" where
  "server_env held env =
     env\<lparr>ce_call := (\<lambda>k c W. case k of
           CloseCb n \<Rightarrow> release held c (removeConnection c W)
         | _ \<Rightarrow> ce_call env k c W)\<rparr>"

definition conn_name :: "int \<Rightarrow> int \<Rightarrow> char list" where
  "conn_name port i = take 63 (decimal port @ ''#'' @ decimal i)"

text \<open>The part of \<open>newConnection\<close> up to the assignment \<open>conn_map_[buf] = conn\<close>.\<close>

definition add_connection ::
  "(conn_ptr \<Rightarrow> bool) \<Rightarrow> 32 word \<Rightarrow> int \<Rightarrow> char list \<Rightarrow> ('p, 'z) sworld \<Rightarrow> ('p, 'z) sworld res" where
  "add_connection held junk sockfd peer W =
     (let name = conn_name (sv_port W) (sv_nextConnId W); c = cn_next W in
      bindE (TcpConnection_ctor junk name sockfd peer c (W\<lparr>sv_nextConnId := sv_nextConnId W + 1\<rparr>)) (\<lambda>W1.
      let W2 = W1\<lparr>cn_next := Suc c, cn_alive := (cn_alive W1)(c := True),
                  sv_conn_map := smap_set name c (sv_conn_map W1)\<rparr> in
      case map_of (sv_conn_map W1) name of
        Some old \<Rightarrow> release held old W2
      | None \<Rightarrow> Inr W2))"

definition newConnection ::
  "(conn_ptr \<Rightarrow> bool) \<Rightarrow> 32 word \<Rightarrow> ('p, ('p, 'z) sworld) conn_env \<Rightarrow> int \<Rightarrow> char list \<Rightarrow>
   ('p, 'z) sworld \<Rightarrow> ('p, 'z) sworld res" where
  "newConnection held junk env sockfd peer W =
     bindE (assertE (isLoopThread (ce_tid env) W)) (\<lambda>_.
     bindE (add_connection held junk sockfd peer W) (\<lambda>W1.
     let c = cn_next W;
         W2 = setCloseCallback (Some 0) c
                (setWriteCompleteCallback (sv_writeCompleteCallback W1) c
                  (setMessageCallback (sv_messageCallback W1) c
                    (setConnectionCallback (sv_connectionCallback W1) c W1)))
     in connectEstablished (server_env held env) c W2))"

section \<open>The acceptor\<close>

definition Acceptor_ctor ::
  "(sock_call \<Rightarrow> int) \<Rightarrow> 32 word \<Rightarrow> ('p, ('p, 'z) sworld) conn_env \<Rightarrow> int \<Rightarrow>
   ('p, 'z) sworld \<Rightarrow> ('p, 'z) sworld res" where
  "Acceptor_ctor sys junk env port W =
     (let fd = sys SCreate; ch = el_next_ptr W in
      if fd < 0 then Inl FatalAbort
      else bindE (bindAddress sys fd (nat (port mod 65536))) (\<lambda>bcalls.
        let chan = setConnHandler AcceptConn (setEvent CHANNEL_CONN (Channel_ctor junk fd True));
            W1 = sock_do ([SCreate] @ setReuseAddr fd True @ setReusePort fd True @ bcalls)
                   (W\<lparr>el_heap := (el_heap W)(ch := chan), el_next_ptr := Suc ch, ac_listenfd := fd,
                      ac_listenning := False, ac_channel := ch, ac_new_conn_cb := False\<rparr>)
        in updateChannel (ce_loop env) (ce_tid env) ch W1))"

text \<open>\<open>~Acceptor\<close> closes the descriptor, then its member \<open>accept_sock_\<close> closes it again.\<close>

definition Acceptor_dtor ::
  "('p, ('p, 'z) sworld) conn_env \<Rightarrow> ('p, 'z) sworld \<Rightarrow> ('p, 'z) sworld res" where
  "Acceptor_dtor env W =
     bindE (removeChannel (ce_loop env) (ce_tid env) (ac_channel W) W) (\<lambda>W1.
       Inr (sock_do ([SClose (ac_listenfd W1)] @ Socket_dtor (ac_listenfd W1)) W1))"

definition do_listen :: "(sock_call \<Rightarrow> int) \<Rightarrow> ('p, 'z) sworld \<Rightarrow> ('p, 'z) sworld res" where
  "do_listen sys W =
     bindE (Socket_listen sys (ac_listenfd W)) (\<lambda>calls.
       Inr ((sock_do calls W)\<lparr>ac_listenning := True\<rparr>))"

definition Acceptor_listen ::
  "(sock_call \<Rightarrow> int) \<Rightarrow> ('p, ('p, 'z) sworld) conn_env \<Rightarrow> ('p, 'z) sworld \<Rightarrow> ('p, 'z) sworld res" where
  "Acceptor_listen sys env W = runInLoop (ce_tid env) (do_listen sys) (UserFn ListenFn) W"

text \<open>\<open>addr\<close> is the uninitialised address object of the stack frame. The new connection is
  made whatever \<open>accept\<close> returned.\<close>

definition handleConn ::
  "(conn_ptr \<Rightarrow> bool) \<Rightarrow> 32 word \<Rightarrow> ('p, ('p, 'z) sworld) conn_env \<Rightarrow> int \<times> inet_address \<Rightarrow>
   inet_address \<Rightarrow> ('p, 'z) sworld \<Rightarrow> ('p, 'z) sworld res" where
  "handleConn held junk env res addr W =
     (let (connfd, peer) = Socket_accept res addr
      in if ac_new_conn_cb W
         then newConnection held junk env connfd (InetAddress_toString peer) W
         else Inr W)"

section \<open>The server\<close>

definition TcpServer_ctor ::
  "(sock_call \<Rightarrow> int) \<Rightarrow> 32 word \<Rightarrow> ('p, ('p, 'z) sworld) conn_env \<Rightarrow> int \<Rightarrow>
   ('p, 'z) sworld \<Rightarrow> ('p, 'z) sworld res" where
  "TcpServer_ctor sys junk env port W =
     bindE (Acceptor_ctor sys junk env port (W\<lparr>sv_port := port, sv_nextConnId := 0\<rparr>)) (\<lambda>W1.
       Inr (W1\<lparr>sv_conn_map := [], sv_started := False, ac_new_conn_cb := True,
               sv_connectionCallback := None, sv_messageCallback := None,
               sv_writeCompleteCallback := None\<rparr>))"

definition TcpServer_start ::
  "(sock_call \<Rightarrow> int) \<Rightarrow> ('p, ('p, 'z) sworld) conn_env \<Rightarrow> ('p, 'z) sworld \<Rightarrow> ('p, 'z) sworld res" where
  "TcpServer_start sys env W =
     (if sv_started W then Inr W else Acceptor_listen sys env (W\<lparr>sv_started := True\<rparr>))"

definition server_setConnectionCallback :: "nat option \<Rightarrow> ('p, 'z) sworld \<Rightarrow> ('p, 'z) sworld" where
  "server_setConnectionCallback cb W = W\<lparr>sv_connectionCallback := cb\<rparr>"

definition server_setMessageCallback :: "nat option \<Rightarrow> ('p, 'z) sworld \<Rightarrow> ('p, 'z) sworld" where
  "server_setMessageCallback cb W = W\<lparr>sv_messageCallback := cb\<rparr>"

definition server_setWriteCompleteCallback :: "nat option \<Rightarrow> ('p, 'z) sworld \<Rightarrow> ('p, 'z) sworld" where
  "server_setWriteCompleteCallback cb W = W\<lparr>sv_writeCompleteCallback := cb\<rparr>"

fun shutdown_all ::
  "(conn_ptr \<Rightarrow> bool) \<Rightarrow> ('p, ('p, 'z) sworld) conn_env \<Rightarrow> (char list \<times> conn_ptr) list \<Rightarrow>
   ('p, 'z) sworld \<Rightarrow> ('p, 'z) sworld res" where
  "shutdown_all held env [] W = Inr W"
| "shutdown_all held env ((name, c) # m) W =
     bindE (shutdown env c W) (\<lambda>W1. bindE (release held c W1) (shutdown_all held env m))"

definition TcpServer_dtor ::
  "(conn_ptr \<Rightarrow> bool) \<Rightarrow> ('p, ('p, 'z) sworld) conn_env \<Rightarrow> ('p, 'z) sworld \<Rightarrow> ('p, 'z) sworld res" where
  "TcpServer_dtor held env W =
     bindE (assertE (isLoopThread (ce_tid env) W)) (\<lambda>_.
     bindE (shutdown_all held (server_env held env) (sv_conn_map W) W) (\<lambda>W1.
       Acceptor_dtor env (W1\<lparr>sv_conn_map := []\<rparr>)))"

text \<open>What the loop runs: a handler or a functor of a connection that was destroyed is an
  access through a dangling pointer.\<close>

definition server_handler where
  "server_handler held junk env accepted addr h W =
     (case h of
        AcceptConn \<Rightarrow> handleConn held junk env accepted addr W
      | ConnRead c \<Rightarrow> if cn_alive W c then handleRead (server_env held env) c W else Inl NullDeref
      | ConnWrite c \<Rightarrow> if cn_alive W c then handleWrite (server_env held env) c W else Inl NullDeref
      | OtherHandler n \<Rightarrow> Inr W)"

fun fn_conn :: "conn_fn \<Rightarrow> conn_ptr option" where
  "fn_conn (SendInLoopFn c s) = Some c"
| "fn_conn (ShutdownInLoopFn c) = Some c"
| "fn_conn _ = None"

definition server_exec where
  "server_exec sys held env f W =
     (case f of
        ListenFn \<Rightarrow> do_listen sys W
      | _ \<Rightarrow>
        (case fn_conn f of
           Some c \<Rightarrow> if cn_alive W c then conn_exec (server_env held env) (\<lambda>_. Inr) f W
                     else Inl NullDeref
         | None \<Rightarrow> conn_exec (server_env held env) (\<lambda>_. Inr) f W))"

section \<open>The invariant of the server\<close>

text \<open>The map is ordered, each entry is a live connection under its own name, and the
  names are those given out so far.\<close>

definition server_ok :: "('p, 'z) sworld \<Rightarrow> bool" where
  "server_ok W \<longleftrightarrow>
     smap_ok (sv_conn_map W) \<and> -(2 ^ 31) \<le> sv_port W \<and> sv_port W < 2 ^ 31 \<and>
     0 \<le> sv_nextConnId W \<and> sv_nextConnId W < 2 ^ 31 \<and>
     (\<forall>(name, c)\<in>set (sv_conn_map W).
        c < cn_next W \<and> cn_alive W c \<and> tc_name (w_conns W c) = name \<and>
        (\<exists>i. 0 \<le> i \<and> i < sv_nextConnId W \<and> name = conn_name (sv_port W) i))"

text \<open>Two worlds that agree on all the invariant depends on.\<close>

definition sv_same :: "('p, 'z) sworld \<Rightarrow> ('p, 'z) sworld \<Rightarrow> bool" where
  "sv_same W W' \<longleftrightarrow>
     sv_port W' = sv_port W \<and> sv_nextConnId W' = sv_nextConnId W \<and> sv_conn_map W' = sv_conn_map W \<and>
     cn_next W' = cn_next W \<and> cn_alive W' = cn_alive W \<and>
     (\<forall>c. tc_name (w_conns W' c) = tc_name (w_conns W c))"

definition keeps_server :: "('p, 'z) sworld \<Rightarrow> ('p, 'z) sworld \<Rightarrow> bool" where
  "keeps_server W W' \<longleftrightarrow>
     sv_nextConnId W' = sv_nextConnId W \<and> (server_ok W \<longrightarrow> server_ok W')"

lemma sv_same_keeps: "sv_same W W' \<Longrightarrow> keeps_server W W'"
  by (simp add: sv_same_def keeps_server_def server_ok_def)

lemma keeps_refl: "keeps_server W W"
  by (simp add: keeps_server_def)

lemma keeps_trans: "keeps_server W W1 \<Longrightarrow> keeps_server W1 W2 \<Longrightarrow> keeps_server W W2"
  by (simp add: keeps_server_def)

lemma sv_frame [simp]:
  "sv_port (do_update le p W) = sv_port W" "sv_nextConnId (do_update le p W) = sv_nextConnId W"
  "sv_conn_map (do_update le p W) = sv_conn_map W" "cn_next (do_update le p W) = cn_next W"
  "cn_alive (do_update le p W) = cn_alive W"
  "sv_port (do_remove le p W) = sv_port W" "sv_nextConnId (do_remove le p W) = sv_nextConnId W"
  "sv_conn_map (do_remove le p W) = sv_conn_map W" "cn_next (do_remove le p W) = cn_next W"
  "cn_alive (do_remove le p W) = cn_alive W"
  "sv_port (queueInLoop tid f W) = sv_port W" "sv_nextConnId (queueInLoop tid f W) = sv_nextConnId W"
  "sv_conn_map (queueInLoop tid f W) = sv_conn_map W" "cn_next (queueInLoop tid f W) = cn_next W"
  "cn_alive (queueInLoop tid f W) = cn_alive W"
  "sv_port (upd_conn d g W) = sv_port W" "sv_nextConnId (upd_conn d g W) = sv_nextConnId W"
  "sv_conn_map (upd_conn d g W) = sv_conn_map W" "cn_next (upd_conn d g W) = cn_next W"
  "cn_alive (upd_conn d g W) = cn_alive W"
  "sv_port (set_conn_event d e W) = sv_port W" "sv_nextConnId (set_conn_event d e W) = sv_nextConnId W"
  "sv_conn_map (set_conn_event d e W) = sv_conn_map W" "cn_next (set_conn_event d e W) = cn_next W"
  "cn_alive (set_conn_event d e W) = cn_alive W"
  by (simp_all add: do_update_def do_remove_def queueInLoop_def loop_wakeup_def upd_conn_def
      set_conn_event_def Let_def split: prod.split)

lemma name_upd_conn:
  "tc_name (w_conns (upd_conn d f W) c) = (if c = d then tc_name (f (w_conns W d)) else tc_name (w_conns W c))"
  by simp

interpretation srv: conn_relation "keeps_server :: ('p, 'z) sworld \<Rightarrow> ('p, 'z) sworld \<Rightarrow> bool"
proof unfold_locales
  fix W W1 W2 :: "('p, 'z) sworld"
  show "keeps_server W W1 \<Longrightarrow> keeps_server W1 W2 \<Longrightarrow> keeps_server W W2" by (rule keeps_trans)
qed (auto intro!: sv_same_keeps simp: sv_same_def name_upd_conn setState_def)

lemma conn_name_inj:
  assumes "-(2 ^ 31) \<le> p" "p < 2 ^ 31" "0 \<le> i" "i < 2 ^ 31" "0 \<le> j" "j < 2 ^ 31"
    and "conn_name p i = conn_name p j"
  shows "i = j"
proof -
  have len: "length (decimal p @ ''#'' @ decimal k) \<le> 63" if "0 \<le> k" "k < 2 ^ 31" for k
    using decimal_int_length [OF assms(1,2)] decimal_int_length [of k] that by simp
  have "decimal p @ ''#'' @ decimal i = decimal p @ ''#'' @ decimal j"
    using assms(7) len [OF assms(3,4)] len [OF assms(5,6)] by (simp add: conn_name_def)
  then show ?thesis by (simp add: decimal_inj)
qed

lemma removeConnection_keeps: "keeps_server W (removeConnection c W)"
  by (auto simp: keeps_server_def server_ok_def removeConnection_def smap_erase_ok smap_erase_set)

text \<open>A connection may die once no entry of the map is it.\<close>

lemma release_keeps:
  assumes "c \<notin> snd ` set (sv_conn_map W)" "release held c W = Inr W'"
  shows "keeps_server W W'"
proof -
  have "W' = W \<or> W' = sock_do (Socket_dtor (tc_sockfd (w_conns W c))) (W\<lparr>cn_alive := (cn_alive W)(c := False)\<rparr>)"
    using assms(2) by (auto simp: release_def TcpConnection_dtor_def split: if_splits)
  moreover have "keeps_server W (sock_do cs (W\<lparr>cn_alive := (cn_alive W)(c := False)\<rparr>))" for cs
  proof -
    have "d \<noteq> c" if "(n, d) \<in> set (sv_conn_map W)" for n d
      using assms(1) that by force
    then show ?thesis by (auto simp: keeps_server_def server_ok_def sock_do_def)
  qed
  ultimately show ?thesis using keeps_refl by auto
qed

lemma close_keeps:
  assumes "release held c (removeConnection c W) = Inr W'"
  shows "keeps_server W W'"
proof (cases "server_ok W")
  case True
  then have "c \<notin> snd ` set (sv_conn_map (removeConnection c W))"
    by (auto simp: removeConnection_def smap_erase_set server_ok_def)
  from keeps_trans [OF removeConnection_keeps release_keeps [OF this assms]] show ?thesis .
next
  case False
  have "sv_nextConnId W' = sv_nextConnId W"
    using assms
    by (auto simp: release_def TcpConnection_dtor_def removeConnection_def sock_do_def split: if_splits)
  with False show ?thesis by (simp add: keeps_server_def)
qed

lemma server_env_respects:
  assumes "cb_respects keeps_server env"
  shows "cb_respects keeps_server (server_env held env)"
  using assms close_keeps
  by (auto simp: cb_respects_def server_env_def split: cb_call.splits)

lemma server_env_simps [simp]:
  "ce_loop (server_env held env) = ce_loop env" "ce_tid (server_env held env) = ce_tid env"
  "ce_write (server_env held env) = ce_write env" "ce_readv (server_env held env) = ce_readv env"
  by (simp_all add: server_env_def)

section \<open>Making a connection\<close>

definition fresh_buffer :: buffer where
  "fresh_buffer = \<lparr>buf_data = replicate 1032 (CHR 0x00), readerIndex = 8, writerIndex = 8\<rparr>"

definition fresh_tcp :: "char list \<Rightarrow> int \<Rightarrow> char list \<Rightarrow> chan_ptr \<Rightarrow> tcp_conn" where
  "fresh_tcp name fd peer ch =
     \<lparr>tc_name = name, tc_sockfd = fd, tc_peer = peer, tc_channel = ch,
      tc_highWaterMark = 64 * 1024 * 1024, tc_state = kConnecting,
      tc_connectionCallback = None, tc_messageCallback = None, tc_writeCompleteCallback = None,
      tc_highWaterMarkCallback = None, tc_closeCallback = None,
      tc_inputBuffer = fresh_buffer, tc_outputBuffer = fresh_buffer\<rparr>"

lemma fresh_buffer_ok: "Buffer_ctor kInitialSize = Inr fresh_buffer" "buf_ok fresh_buffer"
  "content fresh_buffer = []"
  using Buffer_ctor_default
  by (auto simp: Buffer_ctor_def Let_def readableBytes_def writableBytes_def sz_sub_def buf_const
      fresh_buffer_def)

lemma TcpConnection_ctor_eq:
  "TcpConnection_ctor junk name fd peer c W =
     Inr (W\<lparr>el_heap := (el_heap W)(el_next_ptr W :=
              setWriteHandler (ConnWrite c) (setReadHandler (ConnRead c) (Channel_ctor junk fd False))),
            el_next_ptr := Suc (el_next_ptr W),
            w_conns := (w_conns W)(c := fresh_tcp name fd peer (el_next_ptr W)),
            w_wire := (w_wire W)(c := []), w_shut := (w_shut W)(c := False)\<rparr>)"
  by (simp add: TcpConnection_ctor_def fresh_buffer_ok(1) fresh_tcp_def Let_def)

text \<open>The world in which the new connection is established.\<close>

definition with_connection :: "32 word \<Rightarrow> int \<Rightarrow> char list \<Rightarrow> ('p, 'z) sworld \<Rightarrow> ('p, 'z) sworld" where
  "with_connection junk fd peer W =
     (let c = cn_next W; ch = el_next_ptr W; name = conn_name (sv_port W) (sv_nextConnId W) in
      W\<lparr>el_heap := (el_heap W)(ch :=
           setWriteHandler (ConnWrite c) (setReadHandler (ConnRead c) (Channel_ctor junk fd False))),
        el_next_ptr := Suc ch, w_conns := (w_conns W)(c := fresh_tcp name fd peer ch),
        w_wire := (w_wire W)(c := []), w_shut := (w_shut W)(c := False),
        sv_nextConnId := sv_nextConnId W + 1, sv_conn_map := smap_set name c (sv_conn_map W),
        cn_next := Suc c, cn_alive := (cn_alive W)(c := True)\<rparr>)"

lemma server_name_fresh:
  assumes "server_ok W"
  shows "map_of (sv_conn_map W) (conn_name (sv_port W) (sv_nextConnId W)) = None"
proof -
  have "conn_name (sv_port W) (sv_nextConnId W) \<noteq> name" if e: "(name, c) \<in> set (sv_conn_map W)" for name c
  proof
    assume n: "conn_name (sv_port W) (sv_nextConnId W) = name"
    obtain i where i: "0 \<le> i" "i < sv_nextConnId W" "name = conn_name (sv_port W) i"
      using assms e by (auto simp: server_ok_def)
    have "sv_nextConnId W = i"
      by (rule conn_name_inj) (use assms i n in \<open>auto simp: server_ok_def\<close>)
    with i show False by simp
  qed
  then show ?thesis by (force simp: map_of_eq_None_iff)
qed

lemma add_connection_eq:
  assumes "server_ok W"
  shows "add_connection held junk fd peer W = Inr (with_connection junk fd peer W)"
  using server_name_fresh [OF assms]
  by (simp add: add_connection_def TcpConnection_ctor_eq with_connection_def Let_def)

lemma with_connection_ok:
  assumes "server_ok W" "sv_nextConnId W + 1 < 2 ^ 31"
  shows "server_ok (with_connection junk fd peer W)"
proof -
  let ?name = "conn_name (sv_port W) (sv_nextConnId W)"
  have old: "c < cn_next W \<and> cn_alive W c \<and> tc_name (w_conns W c) = name \<and>
      (\<exists>i. 0 \<le> i \<and> i < sv_nextConnId W \<and> name = conn_name (sv_port W) i)"
    if "(name, c) \<in> set (sv_conn_map W)" for name c
    using assms(1) that by (auto simp: server_ok_def)
  have "x = (?name, cn_next W) \<or> x \<in> set (sv_conn_map W)"
    if "x \<in> set (smap_set ?name (cn_next W) (sv_conn_map W))" for x
    using that by (rule smap_set_elem)
  moreover have "\<exists>i. 0 \<le> i \<and> i < sv_nextConnId W + 1 \<and> ?name = conn_name (sv_port W) i"
    using assms(1) by (intro exI [of _ "sv_nextConnId W"]) (simp add: server_ok_def)
  ultimately show ?thesis
    using assms old
    by (fastforce simp: server_ok_def with_connection_def Let_def smap_set_ok fresh_tcp_def
        intro: less_SucI)
qed

definition wired_connection :: "32 word \<Rightarrow> int \<Rightarrow> char list \<Rightarrow> ('p, 'z) sworld \<Rightarrow> ('p, 'z) sworld" where
  "wired_connection junk fd peer W =
     (let c = cn_next W; W1 = with_connection junk fd peer W in
      setCloseCallback (Some 0) c (setWriteCompleteCallback (sv_writeCompleteCallback W1) c
        (setMessageCallback (sv_messageCallback W1) c
          (setConnectionCallback (sv_connectionCallback W1) c W1))))"

definition established ::
  "('p, ('p, 'z) sworld) conn_env \<Rightarrow> 32 word \<Rightarrow> int \<Rightarrow> char list \<Rightarrow> ('p, 'z) sworld \<Rightarrow> ('p, 'z) sworld" where
  "established env junk fd peer W =
     (let c = cn_next W;
          W3 = set_conn_event c CHANNEL_READ (setState kConnected c (wired_connection junk fd peer W))
      in do_update (ce_loop env) (tc_channel (w_conns W3 c)) W3)"

lemmas wiring_defs = wired_connection_def setCloseCallback_def setWriteCompleteCallback_def
  setMessageCallback_def setConnectionCallback_def setState_def with_connection_def

definition established_tcp :: "int \<Rightarrow> char list \<Rightarrow> ('p, 'z) sworld \<Rightarrow> tcp_conn" where
  "established_tcp fd peer W =
     (fresh_tcp (conn_name (sv_port W) (sv_nextConnId W)) fd peer (el_next_ptr W))
       \<lparr>tc_connectionCallback := sv_connectionCallback W, tc_messageCallback := sv_messageCallback W,
        tc_writeCompleteCallback := sv_writeCompleteCallback W, tc_closeCallback := Some 0,
        tc_state := kConnected\<rparr>"

lemma established_simps:
  "w_conns (established env junk fd peer W) (cn_next W) = established_tcp fd peer W"
  "w_wire (established env junk fd peer W) (cn_next W) = []"
  "sv_nextConnId (established env junk fd peer W) = sv_nextConnId W + 1"
  "sv_conn_map (established env junk fd peer W) =
     smap_set (conn_name (sv_port W) (sv_nextConnId W)) (cn_next W) (sv_conn_map W)"
  by (simp_all add: established_def established_tcp_def wiring_defs Let_def)

lemma established_ok:
  assumes "server_ok W" "sv_nextConnId W + 1 < 2 ^ 31"
  shows "server_ok (established env junk fd peer W)"
proof -
  have "sv_same (with_connection junk fd peer W) (established env junk fd peer W)"
    by (simp add: sv_same_def established_def wired_connection_def setCloseCallback_def
        setWriteCompleteCallback_def setMessageCallback_def setConnectionCallback_def setState_def
        name_upd_conn Let_def)
  from sv_same_keeps [OF this] with_connection_ok [OF assms] show ?thesis
    by (simp add: keeps_server_def)
qed

lemma newConnection_eq:
  assumes "isLoopThread (ce_tid env) W" "server_ok W"
  shows "newConnection held junk env fd peer W =
    call_cb (server_env held env) (sv_connectionCallback W) ConnectionCb (cn_next W)
      (established env junk fd peer W)"
proof -
  let ?c = "cn_next W" and ?W2 = "wired_connection junk fd peer W"
  have st2: "tc_state (w_conns ?W2 ?c) = kConnecting"
    by (simp add: wiring_defs Let_def fresh_tcp_def)
  have "isLoopThread (ce_tid env) (set_conn_event ?c CHANNEL_READ (setState kConnected ?c ?W2))"
    using assms(1) by (simp add: isLoopThread_def wiring_defs Let_def)
  then have "conn_updateChannel (server_env held env) ?c
      (set_conn_event ?c CHANNEL_READ (setState kConnected ?c ?W2)) = Inr (established env junk fd peer W)"
    by (simp add: conn_updateChannel_def updateChannel_def runInLoop_def established_def Let_def)
  then have "connectEstablished (server_env held env) ?c ?W2 =
      call_cb (server_env held env) (sv_connectionCallback W) ConnectionCb ?c (established env junk fd peer W)"
    using st2 by (simp add: connectEstablished_def established_simps established_tcp_def)
  then show ?thesis
    using assms(1) by (simp add: newConnection_def add_connection_eq [OF assms(2)] Let_def wired_connection_def)
qed

lemma established_registered:
  assumes "vt_update (ce_loop env) = epoll_upd sys ej" "\<And>call. 0 \<le> sys call"
  shows "channels (el_poller (established env junk fd peer W)) fd = Some (el_next_ptr W) \<and>
    ch_events (conn_chan (cn_next W) (established env junk fd peer W)) = CHANNEL_READ"
proof -
  let ?c = "cn_next W"
  let ?W3 = "set_conn_event ?c CHANNEL_READ (setState kConnected ?c (wired_connection junk fd peer W))"
  have sysn: "\<not> sys call < 0" "sys call \<noteq> -1" for call using assms(2) [of call] by auto
  have chan: "el_heap ?W3 (el_next_ptr W) = setEvent CHANNEL_READ
      (setWriteHandler (ConnWrite ?c) (setReadHandler (ConnRead ?c) (Channel_ctor junk fd False)))"
    and p: "tc_channel (w_conns ?W3 ?c) = el_next_ptr W"
    by (simp_all add: set_conn_event_def wiring_defs Let_def fresh_tcp_def)
  have f: "ch_fd (el_heap ?W3 (el_next_ptr W)) = fd"
    "ch_events (el_heap ?W3 (el_next_ptr W)) = CHANNEL_READ"
    unfolding chan by (simp_all add: channel_ops Channel_ctor_def)
  have nt: "\<not> has CHANNEL_READ CHANNEL_TIMER" by (simp add: has_def channel_masks)
  have V: "established env junk fd peer W = do_update (ce_loop env) (el_next_ptr W) ?W3"
    by (simp only: established_def Let_def p)
  have "channels (el_poller (do_update (ce_loop env) (el_next_ptr W) ?W3)) fd = Some (el_next_ptr W) \<and>
      el_heap (do_update (ce_loop env) (el_next_ptr W) ?W3) (el_next_ptr W) =
        updateEvent (el_heap ?W3 (el_next_ptr W))"
    by (simp add: do_update_def assms(1) epoll_upd_def epoll_update_def Let_def sysn f nt)
  then show ?thesis
    unfolding conn_chan_def established_simps V [symmetric]
    by (simp add: established_tcp_def fresh_tcp_def updateEvent_def f)
qed

section \<open>Properties\<close>

text \<open>\<open>newConnection\<close> on the loop thread: under a name no live connection of the server
  has, it enters the map, keeps the invariant of the server, and the connection callback is
  called with it when it is connected, its buffers empty, its descriptor registered with the
  poller for reading and its callbacks set.\<close>

theorem newConnection_behaviour:
  assumes "vt_update (ce_loop env) = epoll_upd sys ej" "\<And>call. 0 \<le> sys call"
    and "isLoopThread (ce_tid env) W" "server_ok W" "sv_nextConnId W + 1 < 2 ^ 31"
  shows "\<exists>V. newConnection held junk env fd peer W =
            call_cb (server_env held env) (sv_connectionCallback W) ConnectionCb (cn_next W) V \<and>
          map_of (sv_conn_map W) (conn_name (sv_port W) (sv_nextConnId W)) = None \<and>
          map_of (sv_conn_map V) =
            (map_of (sv_conn_map W))(conn_name (sv_port W) (sv_nextConnId W) \<mapsto> cn_next W) \<and>
          server_ok V \<and> sv_nextConnId V = sv_nextConnId W + 1 \<and>
          tc_state (w_conns V (cn_next W)) = kConnected \<and> conn_ok V (cn_next W) \<and>
          stream V (cn_next W) = [] \<and>
          channels (el_poller V) fd = Some (tc_channel (w_conns V (cn_next W))) \<and>
          isReading (conn_chan (cn_next W) V) \<and>
          tc_messageCallback (w_conns V (cn_next W)) = sv_messageCallback W \<and>
          tc_closeCallback (w_conns V (cn_next W)) = Some 0"
proof (intro exI [of _ "established env junk fd peer W"] conjI)
  let ?V = "established env junk fd peer W" and ?c = "cn_next W"
  note reg = established_registered [OF assms(1,2), of junk fd peer W]
  have tcp: "w_conns ?V ?c = established_tcp fd peer W" by (rule established_simps)
  show "newConnection held junk env fd peer W =
      call_cb (server_env held env) (sv_connectionCallback W) ConnectionCb ?c ?V"
    using assms(3,4) by (rule newConnection_eq)
  show "map_of (sv_conn_map W) (conn_name (sv_port W) (sv_nextConnId W)) = None"
    using assms(4) by (rule server_name_fresh)
  show "server_ok ?V" using assms(4,5) by (rule established_ok)
  show "channels (el_poller ?V) fd = Some (tc_channel (w_conns ?V ?c))"
    using reg by (simp add: tcp established_tcp_def fresh_tcp_def)
  show "conn_ok ?V ?c" "isReading (conn_chan ?c ?V)" "stream ?V ?c = []"
    using reg fresh_buffer_ok
    by (simp_all add: conn_ok_def tcp established_tcp_def fresh_tcp_def isWriting_def isReading_def
        has_def channel_masks stream_def queued_out_def established_simps)
qed (simp_all add: established_simps smap_set_lookup established_tcp_def)

text \<open>A server of port 80 on the demonstration loop, before its first connection.\<close>

definition demo_server :: "epoller server_world" where
  "demo_server =
     \<lparr>el_running = True, el_calling_pending = False, el_thread_id = 0,
      el_poller = \<lparr>channels = [4 \<mapsto> 0], wakeup_channel = 1, epollfd = 3\<rparr>,
      el_heap = (\<lambda>_. setConnHandler AcceptConn (setEvent CHANNEL_CONN (Channel_ctor 0 4 True))),
      el_next_ptr = 2, el_pending = [], el_timers = Map.empty, el_wakeups = 0,
      w_conns = (\<lambda>_. demo_tcp kDisconnected), w_wire = (\<lambda>_. []), w_shut = (\<lambda>_. False), w_calls = 0,
      sv_port = 80, sv_nextConnId = 0, sv_conn_map = [], sv_started = True,
      sv_connectionCallback = Some 1, sv_messageCallback = Some 2, sv_writeCompleteCallback = None,
      ac_listenfd = 4, ac_listenning = True, ac_channel = 0, ac_new_conn_cb = True,
      sk_calls = [], cn_next = 0, cn_alive = (\<lambda>_. False)\<rparr>"

lemma demo_server_ok: "server_ok demo_server" "isLoopThread (ce_tid (demo_conn_env 0 lim)) demo_server"
  "sv_nextConnId demo_server + 1 < 2 ^ 31" "sv_nextConnId demo_server = 0" "sv_port demo_server = 80"
  "sv_connectionCallback demo_server = Some 1" "cn_next demo_server = 0" "sv_conn_map demo_server = []"
  by (simp_all add: server_ok_def demo_server_def smap_ok_def isLoopThread_def)

theorem newConnection_behaviour_witness:
  "\<exists>V. newConnection (\<lambda>_. False) 0 (demo_conn_env 0 9) 7 ''10.0.0.1:5000'' demo_server = Inr V \<and>
       map_of (sv_conn_map V) ''80#0'' = Some 0 \<and> tc_state (w_conns V 0) = kConnected \<and>
       channels (el_poller V) 7 \<noteq> None"
proof -
  have n: "conn_name 80 0 = ''80#0''" by code_simp
  have cb: "call_cb (server_env (\<lambda>_. False) (demo_conn_env 0 9)) (Some f) ConnectionCb c V = Inr V"
    for f c and V :: "epoller server_world"
    by (simp add: call_cb_def server_env_def demo_conn_env_def)
  have "\<And>call. 0 \<le> (\<lambda>_. 0 :: int) (call :: sys_call)" by simp
  from newConnection_behaviour [OF demo_loop_update(1) [of 0 9] this demo_server_ok(2,1,3),
      where held = "\<lambda>_. False" and junk = 0 and fd = 7 and peer = "''10.0.0.1:5000''"]
  show ?thesis by (auto simp: demo_server_ok(4-8) n cb)
qed

section \<open>Runs of the server\<close>

text \<open>What the loop thread does for a server: handlers of active channels, with the result
  \<open>accept\<close> would give and the uninitialised address object, and queued closures.\<close>

datatype server_event =
    Active handler "int \<times> inet_address" inet_address
  | Closure conn_fn

definition server_step where
  "server_step sys held junk env e W =
     (case e of
        Active h accepted addr \<Rightarrow> server_handler held junk env accepted addr h W
      | Closure f \<Rightarrow> server_exec sys held env f W)"

fun run_server where
  "run_server sys held junk env [] W = Inr W"
| "run_server sys held junk env (e # es) W =
     bindE (server_step sys held junk env e W) (run_server sys held junk env es)"

definition server_steps_to :: "('p, 'z) sworld \<Rightarrow> ('p, 'z) sworld \<Rightarrow> bool" where
  "server_steps_to W W' \<longleftrightarrow> server_ok W' \<and> sv_nextConnId W' \<le> sv_nextConnId W + 1"

lemma keeps_steps: "server_ok W \<Longrightarrow> keeps_server W W' \<Longrightarrow> server_steps_to W W'"
  by (simp add: keeps_server_def server_steps_to_def)

lemma newConnection_steps:
  assumes "cb_respects keeps_server env" "server_ok W" "sv_nextConnId W + 1 < 2 ^ 31"
    and "newConnection held junk env fd peer W = Inr W'"
  shows "server_steps_to W W'"
proof -
  have lt: "isLoopThread (ce_tid env) W" using assms(4) by (auto simp: newConnection_def)
  have "call_cb (server_env held env) (sv_connectionCallback W) ConnectionCb (cn_next W)
      (established env junk fd peer W) = Inr W'"
    using assms(4) newConnection_eq [OF lt assms(2)] by simp
  from srv.call_cb_R [OF server_env_respects [OF assms(1)] this]
    established_ok [OF assms(2,3), of env junk fd peer] show ?thesis
    by (simp add: keeps_server_def server_steps_to_def established_simps)
qed

lemma do_listen_keeps: "do_listen sys W = Inr W' \<Longrightarrow> keeps_server W W'"
  by (rule sv_same_keeps) (auto simp: do_listen_def sv_same_def sock_do_def)

lemma server_step_ok:
  assumes "cb_respects keeps_server env" "server_ok W" "sv_nextConnId W + 1 < 2 ^ 31"
    and "server_step sys held junk env e W = Inr W'"
  shows "server_steps_to W W'"
proof (cases e)
  case (Closure f)
  note x = srv.conn_exec_R [OF server_env_respects [OF assms(1)]]
  have "keeps_server W W'"
    using assms(4) Closure x do_listen_keeps
    by (auto simp: server_step_def server_exec_def split: conn_fn.splits if_splits)
  with assms(2) show ?thesis by (rule keeps_steps)
next
  case (Active h accepted addr)
  note r = srv.handleRead_R [OF server_env_respects [OF assms(1)]]
    srv.handleWrite_R [OF server_env_respects [OF assms(1)]]
  show ?thesis
  proof (cases h)
    case AcceptConn
    with assms(4) Active have "(case Socket_accept accepted addr of (connfd, peer) \<Rightarrow>
        if ac_new_conn_cb W then newConnection held junk env connfd (InetAddress_toString peer) W else Inr W) = Inr W'"
      by (simp add: server_step_def server_handler_def handleConn_def)
    then show ?thesis
      using newConnection_steps [OF assms(1-3)] keeps_steps [OF assms(2) keeps_refl]
      by (auto split: prod.splits if_splits)
  next
    case (ConnRead c)
    with assms(4) Active have "keeps_server W W'"
      by (auto simp: server_step_def server_handler_def split: if_splits intro: r(1))
    with assms(2) show ?thesis by (rule keeps_steps)
  next
    case (ConnWrite c)
    with assms(4) Active have "keeps_server W W'"
      by (auto simp: server_step_def server_handler_def split: if_splits intro: r(2))
    with assms(2) show ?thesis by (rule keeps_steps)
  next
    case (OtherHandler n)
    with assms(4) Active keeps_steps [OF assms(2) keeps_refl] show ?thesis
      by (auto simp: server_step_def server_handler_def)
  qed
qed

lemma run_server_ok:
  assumes "cb_respects keeps_server env"
  shows "server_ok W \<Longrightarrow> sv_nextConnId W + int (length es) < 2 ^ 31 \<Longrightarrow>
    run_server sys held junk env es W = Inr W' \<Longrightarrow> server_ok W'"
proof (induction es arbitrary: W)
  case (Cons e es)
  then obtain W1 where s: "server_step sys held junk env e W = Inr W1" and r: "run_server sys held junk env es W1 = Inr W'"
    by auto
  have "server_steps_to W W1" using assms Cons.prems(1) _ s by (rule server_step_ok) (use Cons.prems(2) in simp)
  then show ?case using Cons.IH [OF _ _ r] Cons.prems(2) by (auto simp: server_steps_to_def)
qed simp

text \<open>C11. The map of the server, through any run of accepts, reads, writes and queued
  closures with client callbacks that leave the server's members alone: it stays ordered
  with distinct names, no connection is in it twice, each entry is a live connection
  stored under its own name, and no name is given out twice. So a live entry is never
  overwritten and a destroyed connection is never found.\<close>

theorem server_map_invariant:
  assumes "cb_respects keeps_server env" "server_ok W"
    and "sv_nextConnId W + int (length es) < 2 ^ 31"
    and "run_server sys held junk env es W = Inr W'"
  shows "distinct (map fst (sv_conn_map W')) \<and> distinct (map snd (sv_conn_map W')) \<and>
         (\<forall>name c. map_of (sv_conn_map W') name = Some c \<longrightarrow>
            cn_alive W' c \<and> tc_name (w_conns W' c) = name) \<and>
         map_of (sv_conn_map W') (conn_name (sv_port W') (sv_nextConnId W')) = None"
proof -
  have ok: "server_ok W'" using assms by (rule run_server_ok)
  then have d: "distinct (map fst (sv_conn_map W'))" by (simp add: server_ok_def smap_ok_distinct)
  have own: "cn_alive W' c \<and> tc_name (w_conns W' c) = name" if "(name, c) \<in> set (sv_conn_map W')" for name c
    using ok that by (auto simp: server_ok_def)
  then have "map fst (sv_conn_map W') = map (\<lambda>c. tc_name (w_conns W' c)) (map snd (sv_conn_map W'))"
    by (auto intro!: map_cong)
  then have "distinct (map snd (sv_conn_map W'))" using d by (metis distinct_map)
  with d own server_name_fresh [OF ok] show ?thesis by (auto dest: map_of_SomeD)
qed

lemma established_frame:
  "sv_port (established env junk fd peer W) = sv_port W"
  "cn_next (established env junk fd peer W) = Suc (cn_next W)"
  "ac_new_conn_cb (established env junk fd peer W) = ac_new_conn_cb W"
  "sv_connectionCallback (established env junk fd peer W) = sv_connectionCallback W"
  "el_thread_id (established env junk fd peer W) = el_thread_id W"
  by (simp_all add: established_def wiring_defs Let_def do_update_def set_conn_event_def upd_conn_def
      split: prod.split)

lemma demo_accept:
  assumes "el_thread_id W = 0" "server_ok W" "sv_connectionCallback W = Some f" "ac_new_conn_cb W" "0 \<le> fd"
  shows "server_step sys held junk (demo_conn_env 0 lim) (Active AcceptConn (fd, a) addr) W =
    Inr (established (demo_conn_env 0 lim) junk fd (InetAddress_toString a) W)"
proof -
  have "isLoopThread (ce_tid (demo_conn_env 0 lim)) W" using assms(1) by (simp add: isLoopThread_def)
  from newConnection_eq [OF this assms(2)] assms(3-5) show ?thesis
    by (simp add: server_step_def server_handler_def handleConn_def Socket_accept_def call_cb_def
        server_env_def demo_conn_env_def)
qed

theorem server_map_invariant_witness:
  "\<exists>W'. run_server (\<lambda>_. 0) (\<lambda>_. False) 0 (demo_conn_env 0 9)
          [Active AcceptConn (7, \<lparr>ia_addr = [10, 0, 0, 1], ia_port = 0x5000\<rparr>) \<lparr>ia_addr = [], ia_port = 0\<rparr>,
           Active AcceptConn (8, \<lparr>ia_addr = [10, 0, 0, 2], ia_port = 0x5000\<rparr>) \<lparr>ia_addr = [], ia_port = 0\<rparr>]
          demo_server = Inr W' \<and>
        sv_conn_map W' = [(''80#0'', 0), (''80#1'', 1)] \<and> distinct (map snd (sv_conn_map W'))"
proof -
  let ?a = "\<lparr>ia_addr = [10, 0, 0, 1], ia_port = 0x5000\<rparr>" and ?b = "\<lparr>ia_addr = [10, 0, 0, 2], ia_port = 0x5000\<rparr>"
  let ?z = "\<lparr>ia_addr = [], ia_port = 0\<rparr>"
  let ?es = "[Active AcceptConn (7, ?a) ?z, Active AcceptConn (8, ?b) ?z]"
  let ?e = "demo_conn_env 0 9 :: (epoller, epoller server_world) conn_env"
  let ?W1 = "established ?e 0 7 (InetAddress_toString ?a) demo_server"
  let ?W2 = "established ?e 0 8 (InetAddress_toString ?b) ?W1"
  have t: "el_thread_id demo_server = 0" "ac_new_conn_cb demo_server" by (simp_all add: demo_server_def)
  have "server_ok ?W1" using demo_server_ok(1,3) by (rule established_ok)
  then have r: "run_server (\<lambda>_. 0) (\<lambda>_. False) 0 ?e ?es demo_server = Inr ?W2"
    using demo_accept [of demo_server 1 7] demo_accept [of ?W1 1 8] t demo_server_ok
    by (simp add: established_frame)
  have n: "conn_name 80 0 = ''80#0''" "conn_name 80 1 = ''80#1''"
    "smap_set ''80#0'' (0::nat) [] = [(''80#0'', 0)]"
    "smap_set ''80#1'' (1::nat) [(''80#0'', 0)] = [(''80#0'', 0), (''80#1'', 1)]"
    by code_simp+
  have m: "sv_conn_map ?W2 = [(''80#0'', 0), (''80#1'', 1)]"
    by (simp only: established_simps established_frame demo_server_ok) (simp add: n del: smap_set.simps, simp only: One_nat_def [symmetric] n)
  have "cb_respects keeps_server ?e"
    by (simp add: cb_respects_def demo_conn_env_def keeps_refl)
  moreover have "sv_nextConnId demo_server + int (length ?es) < 2 ^ 31" by (simp add: demo_server_ok)
  ultimately have "distinct (map snd (sv_conn_map ?W2))"
    using server_map_invariant [OF _ demo_server_ok(1) _ r] by blast
  with r m show ?thesis by blast
qed

section \<open>Closing\<close>

lemma release_eq:
  "tc_state (w_conns W c) = kDisconnected \<Longrightarrow>
   release held c W = Inr (if held c then W
     else sock_do [SClose (tc_sockfd (w_conns W c))] (W\<lparr>cn_alive := (cn_alive W)(c := False)\<rparr>))"
  by (simp add: release_def TcpConnection_dtor_def Socket_dtor_def)

text \<open>The world behind the end of file on connection \<open>c\<close>, whose input buffer is left as \<open>b\<close>.\<close>

definition closing_world ::
  "('p, ('p, 'z) sworld) conn_env \<Rightarrow> conn_ptr \<Rightarrow> buffer \<Rightarrow> ('p, 'z) sworld \<Rightarrow> ('p, 'z) sworld" where
  "closing_world env c b W =
     do_remove (ce_loop env) (tc_channel (w_conns W c)) (setState kDisconnected c
       (upd_conn c (\<lambda>k. k\<lparr>tc_inputBuffer := b\<rparr>) (W\<lparr>w_calls := Suc (w_calls W)\<rparr>)))"

definition closed_world ::
  "(conn_ptr \<Rightarrow> bool) \<Rightarrow> ('p, ('p, 'z) sworld) conn_env \<Rightarrow> conn_ptr \<Rightarrow> buffer \<Rightarrow>
   ('p, 'z) sworld \<Rightarrow> ('p, 'z) sworld" where
  "closed_world held env c b W =
     (let V = removeConnection c (closing_world env c b W) in
      if held c then V
      else sock_do [SClose (tc_sockfd (w_conns W c))] (V\<lparr>cn_alive := (cn_alive V)(c := False)\<rparr>))"

lemma closing_simps:
  "w_conns (closing_world env c b W) c = (w_conns W c)\<lparr>tc_inputBuffer := b, tc_state := kDisconnected\<rparr>"
  "sv_conn_map (closing_world env c b W) = sv_conn_map W" "cn_alive (closing_world env c b W) = cn_alive W"
  "sk_calls (closing_world env c b W) = sk_calls W" "el_pending (closing_world env c b W) = el_pending W"
  by (simp_all add: closing_world_def setState_def) (simp_all add: do_remove_def upd_conn_def)

lemma eof_closes:
  assumes "isLoopThread (ce_tid env) W" "conn_ok W c"
    and "length (buf_data (tc_inputBuffer (w_conns W c))) + EXTRABUF \<le> VEC_MAX"
    and "ce_readv env (w_calls W) (readFd_capacity (tc_inputBuffer (w_conns W c))) = Inr []"
    and "readv_ok (ce_readv env (w_calls W))"
    and "tc_state (w_conns W c) = kConnected \<or> tc_state (w_conns W c) = kDisconnecting"
    and "tc_closeCallback (w_conns W c) = Some n"
  shows "\<exists>b. handleRead (server_env held env) c W = Inr (closed_world held env c b W)"
proof -
  let ?env = "server_env held env"
  obtain b where h: "handleRead ?env c W = handleClose ?env c
      (upd_conn c (\<lambda>k. k\<lparr>tc_inputBuffer := b\<rparr>) (W\<lparr>w_calls := Suc (w_calls W)\<rparr>))"
    using handleRead_cases [where env = ?env, OF assms(2) _ assms(3)] assms(4,5) by (auto simp: Let_def)
  let ?W1 = "upd_conn c (\<lambda>k. k\<lparr>tc_inputBuffer := b\<rparr>) (W\<lparr>w_calls := Suc (w_calls W)\<rparr>)"
  let ?W2 = "setState kDisconnected c ?W1" and ?W3 = "closing_world env c b W"
  have lt: "isLoopThread (ce_tid env) ?W1" "isLoopThread (ce_tid env) ?W2"
    using assms(1) by (simp_all add: isLoopThread_def setState_def)
  have st: "tc_state (w_conns ?W1 c) = kConnected \<or> tc_state (w_conns ?W1 c) = kDisconnecting"
    "tc_channel (w_conns ?W1 c) = tc_channel (w_conns W c)"
    using assms(6) by simp_all
  have "removeChannel (ce_loop env) (ce_tid env) (tc_channel (w_conns W c)) ?W2 = Inr ?W3"
    using lt(2) by (simp add: removeChannel_def runInLoop_def closing_world_def)
  then have "handleClose ?env c ?W1 = ce_call ?env (CloseCb n) c ?W3"
    using lt(1) st assms(7) by (auto simp: handleClose_def call_cb_def closing_simps)
  also have "\<dots> = Inr (closed_world held env c b W)"
    by (simp add: server_env_def release_eq removeConnection_def closing_simps closed_world_def Let_def)
  finally show ?thesis using h by auto
qed

lemma closed_world_eq:
  "closed_world (\<lambda>_. False) env c b W =
     W\<lparr>el_poller := el_poller (closing_world env c b W),
       w_conns := (w_conns W)(c := (w_conns W c)\<lparr>tc_inputBuffer := b, tc_state := kDisconnected\<rparr>),
       w_calls := Suc (w_calls W), sv_conn_map := smap_erase (tc_name (w_conns W c)) (sv_conn_map W),
       cn_alive := (cn_alive W)(c := False), sk_calls := sk_calls W @ [SClose (tc_sockfd (w_conns W c))]\<rparr>"
  by (simp add: closed_world_def closing_world_def removeConnection_def sock_do_def setState_def Let_def
      do_remove_def upd_conn_def)

lemma closing_channels:
  assumes "vt_remove (ce_loop env) = epoll_rem sys" "\<And>fd. 0 \<le> sys (EpollCtl EPOLL_CTL_DEL fd 0)"
  shows "channels (el_poller (closing_world env c b W)) =
    (channels (el_poller W))(ch_fd (conn_chan c W) := None)"
proof -
  have sys: "\<not> sys (EpollCtl EPOLL_CTL_DEL fd 0) < 0" for fd using assms(2) [of fd] by simp
  show ?thesis
    by (auto simp: closing_world_def do_remove_def assms(1) epoll_rem_def epoll_remove_def Let_def sys
        setState_def conn_chan_def)
qed

lemma peer_close_effect:
  assumes "vt_remove (ce_loop env) = epoll_rem sys" "\<And>call. 0 \<le> sys call"
    and "isLoopThread (ce_tid env) W" "conn_ok W c"
    and "length (buf_data (tc_inputBuffer (w_conns W c))) + EXTRABUF \<le> VEC_MAX"
    and "ce_readv env (w_calls W) (readFd_capacity (tc_inputBuffer (w_conns W c))) = Inr []"
    and "readv_ok (ce_readv env (w_calls W))"
    and "tc_state (w_conns W c) = kConnected \<or> tc_state (w_conns W c) = kDisconnecting"
    and "tc_closeCallback (w_conns W c) = Some n"
  shows "\<exists>W'. handleRead (server_env held env) c W = Inr W' \<and>
      tc_state (w_conns W' c) = kDisconnected \<and>
      channels (el_poller W') (ch_fd (conn_chan c W)) = None \<and>
      sv_conn_map W' = smap_erase (tc_name (w_conns W c)) (sv_conn_map W) \<and>
      cn_alive W' = (if held c then cn_alive W else (cn_alive W)(c := False)) \<and>
      sk_calls W' = sk_calls W @ (if held c then [] else [SClose (tc_sockfd (w_conns W c))]) \<and>
      el_pending W' = el_pending W"
  using eof_closes [OF assms(3-9), of held] closing_channels [OF assms(1,2), of c _ W]
  by (auto simp: closed_world_def closing_simps Let_def removeConnection_def sock_do_def)

text \<open>C14. The peer closes: reading end of file from a connection of the server takes it off the
  poller and out of the map, and leaves every other entry; when user code keeps no pointer
  to it, it is destroyed and its descriptor is closed, exactly once.\<close>

theorem peer_close:
  assumes "vt_remove (ce_loop env) = epoll_rem sys" "\<And>call. 0 \<le> sys call"
    and "isLoopThread (ce_tid env) W" "conn_ok W c"
    and "length (buf_data (tc_inputBuffer (w_conns W c))) + EXTRABUF \<le> VEC_MAX"
    and "ce_readv env (w_calls W) (readFd_capacity (tc_inputBuffer (w_conns W c))) = Inr []"
    and "readv_ok (ce_readv env (w_calls W))"
    and "tc_state (w_conns W c) = kConnected \<or> tc_state (w_conns W c) = kDisconnecting"
    and "tc_closeCallback (w_conns W c) = Some n"
  shows "\<exists>W'. handleRead (server_env held env) c W = Inr W' \<and>
      tc_state (w_conns W' c) = kDisconnected \<and>
      channels (el_poller W') (ch_fd (conn_chan c W)) = None \<and>
      map_of (sv_conn_map W') = (map_of (sv_conn_map W))(tc_name (w_conns W c) := None) \<and>
      cn_alive W' = (if held c then cn_alive W else (cn_alive W)(c := False)) \<and>
      sk_calls W' = sk_calls W @ (if held c then [] else [SClose (tc_sockfd (w_conns W c))])"
  using peer_close_effect [OF assms, of held] by (auto simp: smap_erase_lookup)

text \<open>The demonstration server with one connection, to which the peer sends end of file.\<close>

definition eof_env :: "nat \<Rightarrow> (epoller, epoller server_world) conn_env" where
  "eof_env tid = (demo_conn_env tid 9)\<lparr>ce_readv := (\<lambda>i n. Inr [])\<rparr>"

definition one_conn_server :: "epoller server_world" where
  "one_conn_server = demo_server
     \<lparr>el_poller := \<lparr>channels = [4 \<mapsto> 0, 7 \<mapsto> 2], wakeup_channel = 1, epollfd = 3\<rparr>,
      el_heap := (\<lambda>_. setEvent CHANNEL_READ (Channel_ctor 0 7 False)),
      w_conns := (\<lambda>_. (demo_tcp kConnected)\<lparr>tc_name := ''80#0'', tc_channel := 2\<rparr>),
      sv_nextConnId := 1, sv_conn_map := [(''80#0'', 0)], cn_next := 1,
      cn_alive := (\<lambda>_. False)(0 := True)\<rparr>"

lemma one_conn_simps:
  "tc_state (w_conns one_conn_server 0) = kConnected" "tc_closeCallback (w_conns one_conn_server 0) = Some 4"
  "tc_inputBuffer (w_conns one_conn_server 0) = small_buffer" "tc_name (w_conns one_conn_server 0) = ''80#0''"
  "tc_sockfd (w_conns one_conn_server 0) = 7" "sv_conn_map one_conn_server = [(''80#0'', 0)]"
  "sk_calls one_conn_server = []" "el_thread_id one_conn_server = 0" "cn_alive one_conn_server 0"
  "ch_fd (conn_chan 0 one_conn_server) = 7" "conn_ok one_conn_server 0"
  "ce_tid (eof_env tid) = tid" "vt_remove (ce_loop (eof_env tid)) = epoll_rem (\<lambda>_. 0)"
  "ce_readv (eof_env tid) i k = Inr []" "readv_ok (ce_readv (eof_env tid) i)"
  using small_buffer_ok
  by (simp_all add: one_conn_server_def demo_tcp_def demo_server_def conn_chan_def channel_ops
      Channel_ctor_def conn_ok_def content_def small_buffer_def isWriting_def has_def channel_masks
      eof_env_def demo_conn_env_def readv_ok_def)

lemma eof_ready:
  "length (buf_data (tc_inputBuffer (w_conns one_conn_server 0))) + EXTRABUF \<le> VEC_MAX"
  by (simp add: one_conn_simps(3) small_buffer_def EXTRABUF_def VEC_MAX_def)

theorem peer_close_witness:
  "\<exists>W'. handleRead (server_env (\<lambda>_. False) (eof_env 0)) 0 one_conn_server = Inr W' \<and>
        map_of (sv_conn_map W') ''80#0'' = None \<and> \<not> cn_alive W' 0 \<and> sk_calls W' = [SClose 7]"
proof -
  have lt: "isLoopThread (ce_tid (eof_env 0)) one_conn_server"
    by (simp add: isLoopThread_def one_conn_simps)
  have "\<And>call. 0 \<le> (\<lambda>_. 0 :: int) (call :: sys_call)" by simp
  from peer_close [OF one_conn_simps(13) this lt one_conn_simps(11) eof_ready one_conn_simps(14,15) _ one_conn_simps(2),
      of "\<lambda>_. False"]
  show ?thesis by (auto simp: one_conn_simps)
qed

text \<open>C27. A closure queued by \<open>send\<close> from another thread holds a bare pointer to the connection: if
  the peer closes before the loop reaches it, the server destroys the connection and the
  closure, still queued, runs on a dangling pointer.\<close>

theorem queued_send_dangles:
  assumes "vt_remove (ce_loop env) = epoll_rem sys" "\<And>call. 0 \<le> sys call"
    and "isLoopThread (ce_tid env) W" "conn_ok W c" "\<not> held c"
    and "length (buf_data (tc_inputBuffer (w_conns W c))) + EXTRABUF \<le> VEC_MAX"
    and "ce_readv env (w_calls W) (readFd_capacity (tc_inputBuffer (w_conns W c))) = Inr []"
    and "readv_ok (ce_readv env (w_calls W))"
    and "tc_state (w_conns W c) = kConnected" "tc_closeCallback (w_conns W c) = Some n"
    and "\<not> isLoopThread (ce_tid other) W" "length d < 2147483648"
  shows "\<exists>W1 W2. send_data other c d (int (length d)) W = Inr W1 \<and>
           handleRead (server_env held env) c W1 = Inr W2 \<and>
           UserFn (SendInLoopFn c d) \<in> set (el_pending W2) \<and>
           server_exec ssys held env (SendInLoopFn c d) W2 = Inl NullDeref"
proof -
  let ?W1 = "W\<lparr>el_pending := el_pending W @ [UserFn (SendInLoopFn c d)], el_wakeups := Suc (el_wakeups W)\<rparr>"
  have s: "send_data other c d (int (length d)) W = Inr ?W1"
    using send_other_thread_effect [OF assms(9,11,12)] by (rule conjunct1)
  have ok: "isLoopThread (ce_tid env) ?W1" "conn_ok ?W1 c"
    using assms(3,4) by (simp_all add: isLoopThread_def conn_ok_def conn_chan_def)
  have st: "tc_state (w_conns ?W1 c) = kConnected \<or> tc_state (w_conns ?W1 c) = kDisconnecting"
    using assms(9) by simp
  obtain W2 where h: "handleRead (server_env held env) c ?W1 = Inr W2"
    and a: "\<not> cn_alive W2 c" and p: "el_pending W2 = el_pending ?W1"
    using peer_close_effect [OF assms(1,2) ok _ _ _ st, of n held] assms(5-8,10) by auto
  have "server_exec ssys held env (SendInLoopFn c d) W2 = Inl NullDeref"
    using a by (simp add: server_exec_def)
  with s h p show ?thesis by (intro exI [of _ ?W1] exI [of _ W2]) simp
qed

theorem queued_send_dangles_witness:
  "\<exists>W1 W2. send_data (eof_env 5) 0 ''abc'' 3 one_conn_server = Inr W1 \<and>
           handleRead (server_env (\<lambda>_. False) (eof_env 0)) 0 W1 = Inr W2 \<and>
           server_exec (\<lambda>_. 0) (\<lambda>_. False) (eof_env 0) (SendInLoopFn 0 ''abc'') W2 = Inl NullDeref"
proof -
  have lt: "isLoopThread (ce_tid (eof_env 0)) one_conn_server" "\<not> isLoopThread (ce_tid (eof_env 5)) one_conn_server"
    by (simp_all add: isLoopThread_def one_conn_simps)
  have h: "\<not> (\<lambda>_. False) (0::conn_ptr)" and len: "length ''abc'' < 2147483648" by simp_all
  have sys: "\<And>call. 0 \<le> (\<lambda>_. 0 :: int) (call :: sys_call)" by simp
  from queued_send_dangles [OF one_conn_simps(13) sys lt(1) one_conn_simps(11) h eof_ready one_conn_simps(14,15)
      one_conn_simps(1,2) lt(2) len, of "\<lambda>_. 0"]
  show ?thesis by auto
qed

text \<open>Destroying a server that still has an open connection, which user code keeps no pointer
  to, aborts: the destructor of the server only starts the shutdown of the connection and
  drops it, and the destructor of the connection asserts that it is disconnected.\<close>

theorem server_dtor_asserts:
  assumes "isLoopThread (ce_tid env) W" "sv_conn_map W = (name, c) # m" "\<not> held c"
    and "tc_state (w_conns W c) \<noteq> kDisconnected"
  shows "TcpServer_dtor held env W = Inl AssertFailed"
proof -
  let ?env = "server_env held env"
  obtain W1 where s: "shutdown ?env c W = Inr W1" and st: "tc_state (w_conns W1 c) \<noteq> kDisconnected"
  proof (cases "tc_state (w_conns W c) = kConnected")
    case True
    let ?W0 = "setState kDisconnecting c W"
    have "isLoopThread (ce_tid env) ?W0" using assms(1) by (simp add: isLoopThread_def setState_def)
    then have "shutdown ?env c W = Inr (if \<not> isWriting (conn_chan c ?W0)
        then ?W0\<lparr>w_shut := (w_shut ?W0)(c := True)\<rparr> else ?W0)"
      using True by (simp add: shutdown_def runInLoop_def shutdownInLoop_def)
    then show ?thesis by (rule that) (simp add: setState_def)
  next
    case False
    then have "shutdown ?env c W = Inr W" by (simp add: shutdown_def)
    then show ?thesis using assms(4) by (rule that)
  qed
  have "release held c W1 = Inl AssertFailed"
    using assms(3) st by (simp add: release_def TcpConnection_dtor_def assertE_def)
  with s show ?thesis using assms(1,2) by (simp add: TcpServer_dtor_def)
qed

theorem server_dtor_asserts_witness:
  "TcpServer_dtor (\<lambda>_. False) (eof_env 0) one_conn_server = Inl AssertFailed"
  by (rule server_dtor_asserts [OF _ one_conn_simps(6)]) (simp_all add: isLoopThread_def one_conn_simps)

text \<open>A failed \<open>accept\<close> is not noticed: the server makes a connection with the descriptor -1,
  gives it a name, and tells the user it is connected, although the poller, which rejects the
  descriptor, knows nothing of it.\<close>

theorem failed_accept_connects:
  assumes "vt_update (ce_loop env) = epoll_upd sys ej" "\<And>op fd ev. fd < 0 \<Longrightarrow> sys (EpollCtl op fd ev) < 0"
    and "isLoopThread (ce_tid env) W" "server_ok W" "sv_nextConnId W + 1 < 2 ^ 31" "ac_new_conn_cb W"
  shows "\<exists>V. handleConn held junk env (-1, a) addr W =
            call_cb (server_env held env) (sv_connectionCallback W) ConnectionCb (cn_next W) V \<and>
          tc_sockfd (w_conns V (cn_next W)) = -1 \<and> tc_state (w_conns V (cn_next W)) = kConnected \<and>
          map_of (sv_conn_map V) (conn_name (sv_port W) (sv_nextConnId W)) = Some (cn_next W) \<and>
          channels (el_poller V) = channels (el_poller W)"
proof (intro exI conjI)
  let ?V = "established env junk (-1) (InetAddress_toString addr) W" and ?c = "cn_next W"
  show "handleConn held junk env (-1, a) addr W =
      call_cb (server_env held env) (sv_connectionCallback W) ConnectionCb ?c ?V"
    using assms(6) newConnection_eq [OF assms(3,4)] by (simp add: handleConn_def Socket_accept_def)
  show "channels (el_poller ?V) = channels (el_poller W)"
  proof -
    let ?W3 = "set_conn_event ?c CHANNEL_READ (setState kConnected ?c (wired_connection junk (-1) (InetAddress_toString addr) W))"
    have p: "tc_channel (w_conns ?W3 ?c) = el_next_ptr W" "el_poller ?W3 = el_poller W"
      and f: "ch_fd (el_heap ?W3 (el_next_ptr W)) = -1" "ch_events (el_heap ?W3 (el_next_ptr W)) = CHANNEL_READ"
      by (simp_all add: set_conn_event_def wiring_defs Let_def fresh_tcp_def channel_ops Channel_ctor_def upd_conn_def)
    have nt: "\<not> has CHANNEL_READ CHANNEL_TIMER" by (simp add: has_def channel_masks)
    have "?V = do_update (ce_loop env) (el_next_ptr W) ?W3"
      by (simp only: established_def Let_def p)
    also have "channels (el_poller \<dots>) = channels (el_poller W)"
      by (simp add: do_update_def assms(1,2) epoll_upd_def epoll_update_def Let_def f nt p(2))
    finally show ?thesis .
  qed
qed (simp_all add: established_simps established_tcp_def fresh_tcp_def smap_set_lookup)

definition strict_sys :: "sys_call \<Rightarrow> int" where
  "strict_sys call = (case call of EpollCtl op fd ev \<Rightarrow> (if fd < 0 then -1 else 0) | _ \<Rightarrow> 0)"

definition strict_env :: "(epoller, epoller server_world) conn_env" where
  "strict_env =
     (let e = demo_conn_env 0 9 in e\<lparr>ce_loop := (ce_loop e)\<lparr>vt_update := epoll_upd strict_sys 0\<rparr>\<rparr>)"

theorem failed_accept_connects_witness:
  "\<exists>V. handleConn (\<lambda>_. False) 0 strict_env
         (-1, \<lparr>ia_addr = [], ia_port = 0\<rparr>) \<lparr>ia_addr = [], ia_port = 0\<rparr> demo_server = Inr V \<and>
       map_of (sv_conn_map V) ''80#0'' = Some 0 \<and> tc_state (w_conns V 0) = kConnected"
proof -
  let ?e = strict_env
  have v: "vt_update (ce_loop ?e) = epoll_upd strict_sys 0" by (simp add: strict_env_def Let_def)
  have s: "strict_sys (EpollCtl op fd ev) < 0" if "fd < 0" for op fd ev
    using that by (simp add: strict_sys_def)
  have lt: "isLoopThread (ce_tid ?e) demo_server"
    using demo_server_ok(2) by (simp add: strict_env_def Let_def)
  have ac: "ac_new_conn_cb demo_server" by (simp add: demo_server_def)
  have n: "conn_name 80 0 = ''80#0''" by code_simp
  have cb: "call_cb (server_env (\<lambda>_. False) ?e) (Some f) ConnectionCb c V = Inr V" for f c V
    by (simp add: call_cb_def server_env_def strict_env_def demo_conn_env_def Let_def)
  from failed_accept_connects [OF v s lt demo_server_ok(1,3) ac, where held = "\<lambda>_. False" and junk = 0
      and a = "\<lparr>ia_addr = [], ia_port = 0\<rparr>" and addr = "\<lparr>ia_addr = [], ia_port = 0\<rparr>"]
  show ?thesis by (auto simp: demo_server_ok(4-8) n cb)
qed

text \<open>\<open>start\<close>, on the loop thread, makes the socket listen once: a second call does nothing;
  and a server that is destroyed with no connection left closes its
  listening descriptor twice.\<close>

theorem start_once:
  assumes "TcpServer_start sys env W = Inr W1" "isLoopThread (ce_tid env) W" "\<not> sv_started W"
    and "vt_remove (ce_loop env) = epoll_rem esys" "sv_conn_map W = []"
  shows "sk_calls W1 = sk_calls W @ [SListen (ac_listenfd W)] \<and> ac_listenning W1 \<and>
         TcpServer_start sys env W1 = Inr W1 \<and>
         (\<exists>W2. TcpServer_dtor held env W1 = Inr W2 \<and>
            sk_calls W2 = sk_calls W1 @ [SClose (ac_listenfd W), SClose (ac_listenfd W)])"
proof -
  have W1: "W1 = (sock_do [SListen (ac_listenfd W)] (W\<lparr>sv_started := True\<rparr>))\<lparr>ac_listenning := True\<rparr>"
    using assms(1-3)
    by (auto simp: TcpServer_start_def Acceptor_listen_def runInLoop_def isLoopThread_def do_listen_def
        Socket_listen_def split: if_splits)
  have lt: "isLoopThread (ce_tid env) W1" "isLoopThread (ce_tid env) (W1\<lparr>sv_conn_map := []\<rparr>)"
    using assms(2) by (simp_all add: W1 isLoopThread_def sock_do_def)
  have f: "sv_conn_map W1 = []" "ac_listenfd W1 = ac_listenfd W" "sv_started W1" "ac_listenning W1"
    "sk_calls W1 = sk_calls W @ [SListen (ac_listenfd W)]"
    using assms(5) by (simp_all add: W1 sock_do_def)
  have "\<exists>W2. TcpServer_dtor held env W1 = Inr W2 \<and>
      sk_calls W2 = sk_calls W1 @ [SClose (ac_listenfd W), SClose (ac_listenfd W)]"
    using lt f(1,2)
    by (simp add: TcpServer_dtor_def Acceptor_dtor_def removeChannel_def runInLoop_def sock_do_def
        Socket_dtor_def do_remove_def)
  with f show ?thesis by (simp add: TcpServer_start_def)
qed

theorem start_once_witness:
  "\<exists>W1. TcpServer_start (\<lambda>_. 0) (demo_conn_env 0 9) (demo_server\<lparr>sv_started := False\<rparr>) = Inr W1 \<and>
        sk_calls W1 = [SListen 4] \<and> TcpServer_start (\<lambda>_. 0) (demo_conn_env 0 9) W1 = Inr W1"
proof -
  let ?W = "demo_server\<lparr>sv_started := False\<rparr>"
  have lt: "isLoopThread (ce_tid (demo_conn_env 0 9)) ?W"
    by (simp add: isLoopThread_def demo_server_def)
  then obtain W1 where r: "TcpServer_start (\<lambda>_. 0) (demo_conn_env 0 9) ?W = Inr W1"
    by (simp add: TcpServer_start_def Acceptor_listen_def runInLoop_def isLoopThread_def do_listen_def
        Socket_listen_def)
  have s: "\<not> sv_started ?W" "sv_conn_map ?W = []" "sk_calls ?W = []" "ac_listenfd ?W = 4"
    by (simp_all add: demo_server_def)
  from start_once [OF r lt s(1) demo_loop_update(2) s(2)] r show ?thesis by (simp only: s) auto
qed

end
