(* ===== verification/HelloServer.thy ===== *)
theory HelloServer
  imports TcpServer ConnTotal
begin

text \<open>
  The server program src/test/test_tcpserver.cpp: \<open>main\<close> makes a loop and a server with three
  callbacks, starts it and runs the loop. Here the poller, the loop, the acceptor, the server, the
  connections and their buffers run together, and the callbacks are those of the program instead of an
  assumption about them. What is printed is left out. This theory holds the program
  and what the events of a connection leave alone; HelloRuns runs it.
\<close>

section \<open>The program\<close>

definition hello_text :: "char list" where
  "hello_text = ''hello'' @ [CHR 0x0A]"

text \<open>\<open>conn->send\<close> of a string literal makes a \<open>StringPiece\<close> of the C string.\<close>

definition onConn ::
  "('p, ('p, 'z) sworld) conn_env \<Rightarrow> conn_ptr \<Rightarrow> ('p, 'z) sworld \<Rightarrow> ('p, 'z) sworld res" where
  "onConn env c W =
     (let W1 = conn_setTcpNoDelay True c W
      in bindE (sp_of_cstr (hello_text @ [CHR 0x00])) (\<lambda>s. send_piece env c s W1))"

definition onMsg :: "conn_ptr \<Rightarrow> ('p, 'z) sworld \<Rightarrow> ('p, 'z) sworld res" where
  "onMsg c W =
     bindE (retrieveAllAsString (tc_inputBuffer (w_conns W c))) (\<lambda>(s, b).
       Inr (upd_conn c (\<lambda>k. k\<lparr>tc_inputBuffer := b\<rparr>) W))"

definition onWriteComplete :: "conn_ptr \<Rightarrow> ('p, 'z) sworld \<Rightarrow> ('p, 'z) sworld res" where
  "onWriteComplete c W = Inr W"

text \<open>The callbacks by their numbers. Inside of \<open>onConn\<close> only the write-complete callback can be called,
  as no other one is called by \<open>send\<close> and no high-water callback is set.\<close>

definition in_onConn ::
  "('p, ('p, 'z) sworld) conn_env \<Rightarrow> ('p, ('p, 'z) sworld) conn_env" where
  "in_onConn env = env\<lparr>ce_call := (\<lambda>k c W. case k of
       WriteCompleteCb n \<Rightarrow> onWriteComplete c W | _ \<Rightarrow> Inl BadFunctionCall)\<rparr>"

definition hello_env ::
  "('p, ('p, 'z) sworld) conn_env \<Rightarrow> ('p, ('p, 'z) sworld) conn_env" where
  "hello_env env = env\<lparr>ce_call := (\<lambda>k c W. case k of
       ConnectionCb n \<Rightarrow> onConn (in_onConn env) c W
     | MessageCb n \<Rightarrow> onMsg c W
     | WriteCompleteCb n \<Rightarrow> onWriteComplete c W
     | _ \<Rightarrow> Inl BadFunctionCall)\<rparr>"

text \<open>The server's members before its constructor has run.\<close>

definition no_server :: "(conn_fn, 'p, handler) event_loop \<Rightarrow> 'p server_world" where
  "no_server L =
     \<lparr>el_running = el_running L, el_calling_pending = el_calling_pending L,
      el_thread_id = el_thread_id L, el_poller = el_poller L, el_heap = el_heap L,
      el_next_ptr = el_next_ptr L, el_pending = el_pending L, el_timers = el_timers L,
      el_wakeups = el_wakeups L,
      w_conns = (\<lambda>_. fresh_tcp [] 0 [] 0), w_wire = (\<lambda>_. []), w_shut = (\<lambda>_. False), w_calls = 0,
      sv_port = 0, sv_nextConnId = 0, sv_conn_map = [], sv_started = False,
      sv_connectionCallback = None, sv_messageCallback = None, sv_writeCompleteCallback = None,
      ac_listenfd = 0, ac_listenning = False, ac_channel = 0, ac_new_conn_cb = False,
      sk_calls = [], cn_next = 0, cn_alive = (\<lambda>_. False)\<rparr>"

text \<open>\<open>main\<close> up to \<open>loop()\<close>: \<open>epfd\<close> and \<open>efd\<close> are the results of \<open>epoll_create\<close> and \<open>eventfd\<close>. The
  wakeup channel is at address 0 and the acceptor's at 1.\<close>

definition hello_main ::
  "(sys_call \<Rightarrow> int) \<Rightarrow> (sock_call \<Rightarrow> int) \<Rightarrow> 32 word \<Rightarrow> (epoller, epoller server_world) conn_env \<Rightarrow>
   int \<Rightarrow> int \<Rightarrow> int \<Rightarrow> epoller server_world res" where
  "hello_main sys ssys junk env epfd efd port =
     bindE (Epoller_ctor sys junk epfd efd 0 (OtherHandler 0) (\<lambda>_. Channel_default_ctor junk)) (\<lambda>(p, h, calls).
     bindE (EventLoop_ctor False (ce_tid env) p h 1) (\<lambda>L.
     bindE (TcpServer_ctor ssys junk env port (no_server L)) (\<lambda>W.
       TcpServer_start ssys env
         (server_setWriteCompleteCallback (Some 3) (server_setMessageCallback (Some 2)
           (server_setConnectionCallback (Some 1) W))))))"

text \<open>What the loop calls. The \<open>i\<close>-th accept yields \<open>accs i\<close>.\<close>

definition hello_handler ::
  "('p, ('p, 'z) sworld) conn_env \<Rightarrow> 32 word \<Rightarrow> (nat \<Rightarrow> int \<times> inet_address) \<Rightarrow> inet_address \<Rightarrow>
   handler \<Rightarrow> ('p, 'z) sworld \<Rightarrow> ('p, 'z) sworld res" where
  "hello_handler env junk accs addr h W =
     server_handler (\<lambda>_. False) junk (hello_env env) (accs (nat (sv_nextConnId W))) addr h W"

definition hello_exec ::
  "(sock_call \<Rightarrow> int) \<Rightarrow> ('p, ('p, 'z) sworld) conn_env \<Rightarrow> conn_fn loop_fn \<Rightarrow>
   ('p, 'z) sworld \<Rightarrow> ('p, 'z) sworld res" where
  "hello_exec ssys env = exec_fn (ce_loop env) (server_exec ssys (\<lambda>_. False) (hello_env env))"

lemma hello_env_simps [simp]:
  "ce_loop (hello_env env) = ce_loop env" "ce_tid (hello_env env) = ce_tid env"
  "ce_write (hello_env env) = ce_write env" "ce_readv (hello_env env) = ce_readv env"
  "ce_loop (in_onConn env) = ce_loop env" "ce_tid (in_onConn env) = ce_tid env"
  "ce_write (in_onConn env) = ce_write env" "ce_readv (in_onConn env) = ce_readv env"
  by (simp_all add: hello_env_def in_onConn_def)

section \<open>What a connection's events leave alone\<close>

text \<open>The largest the vector of an input buffer gets when every message is taken out at once.\<close>

definition IN_MAX :: nat where
  "IN_MAX = 8 + 65535 + 65536"

definition idle_in :: "buffer \<Rightarrow> bool" where
  "idle_in b \<longleftrightarrow> readerIndex b = 8 \<and> writerIndex b = 8 \<and> length (buf_data b) \<le> IN_MAX"

text \<open>\<open>only_conn c W W'\<close>: nothing has changed but the buffers of connection \<open>c\<close>, its socket, the
  events of its channel and, possibly, its registration; and its input buffer stays idle.\<close>

definition same_ends :: "'h channel \<Rightarrow> 'h channel \<Rightarrow> bool" where
  "same_ends x y \<longleftrightarrow> ch_fd x = ch_fd y \<and> ch_active x = ch_active y \<and> ch_isListen x = ch_isListen y \<and>
     ch_readHandler x = ch_readHandler y \<and> ch_writeHandler x = ch_writeHandler y \<and>
     ch_connHandler x = ch_connHandler y"

definition registers :: "chan_ptr \<Rightarrow> handler heap \<Rightarrow> (int \<rightharpoonup> chan_ptr) \<Rightarrow> (int \<rightharpoonup> chan_ptr) \<Rightarrow> bool" where
  "registers ch h m m' \<longleftrightarrow> m' = m \<or> m' = m(ch_fd (h ch) \<mapsto> ch)"

definition only_conn ::
  "conn_ptr \<Rightarrow> (epoller, 'z) world_scheme \<Rightarrow> (epoller, 'z) world_scheme \<Rightarrow> bool" where
  "only_conn c W W' \<longleftrightarrow>
     (\<exists>p x i b w s n.
        W' = W\<lparr>el_poller := p, el_heap := (el_heap W)(tc_channel (w_conns W c) := x),
               w_conns := (w_conns W)(c := (w_conns W c)\<lparr>tc_inputBuffer := i, tc_outputBuffer := b\<rparr>),
               w_wire := (w_wire W)(c := w), w_shut := (w_shut W)(c := s), w_calls := n\<rparr> \<and>
        (idle_in (tc_inputBuffer (w_conns W c)) \<longrightarrow> idle_in i) \<and>
        same_ends x (el_heap W (tc_channel (w_conns W c))) \<and>
        registers (tc_channel (w_conns W c)) (el_heap W) (channels (el_poller W)) (channels p))"

lemma same_ends_refl [simp]: "same_ends x x"
  by (simp add: same_ends_def)

lemma same_ends_ops [simp]: "same_ends (setEvent e x) x" "same_ends (updateEvent x) x"
  by (simp_all add: same_ends_def channel_ops)

lemma same_ends_trans: "same_ends x y \<Longrightarrow> same_ends y z \<Longrightarrow> same_ends x z"
  by (simp add: same_ends_def)

lemma registers_refl [simp]: "registers ch h m m"
  by (simp add: registers_def)

lemma only_connI:
  assumes "W' = W\<lparr>el_poller := p, el_heap := (el_heap W)(tc_channel (w_conns W c) := x),
       w_conns := (w_conns W)(c := (w_conns W c)\<lparr>tc_inputBuffer := i, tc_outputBuffer := b\<rparr>),
       w_wire := (w_wire W)(c := w), w_shut := (w_shut W)(c := s), w_calls := n\<rparr>"
    and "idle_in (tc_inputBuffer (w_conns W c)) \<longrightarrow> idle_in i"
    and "same_ends x (el_heap W (tc_channel (w_conns W c)))"
    and "registers (tc_channel (w_conns W c)) (el_heap W) (channels (el_poller W)) (channels p)"
  shows "only_conn c W W'"
  unfolding only_conn_def using assms by blast

lemma only_conn_trans:
  assumes "only_conn c W W1" "only_conn c W1 W2"
  shows "only_conn c W W2"
proof -
  obtain p x i b w s n where W1: "W1 = W\<lparr>el_poller := p, el_heap := (el_heap W)(tc_channel (w_conns W c) := x),
       w_conns := (w_conns W)(c := (w_conns W c)\<lparr>tc_inputBuffer := i, tc_outputBuffer := b\<rparr>),
       w_wire := (w_wire W)(c := w), w_shut := (w_shut W)(c := s), w_calls := n\<rparr>"
    and i: "idle_in (tc_inputBuffer (w_conns W c)) \<longrightarrow> idle_in i"
    and x: "same_ends x (el_heap W (tc_channel (w_conns W c)))"
    and p: "registers (tc_channel (w_conns W c)) (el_heap W) (channels (el_poller W)) (channels p)"
    using assms(1) unfolding only_conn_def by blast
  obtain p2 x2 i2 b2 w2 s2 n2 where W2: "W2 = W1\<lparr>el_poller := p2, el_heap := (el_heap W1)(tc_channel (w_conns W1 c) := x2),
       w_conns := (w_conns W1)(c := (w_conns W1 c)\<lparr>tc_inputBuffer := i2, tc_outputBuffer := b2\<rparr>),
       w_wire := (w_wire W1)(c := w2), w_shut := (w_shut W1)(c := s2), w_calls := n2\<rparr>"
    and i2: "idle_in (tc_inputBuffer (w_conns W1 c)) \<longrightarrow> idle_in i2"
    and x2: "same_ends x2 (el_heap W1 (tc_channel (w_conns W1 c)))"
    and p2: "registers (tc_channel (w_conns W1 c)) (el_heap W1) (channels (el_poller W1)) (channels p2)"
    using assms(2) unfolding only_conn_def by blast
  show ?thesis
  proof (rule only_connI)
    show "W2 = W\<lparr>el_poller := p2, el_heap := (el_heap W)(tc_channel (w_conns W c) := x2),
       w_conns := (w_conns W)(c := (w_conns W c)\<lparr>tc_inputBuffer := i2, tc_outputBuffer := b2\<rparr>),
       w_wire := (w_wire W)(c := w2), w_shut := (w_shut W)(c := s2), w_calls := n2\<rparr>"
      by (simp add: W2 W1)
    show "idle_in (tc_inputBuffer (w_conns W c)) \<longrightarrow> idle_in i2"
      using i i2 by (simp add: W1)
    show "same_ends x2 (el_heap W (tc_channel (w_conns W c)))"
      using same_ends_trans [OF x2] x by (simp add: W1)
    show "registers (tc_channel (w_conns W c)) (el_heap W) (channels (el_poller W)) (channels p2)"
      using p p2 x by (auto simp: W1 registers_def same_ends_def)
  qed
qed

lemma only_conn_update:
  assumes "vt_update le = epoll_upd sys j"
  shows "only_conn c W (do_update le (tc_channel (w_conns W c)) W)"
proof -
  let ?ch = "tc_channel (w_conns W c)"
  obtain p h where u: "epoll_upd sys j (el_poller W) (el_heap W) ?ch = (p, h)"
    by (cases "epoll_upd sys j (el_poller W) (el_heap W) ?ch")
  have "(\<exists>x. h = (el_heap W)(?ch := x) \<and> same_ends x (el_heap W ?ch)) \<and>
      registers ?ch (el_heap W) (channels (el_poller W)) (channels p)"
    using ep.upd_law [OF u]
  proof (elim disjE conjE)
    assume "channels p = (channels (el_poller W))(ch_fd (el_heap W ?ch) \<mapsto> ?ch)"
      "h = on_chan ?ch updateEvent (el_heap W)"
    then show ?thesis by (auto simp: registers_def on_chan_def intro!: exI [of _ "updateEvent (el_heap W ?ch)"])
  next
    assume "channels p = channels (el_poller W)" "h = el_heap W"
    then show ?thesis by (auto intro!: exI [of _ "el_heap W ?ch"])
  qed
  then obtain x where x: "h = (el_heap W)(?ch := x)" "same_ends x (el_heap W ?ch)"
    "registers ?ch (el_heap W) (channels (el_poller W)) (channels p)" by auto
  show ?thesis
    by (rule only_connI [where i = "tc_inputBuffer (w_conns W c)" and b = "tc_outputBuffer (w_conns W c)" and
          w = "w_wire W c" and s = "w_shut W c" and n = "w_calls W", OF _ _ x(2,3)])
       (simp_all add: do_update_def assms u x(1))
qed

definition only_on ::
  "nat \<Rightarrow> conn_ptr \<Rightarrow> (epoller, 'z) world_scheme \<Rightarrow> (epoller, 'z) world_scheme \<Rightarrow> bool" where
  "only_on t c W W' \<longleftrightarrow> (isLoopThread t W \<longrightarrow> only_conn c W W')"

lemma only_conn_thread: "only_conn c W W' \<Longrightarrow> el_thread_id W' = el_thread_id W"
  by (auto simp: only_conn_def)

lemma only_conn_refl: "only_conn c W W"
  by (rule only_connI [where p = "el_poller W" and x = "el_heap W (tc_channel (w_conns W c))" and
        i = "tc_inputBuffer (w_conns W c)" and b = "tc_outputBuffer (w_conns W c)" and
        w = "w_wire W c" and s = "w_shut W c" and n = "w_calls W"]) simp_all

text \<open>\<open>W\<close> with the given channel, buffer and so on for connection \<open>c\<close>.\<close>

lemma only_conn_same_poller:
  assumes "same_ends x (el_heap W (tc_channel (w_conns W c)))"
    and "idle_in (tc_inputBuffer (w_conns W c)) \<longrightarrow> idle_in i"
  shows "only_conn c W (W\<lparr>el_heap := (el_heap W)(tc_channel (w_conns W c) := x),
      w_conns := (w_conns W)(c := (w_conns W c)\<lparr>tc_inputBuffer := i, tc_outputBuffer := b\<rparr>),
      w_wire := (w_wire W)(c := w), w_shut := (w_shut W)(c := s), w_calls := n\<rparr>)"
  by (rule only_connI [where p = "el_poller W", OF _ assms(2,1)]) simp_all

lemma only_conn_elementary:
  "only_conn c W (set_conn_event c e W)"
  "only_conn c W (upd_conn c (\<lambda>k. k\<lparr>tc_outputBuffer := b\<rparr>) W)"
  "only_conn c W (W\<lparr>w_calls := n\<rparr>)"
  "only_conn c W (W\<lparr>w_wire := (w_wire W)(c := w)\<rparr>)"
  "only_conn c W (W\<lparr>w_shut := (w_shut W)(c := h)\<rparr>)"
proof -
  let ?x = "el_heap W (tc_channel (w_conns W c))"
  let ?i = "tc_inputBuffer (w_conns W c)" and ?b = "tc_outputBuffer (w_conns W c)"
  note r = only_conn_same_poller [of _ W c]
  show "only_conn c W (set_conn_event c e W)"
    using r [where x = "setEvent e ?x" and i = ?i and b = ?b and w = "w_wire W c" and s = "w_shut W c" and n = "w_calls W"]
    by (simp add: set_conn_event_def on_chan_def)
  show "only_conn c W (upd_conn c (\<lambda>k. k\<lparr>tc_outputBuffer := b\<rparr>) W)"
    using r [where x = ?x and i = ?i and b = b and w = "w_wire W c" and s = "w_shut W c" and n = "w_calls W"] by (simp add: upd_conn_def)
  show "only_conn c W (W\<lparr>w_calls := n\<rparr>)"
    using r [where x = ?x and i = ?i and b = ?b and w = "w_wire W c" and s = "w_shut W c" and n = n] by simp
  show "only_conn c W (W\<lparr>w_wire := (w_wire W)(c := w)\<rparr>)"
    using r [where x = ?x and i = ?i and b = ?b and w = w and s = "w_shut W c" and n = "w_calls W"] by simp
  show "only_conn c W (W\<lparr>w_shut := (w_shut W)(c := h)\<rparr>)"
    using r [where x = ?x and i = ?i and b = ?b and w = "w_wire W c" and s = h and n = "w_calls W"] by simp
qed

interpretation only: conn_writes "only_on t c" c "le\<lparr>vt_update := epoll_upd sys j\<rparr>"
  for t c le sys j
proof unfold_locales
  fix W W1 W2 :: "(epoller, 'a) world_scheme"
  show "only_on t c W W" by (simp add: only_on_def only_conn_refl)
  show "only_on t c W W1 \<Longrightarrow> only_on t c W1 W2 \<Longrightarrow> only_on t c W W2"
    using only_conn_trans only_conn_thread by (fastforce simp: only_on_def isLoopThread_def)
  show "only_on t c W (do_update (le\<lparr>vt_update := epoll_upd sys j\<rparr>) (tc_channel (w_conns W c)) W)"
    by (simp add: only_on_def only_conn_update)
qed (simp_all add: only_on_def only_conn_elementary)

end
