(* ===== verification/HelloRuns.thy ===== *)
theory HelloRuns
  imports HelloServer
begin

text \<open>
  The server program of HelloServer in its loop: the invariant of the whole system between two events,
  each kind of event (a read, the end of file, a write, an accept), an iteration of the loop over what
  \<open>epoll_wait\<close> reports, and any number of iterations.
\<close>

section \<open>The invariant\<close>

definition wired :: "conn_ptr \<Rightarrow> tcp_conn \<Rightarrow> handler channel \<Rightarrow> bool" where
  "wired c k x \<longleftrightarrow>
     tc_messageCallback k = Some 2 \<and> tc_writeCompleteCallback k = Some 3 \<and>
     tc_highWaterMarkCallback k = None \<and> tc_closeCallback k = Some 0 \<and>
     \<not> ch_isListen x \<and> ch_readHandler x = Some (ConnRead c) \<and> ch_writeHandler x = Some (ConnWrite c)"

text \<open>A connection that has been given the text \<open>t\<close>: alive, connected and ready for the next event,
  or disconnected and destroyed.\<close>

definition hello_conn :: "char list \<Rightarrow> ('p, 'z) sworld \<Rightarrow> conn_ptr \<Rightarrow> bool" where
  "hello_conn t W c \<longleftrightarrow>
     stream W c = t \<and> 1 < tc_channel (w_conns W c) \<and> tc_channel (w_conns W c) < el_next_ptr W \<and>
     (if cn_alive W c
      then tc_state (w_conns W c) = kConnected \<and> conn_ok W c \<and> idle_in (tc_inputBuffer (w_conns W c)) \<and>
        wired c (w_conns W c) (conn_chan c W) \<and>
        map_of (sv_conn_map W) (tc_name (w_conns W c)) = Some c
      else tc_state (w_conns W c) = kDisconnected)"

text \<open>The wakeup channel and the acceptor's.\<close>

definition base_channels :: "handler heap \<Rightarrow> bool" where
  "base_channels h \<longleftrightarrow>
     \<not> ch_isListen (h 0) \<and> ch_readHandler (h 0) = Some (OtherHandler 0) \<and>
     ch_isListen (h 1) \<and> ch_connHandler (h 1) = Some AcceptConn"

definition live :: "('p, 'z) sworld \<Rightarrow> chan_ptr \<Rightarrow> bool" where
  "live W p \<longleftrightarrow> p = 0 \<or> p = 1 \<or> (\<exists>c<cn_next W. cn_alive W c \<and> p = tc_channel (w_conns W c))"

lemma liveI: "c < cn_next W \<Longrightarrow> cn_alive W c \<Longrightarrow> live W (tc_channel (w_conns W c))"
  by (auto simp: live_def)

definition hello_inv ::
  "nat \<Rightarrow> (conn_ptr \<Rightarrow> char list) \<Rightarrow> (epoller, 'z) sworld \<Rightarrow> bool" where
  "hello_inv tid txt W \<longleftrightarrow>
     server_ok W \<and> isLoopThread tid W \<and> el_pending W = [] \<and> 1 < el_next_ptr W \<and>
     sv_connectionCallback W = Some 1 \<and> sv_messageCallback W = Some 2 \<and>
     sv_writeCompleteCallback W = Some 3 \<and> ac_new_conn_cb W \<and>
     base_channels (el_heap W) \<and> reg_ok (channels (el_poller W)) (el_heap W) \<and>
     (\<forall>fd p. channels (el_poller W) fd = Some p \<longrightarrow> live W p) \<and>
     inj_on (\<lambda>c. tc_channel (w_conns W c)) {..<cn_next W} \<and>
     (\<forall>c<cn_next W. hello_conn (txt c) W c)"

text \<open>The acceptor is registered under \<open>lfd\<close>, and no connection has that descriptor.\<close>

definition listens :: "int \<Rightarrow> (epoller, 'z) sworld \<Rightarrow> bool" where
  "listens lfd W \<longleftrightarrow>
     channels (el_poller W) lfd = Some 1 \<and> (\<forall>c<cn_next W. ch_fd (conn_chan c W) \<noteq> lfd)"

lemma hello_invD:
  assumes "hello_inv tid txt W"
  shows "server_ok W" "isLoopThread tid W" "el_pending W = []" "1 < el_next_ptr W"
    "sv_connectionCallback W = Some 1" "sv_messageCallback W = Some 2"
    "sv_writeCompleteCallback W = Some 3" "ac_new_conn_cb W" "base_channels (el_heap W)"
    "reg_ok (channels (el_poller W)) (el_heap W)"
    "\<And>fd p. channels (el_poller W) fd = Some p \<Longrightarrow> live W p"
    "inj_on (\<lambda>c. tc_channel (w_conns W c)) {..<cn_next W}"
    "\<And>c. c < cn_next W \<Longrightarrow> hello_conn (txt c) W c"
  using assms by (simp_all add: hello_inv_def)

lemma other_channel:
  "hello_inv tid txt W \<Longrightarrow> c < cn_next W \<Longrightarrow> d < cn_next W \<Longrightarrow> d \<noteq> c \<Longrightarrow>
   tc_channel (w_conns W d) \<noteq> tc_channel (w_conns W c)"
  by (auto dest: hello_invD(12) inj_onD)

lemma live_below:
  assumes "hello_inv tid txt W" "live W q"
  shows "q < el_next_ptr W"
proof -
  have "tc_channel (w_conns W c) < el_next_ptr W" if "c < cn_next W" for c
    using hello_invD(13) [OF assms(1) that] by (simp add: hello_conn_def)
  then show ?thesis using assms(2) hello_invD(4) [OF assms(1)] by (auto simp: live_def)
qed

text \<open>An event that touches connection \<open>c\<close> alone.\<close>

lemma only_conn_same: "only_conn c W W' \<Longrightarrow> sv_same W W'"
  by (auto simp: only_conn_def sv_same_def)

lemma only_conn_inv:
  assumes inv: "hello_inv tid txt W" and c: "c < cn_next W" "cn_alive W c" and o: "only_conn c W W'"
    and c': "conn_ok W' c" "stream W' c = t"
  shows "hello_inv tid (txt(c := t)) W' \<and> el_running W' = el_running W \<and>
    (\<forall>q. live W q \<longrightarrow> live W' q) \<and> (\<forall>q. q \<noteq> tc_channel (w_conns W c) \<longrightarrow> el_heap W' q = el_heap W q) \<and>
    sv_nextConnId W' = sv_nextConnId W \<and> cn_next W' = cn_next W \<and> (listens lfd W \<longrightarrow> listens lfd W')"
proof -
  let ?ch = "tc_channel (w_conns W c)"
  obtain p x i b w s n where W': "W' = W\<lparr>el_poller := p, el_heap := (el_heap W)(?ch := x),
       w_conns := (w_conns W)(c := (w_conns W c)\<lparr>tc_inputBuffer := i, tc_outputBuffer := b\<rparr>),
       w_wire := (w_wire W)(c := w), w_shut := (w_shut W)(c := s), w_calls := n\<rparr>"
    and i: "idle_in (tc_inputBuffer (w_conns W c)) \<longrightarrow> idle_in i"
    and x: "same_ends x (el_heap W ?ch)"
    and p: "registers ?ch (el_heap W) (channels (el_poller W)) (channels p)"
    using o unfolding only_conn_def by blast
  note D = hello_invD [OF inv]
  have hc: "hello_conn (txt c) W c" using D(13) c(1) .
  then have ch: "1 < ?ch" by (simp add: hello_conn_def)
  have lv: "live W' q \<longleftrightarrow> live W q" for q by (auto simp: live_def W')
  have other: "hello_conn (txt d) W' d" if "d < cn_next W" "d \<noteq> c" for d
    using D(13) [OF that(1)] other_channel [OF inv c(1) that] that(2)
    by (cases "cn_alive W d")
       (simp_all add: hello_conn_def W' stream_def queued_out_def conn_ok_def conn_chan_def)
  have own: "hello_conn t W' c"
    using hc c' c(2) x i by (simp add: hello_conn_def) (simp add: W' wired_def conn_chan_def same_ends_def)
  have reg: "reg_ok (channels p) ((el_heap W)(?ch := x))"
    using D(10) p x by (auto simp: reg_ok_def registers_def same_ends_def split: if_splits)
  have "live W ?ch" using c by (auto simp: live_def)
  then have lvp: "live W q" if "channels p fd = Some q" for fd q
    using that p D(11) [of fd q] by (auto simp: registers_def split: if_splits)
  have chs: "(\<lambda>d. tc_channel (w_conns W' d)) = (\<lambda>d. tc_channel (w_conns W d))" "cn_next W' = cn_next W"
    by (auto simp: W')
  have "server_ok W'" using sv_same_keeps [OF only_conn_same [OF o]] D(1) by (simp add: keeps_server_def)
  moreover have "base_channels (el_heap W')" using D(9) ch by (simp add: base_channels_def W')
  moreover have "inj_on (\<lambda>d. tc_channel (w_conns W' d)) {..<cn_next W'}"
    unfolding chs using D(12) .
  moreover have "\<forall>d<cn_next W'. hello_conn ((txt(c := t)) d) W' d"
    using own other by (simp add: chs)
  moreover have "reg_ok (channels (el_poller W')) (el_heap W')" using reg by (simp add: W')
  moreover have "\<forall>fd q. channels (el_poller W') fd = Some q \<longrightarrow> live W' q" using lvp lv by (simp add: W')
  moreover have "isLoopThread tid W'" "el_pending W' = []" "1 < el_next_ptr W'" "ac_new_conn_cb W'"
    "sv_connectionCallback W' = Some 1" "sv_messageCallback W' = Some 2" "sv_writeCompleteCallback W' = Some 3"
    using D(2-8) by (simp_all add: W' isLoopThread_def)
  moreover have "\<forall>q. q \<noteq> ?ch \<longrightarrow> el_heap W' q = el_heap W q" "el_running W' = el_running W" "sv_nextConnId W' = sv_nextConnId W"
    using ch by (simp_all add: W')
  moreover have "listens lfd W'" if "listens lfd W"
    using that p x c(1) by (auto simp: listens_def W' registers_def same_ends_def conn_chan_def)
  ultimately show ?thesis
    using lv chs(2) unfolding hello_inv_def by blast
qed

section \<open>The events\<close>

text \<open>What is assumed of the system: a registered descriptor can be taken off the poller, \<open>write\<close>
  accepts no more than it is given and reports no reset connection, \<open>readv\<close> delivers no more than it
  has room for. Registering may fail.\<close>

definition hello_sys ::
  "(sys_call \<Rightarrow> int) \<Rightarrow> 32 word \<Rightarrow> (epoller, (epoller, 'z) sworld) conn_env \<Rightarrow> bool" where
  "hello_sys sys j env \<longleftrightarrow>
     vt_update (ce_loop env) = epoll_upd sys j \<and> vt_remove (ce_loop env) = epoll_rem sys \<and>
     (\<forall>fd. 0 \<le> sys (EpollCtl EPOLL_CTL_DEL fd 0)) \<and>
     writes_ok env \<and> no_reset env \<and> (\<forall>i. readv_ok (ce_readv env i))"

text \<open>What the handling of one event on channel \<open>p\<close> leaves behind, with \<open>k\<close> new connections.\<close>

definition handled ::
  "nat \<Rightarrow> int \<Rightarrow> chan_ptr \<Rightarrow> nat \<Rightarrow> (epoller, 'z) sworld \<Rightarrow> (epoller, 'z) sworld \<Rightarrow> bool" where
  "handled tid lfd p k W W' \<longleftrightarrow>
     hello_inv tid (\<lambda>_. hello_text) W' \<and> el_running W' = el_running W \<and>
     (\<forall>q. live W q \<and> q \<noteq> p \<longrightarrow> live W' q \<and> el_heap W' q = el_heap W q) \<and>
     sv_nextConnId W' = sv_nextConnId W + int k \<and> cn_next W' = cn_next W + k \<and>
     (listens lfd W \<longrightarrow> listens lfd W')"

lemma handled_same: "hello_inv tid (\<lambda>_. hello_text) W \<Longrightarrow> handled tid lfd p 0 W W"
  by (simp add: handled_def)

lemma in_onConn_returns: "tc_highWaterMarkCallback k = None \<Longrightarrow> callbacks_return (in_onConn env) c k"
  by (simp add: callbacks_return_def in_onConn_def onWriteComplete_def untouched_def)

lemma in_onConn_calls:
  "callbacks_ok {[]} (in_onConn env) c"
  "writes_ok (in_onConn env) \<longleftrightarrow> writes_ok env" "no_reset (in_onConn env) \<longleftrightarrow> no_reset env"
  by (auto simp: in_onConn_def onWriteComplete_def callbacks_ok_def extends_stream_def
      writes_ok_def no_reset_def split: cb_call.splits)

lemma in_onConn_local:
  assumes "vt_update (ce_loop env) = epoll_upd sys j"
  shows "env_local (only_on (ce_tid env) c) c ((ce_loop env)\<lparr>vt_update := epoll_upd sys j\<rparr>) (in_onConn env)"
proof -
  have "(ce_loop env)\<lparr>vt_update := epoll_upd sys j\<rparr> = ce_loop env" using assms [symmetric] by simp
  then show ?thesis
    by (auto simp: env_local_def in_onConn_def onWriteComplete_def only_on_def only_conn_refl split: cb_call.splits)
qed

lemma event_on_conn:
  assumes "hello_inv tid (\<lambda>_. hello_text) W" "c < cn_next W" "cn_alive W c"
    and "only_conn c W W'" "conn_ok W' c" "stream W' c = hello_text"
  shows "handled tid lfd (tc_channel (w_conns W c)) 0 W W'"
proof -
  have "(\<lambda>_. hello_text)(c := hello_text) = (\<lambda>_. hello_text)" by auto
  with only_conn_inv [OF assms, of lfd] show ?thesis by (simp add: handled_def)
qed

lemma hello_write_eq:
  "handleWrite (server_env held (hello_env env)) c W = handleWrite (in_onConn env) c W"
proof -
  let ?E = "server_env held (hello_env env)"
  have r: "run_callback ?E (WriteCompleteCb n) c = run_callback (in_onConn env) (WriteCompleteCb n) c" for n
    by (simp add: run_callback_def server_env_def hello_env_def in_onConn_def)
  have s: "shutdownInLoop ?E c = shutdownInLoop (in_onConn env) c"
    by (simp add: fun_eq_iff shutdownInLoop_def)
  have d: "output_drained ?E c = output_drained (in_onConn env) c"
    unfolding output_drained_def conn_updateChannel_def r s by simp
  show ?thesis unfolding handleWrite_def d by simp
qed

lemma hello_write:
  assumes sys: "hello_sys sys j env" and inv: "hello_inv (ce_tid env) (\<lambda>_. hello_text) W"
    and c: "c < cn_next W" "cn_alive W c"
  shows "\<exists>W'. handleWrite (server_env held (hello_env env)) c W = Inr W' \<and>
    handled (ce_tid env) lfd (tc_channel (w_conns W c)) 0 W W'"
proof -
  have upd: "vt_update (ce_loop env) = epoll_upd sys j" and w: "writes_ok (in_onConn env)"
    using sys by (simp_all add: hello_sys_def in_onConn_calls)
  note D = hello_invD [OF inv]
  have hc: "conn_ok W c" "stream W c = hello_text" "tc_highWaterMarkCallback (w_conns W c) = None"
    using D(13) [OF c(1)] c(2) by (simp_all add: hello_conn_def wired_def)
  obtain W' where W': "handleWrite (in_onConn env) c W = Inr W'"
    using handleWrite_total [OF in_onConn_returns [OF hc(3)] w] D(2) conn_okD(2) [OF hc(1)] by auto
  have "only_on (ce_tid env) c W W'"
    using only.handleWrite_L [OF in_onConn_local [OF upd] W'] .
  then have o: "only_conn c W W'" using D(2) by (simp add: only_on_def)
  have "extends_stream {[]} c W W'"
    using epc.handleWrite_extends [OF _ closed_appends_silent in_onConn_calls(1) hc(1) W'] upd by simp
  then have "conn_ok W' c" "stream W' c = hello_text" using hc(2) by (simp_all add: extends_stream_def)
  from event_on_conn [OF inv c o this] W' show ?thesis by (simp add: hello_write_eq)
qed

lemma hello_respects:
  fixes env :: "('p, ('p, 'z) sworld) conn_env"
  shows "cb_respects keeps_server (hello_env env)"
proof -
  have quiet: "cb_respects keeps_server (in_onConn env)"
    by (auto simp: cb_respects_def in_onConn_def onWriteComplete_def keeps_refl split: cb_call.splits)
  have "keeps_server W (conn_setTcpNoDelay on c W)" for on c and W :: "('p, 'z) sworld"
    by (rule sv_same_keeps) (simp add: sv_same_def conn_setTcpNoDelay_def sock_do_def)
  note nodelay = keeps_trans [OF this]
  have "keeps_server W W'" if o: "onConn (in_onConn env) c W = Inr W'" for c W W'
  proof -
    obtain s where "send_piece (in_onConn env) c s (conn_setTcpNoDelay True c W) = Inr W'"
      using o by (auto simp: onConn_def Let_def)
    from nodelay [OF srv.send_R(1) [OF quiet this]] show ?thesis .
  qed
  moreover have "keeps_server W W'" if "onMsg c W = Inr W'" for c W W'
    using that by (auto simp: onMsg_def intro: srv.R_input)
  ultimately show ?thesis
    by (auto simp: cb_respects_def hello_env_def onWriteComplete_def keeps_refl split: cb_call.splits)
qed

text \<open>Everything that arrives is printed and dropped.\<close>

lemma idle_empty: "idle_in b \<Longrightarrow> content b = []"
  by (simp add: idle_in_def content_def)

lemma hello_message:
  assumes "hello_sys sys j env" "hello_inv (ce_tid env) (\<lambda>_. hello_text) W" "c < cn_next W" "cn_alive W c"
    and "ce_readv env (w_calls W) (readFd_capacity (tc_inputBuffer (w_conns W c))) = Inr bytes" "bytes \<noteq> []"
  shows "\<exists>W'. handleRead (server_env held (hello_env env)) c W = Inr W' \<and>
    handled (ce_tid env) lfd (tc_channel (w_conns W c)) 0 W W'"
proof -
  let ?in = "tc_inputBuffer (w_conns W c)" and ?rv = "ce_readv env (w_calls W)"
  have k: "conn_ok W c" "stream W c = hello_text" "idle_in ?in" "tc_messageCallback (w_conns W c) = Some 2"
    using hello_invD(13) [OF assms(2,3)] assms(4) by (simp_all add: hello_conn_def wired_def)
  have rv: "readv_ok ?rv" using assms(1) by (simp add: hello_sys_def)
  note inok = conn_okD(1) [OF k(1)]
  have "length (buf_data ?in) + EXTRABUF \<le> VEC_MAX"
    using k(3) by (simp add: idle_in_def IN_MAX_def EXTRABUF_def VEC_MAX_def)
  from readFd_content [OF inok rv assms(5) this]
  obtain b where b: "readFd ?rv ?in = Inr (b, int (length bytes), None)" "buf_ok b" by blast
  have "length (buf_data b) \<le> IN_MAX"
    using readFd_size [OF inok rv b(1)] k(3) writable_ok [OF inok]
    by (auto simp: idle_in_def IN_MAX_def EXTRABUF_def split: if_splits)
  then have idle: "idle_in (retrieveAll b)" by (simp add: idle_in_def retrieveAll_def buf_const)
  let ?W' = "upd_conn c (\<lambda>k. k\<lparr>tc_inputBuffer := retrieveAll b\<rparr>) (W\<lparr>w_calls := Suc (w_calls W)\<rparr>)"
  have h: "handleRead (server_env held (hello_env env)) c W = Inr ?W'"
    using assms(6) k(4)
    by (simp add: handleRead_def b(1) Let_def call_cb_def server_env_def hello_env_def onMsg_def
        retrieveAllAsString_eq [OF b(2)]) (simp add: upd_conn_def)
  have "only_conn c W ?W'"
    by (rule only_connI [where p = "el_poller W" and x = "conn_chan c W" and i = "retrieveAll b" and
          b = "tc_outputBuffer (w_conns W c)" and w = "w_wire W c" and s = "w_shut W c" and n = "Suc (w_calls W)"])
       (use idle in \<open>simp_all add: conn_chan_def upd_conn_def\<close>)
  moreover have "conn_ok ?W' c" "stream ?W' c = hello_text"
    using k retrieveAll_ok [OF b(2)] by (simp_all add: conn_ok_def stream_def queued_out_def)
  ultimately show ?thesis using event_on_conn [OF assms(2-4)] h by blast
qed

lemma hello_read_error:
  assumes "hello_inv (ce_tid env) (\<lambda>_. hello_text) W" "c < cn_next W" "cn_alive W c"
    and "ce_readv env (w_calls W) (readFd_capacity (tc_inputBuffer (w_conns W c))) = Inl e"
  shows "\<exists>W'. handleRead (server_env held (hello_env env)) c W = Inr W' \<and>
    handled (ce_tid env) lfd (tc_channel (w_conns W c)) 0 W W'"
proof -
  let ?W' = "W\<lparr>w_calls := Suc (w_calls W)\<rparr>"
  have k: "conn_ok W c" "stream W c = hello_text"
    using hello_invD(13) [OF assms(1,2)] assms(3) by (simp_all add: hello_conn_def)
  have h: "handleRead (server_env held (hello_env env)) c W = Inr ?W'"
    using assms(4) by (simp add: handleRead_def readFd_error handleError_def Let_def) (simp add: upd_conn_def)
  have "conn_ok ?W' c" "stream ?W' c = hello_text"
    using k by (simp_all add: conn_ok_def stream_def queued_out_def)
  with event_on_conn [OF assms(1-3) only_conn_elementary(3)] h show ?thesis by blast
qed

text \<open>The end of file: the connection leaves the map and the poller and is destroyed.\<close>

lemma hello_close:
  assumes sys: "hello_sys sys j env" and inv: "hello_inv (ce_tid env) (\<lambda>_. hello_text) W"
    and c: "c < cn_next W" "cn_alive W c"
    and eof: "ce_readv env (w_calls W) (readFd_capacity (tc_inputBuffer (w_conns W c))) = Inr []"
  shows "\<exists>W'. handleRead (server_env (\<lambda>_. False) (hello_env env)) c W = Inr W' \<and>
    handled (ce_tid env) lfd (tc_channel (w_conns W c)) 0 W W'"
proof -
  let ?ch = "tc_channel (w_conns W c)" and ?E = "server_env (\<lambda>_. False) (hello_env env)"
  note D = hello_invD [OF inv]
  have k: "conn_ok W c" "stream W c = hello_text" "idle_in (tc_inputBuffer (w_conns W c))"
    "tc_state (w_conns W c) = kConnected" "tc_closeCallback (w_conns W c) = Some 0" "1 < ?ch"
    "map_of (sv_conn_map W) (tc_name (w_conns W c)) = Some c" "?ch < el_next_ptr W"
    using D(13) [OF c(1)] c(2) by (simp_all add: hello_conn_def wired_def)
  have "length (buf_data (tc_inputBuffer (w_conns W c))) + EXTRABUF \<le> VEC_MAX"
    using k(3) by (simp add: idle_in_def IN_MAX_def EXTRABUF_def VEC_MAX_def)
  then obtain b where h: "handleRead ?E c W = Inr (closed_world (\<lambda>_. False) (hello_env env) c b W)"
    using eof_closes [where env = "hello_env env" and held = "\<lambda>_. False" and c = c and W = W and n = 0]
      D(2) k(1,4,5) eof sys by (auto simp: hello_sys_def)
  let ?P = "el_poller (closing_world (hello_env env) c b W)"
  define W' where "W' = W\<lparr>el_poller := ?P,
     w_conns := (w_conns W)(c := (w_conns W c)\<lparr>tc_inputBuffer := b, tc_state := kDisconnected\<rparr>),
     w_calls := Suc (w_calls W), sv_conn_map := smap_erase (tc_name (w_conns W c)) (sv_conn_map W),
     cn_alive := (cn_alive W)(c := False), sk_calls := sk_calls W @ [SClose (tc_sockfd (w_conns W c))]\<rparr>"
  have run: "handleRead ?E c W = Inr W'" unfolding h closed_world_eq W'_def ..
  have chs: "channels ?P = (channels (el_poller W))(ch_fd (conn_chan c W) := None)"
    using sys by (intro closing_channels [where sys = sys]) (simp_all add: hello_sys_def)
  have ptrs: "(\<lambda>d. tc_channel (w_conns W' d)) = (\<lambda>d. tc_channel (w_conns W d))" "cn_next W' = cn_next W"
    by (auto simp: W'_def)
  have lv: "live W' q" if "live W q" "q \<noteq> ?ch" for q
    using that by (auto simp: live_def W'_def)
  have other: "hello_conn hello_text W' d" if d: "d < cn_next W" "d \<noteq> c" for d
  proof -
    have "tc_name (w_conns W d) \<noteq> tc_name (w_conns W c)" if "cn_alive W d"
      using D(13) [OF d(1)] that k(7) d(2) by (auto simp: hello_conn_def)
    then show ?thesis
      using D(13) [OF d(1)] d(2) by (cases "cn_alive W d")
        (simp_all add: hello_conn_def W'_def stream_def queued_out_def conn_ok_def conn_chan_def smap_erase_lookup)
  qed
  have own: "hello_conn hello_text W' c"
    using k by (simp add: hello_conn_def W'_def stream_def queued_out_def)
  have "keeps_server W W'" using srv.handleRead_R [OF server_env_respects [OF hello_respects] run] .
  then have "server_ok W'" using D(1) by (simp add: keeps_server_def)
  moreover have "inj_on (\<lambda>d. tc_channel (w_conns W' d)) {..<cn_next W'}" unfolding ptrs using D(12) .
  moreover have "\<forall>d<cn_next W'. hello_conn hello_text W' d"
    using own other by (metis ptrs(2))
  moreover have "reg_ok (channels (el_poller W')) (el_heap W')"
    using D(10) by (simp add: W'_def chs reg_ok_def)
  moreover have "live W' q" if "channels (el_poller W') fd = Some q" for fd q
  proof -
    have q: "channels (el_poller W) fd = Some q" "fd \<noteq> ch_fd (conn_chan c W)"
      using that by (simp_all add: W'_def chs split: if_splits)
    then have "q \<noteq> ?ch" using reg_okD [OF D(10) q(1)] by (auto simp: conn_chan_def)
    with D(11) [OF q(1)] show ?thesis by (rule lv)
  qed
  moreover have "isLoopThread (ce_tid env) W'" "el_pending W' = []" "1 < el_next_ptr W'" "ac_new_conn_cb W'"
    "sv_connectionCallback W' = Some 1" "sv_messageCallback W' = Some 2" "sv_writeCompleteCallback W' = Some 3"
    "base_channels (el_heap W')"
    using D(2-9) by (simp_all add: W'_def isLoopThread_def)
  ultimately have "hello_inv (ce_tid env) (\<lambda>_. hello_text) W'" unfolding hello_inv_def by blast
  moreover have "listens lfd W'" if "listens lfd W"
    using that c(1) by (auto simp: listens_def W'_def chs conn_chan_def)
  ultimately show ?thesis using run lv by (auto simp: handled_def W'_def)
qed

lemma hello_read:
  assumes "hello_sys sys j env" "hello_inv (ce_tid env) (\<lambda>_. hello_text) W" "c < cn_next W" "cn_alive W c"
  shows "\<exists>W'. handleRead (server_env (\<lambda>_. False) (hello_env env)) c W = Inr W' \<and>
    handled (ce_tid env) lfd (tc_channel (w_conns W c)) 0 W W'"
proof (cases "ce_readv env (w_calls W) (readFd_capacity (tc_inputBuffer (w_conns W c)))")
  case (Inl e)
  with assms(2-4) show ?thesis by (rule hello_read_error)
next
  case (Inr bytes)
  with assms show ?thesis by (cases "bytes = []") (auto intro: hello_close hello_message)
qed

text \<open>A new connection, up to its connection callback.\<close>

lemma established_eq:
  assumes "vt_update (ce_loop env) = epoll_upd sys j"
  shows "\<exists>p x. established env junk fd peer W =
      W\<lparr>el_poller := p, el_heap := (el_heap W)(el_next_ptr W := x), el_next_ptr := Suc (el_next_ptr W),
        w_conns := (w_conns W)(cn_next W := established_tcp fd peer W),
        w_wire := (w_wire W)(cn_next W := []), w_shut := (w_shut W)(cn_next W := False),
        sv_nextConnId := sv_nextConnId W + 1,
        sv_conn_map := smap_set (conn_name (sv_port W) (sv_nextConnId W)) (cn_next W) (sv_conn_map W),
        cn_next := Suc (cn_next W), cn_alive := (cn_alive W)(cn_next W := True)\<rparr> \<and>
    same_ends x (setWriteHandler (ConnWrite (cn_next W)) (setReadHandler (ConnRead (cn_next W)) (Channel_ctor junk fd False))) \<and>
    ch_events x = CHANNEL_READ \<and>
    (channels p = channels (el_poller W) \<or> channels p = (channels (el_poller W))(fd \<mapsto> el_next_ptr W))"
proof -
  let ?c = "cn_next W" and ?ch = "el_next_ptr W"
  let ?base = "setWriteHandler (ConnWrite ?c) (setReadHandler (ConnRead ?c) (Channel_ctor junk fd False))"
  let ?h = "(el_heap W)(?ch := setEvent CHANNEL_READ ?base)"
  obtain p h where u: "epoll_upd sys j (el_poller W) ?h ?ch = (p, h)"
    by (cases "epoll_upd sys j (el_poller W) ?h ?ch")
  have fd: "ch_fd (?h ?ch) = fd" by (simp add: channel_ops Channel_ctor_def)
  have "(\<exists>x. h = (el_heap W)(?ch := x) \<and> same_ends x ?base \<and> ch_events x = CHANNEL_READ) \<and>
      (channels p = channels (el_poller W) \<or> channels p = (channels (el_poller W))(fd \<mapsto> ?ch))"
    using ep.upd_law [OF u]
  proof (elim disjE conjE)
    assume "channels p = (channels (el_poller W))(ch_fd (?h ?ch) \<mapsto> ?ch)" "h = on_chan ?ch updateEvent ?h"
    then show ?thesis unfolding fd
      by (auto simp: on_chan_def same_ends_def channel_ops intro!: exI [of _ "updateEvent (setEvent CHANNEL_READ ?base)"])
  next
    assume "channels p = channels (el_poller W)" "h = ?h"
    then show ?thesis by (auto simp: setEvent_def same_ends_def intro!: exI [of _ "setEvent CHANNEL_READ ?base"])
  qed
  then obtain x where x: "h = (el_heap W)(?ch := x)" "same_ends x ?base" "ch_events x = CHANNEL_READ"
    "channels p = channels (el_poller W) \<or> channels p = (channels (el_poller W))(fd \<mapsto> ?ch)" by auto
  let ?W3 = "set_conn_event ?c CHANNEL_READ (setState kConnected ?c (wired_connection junk fd peer W))"
  have W3: "?W3 = W\<lparr>el_heap := ?h, el_next_ptr := Suc ?ch,
        w_conns := (w_conns W)(?c := established_tcp fd peer W),
        w_wire := (w_wire W)(?c := []), w_shut := (w_shut W)(?c := False),
        sv_nextConnId := sv_nextConnId W + 1,
        sv_conn_map := smap_set (conn_name (sv_port W) (sv_nextConnId W)) ?c (sv_conn_map W),
        cn_next := Suc ?c, cn_alive := (cn_alive W)(?c := True)\<rparr>"
    by (simp add: set_conn_event_def wiring_defs Let_def fresh_tcp_def established_tcp_def upd_conn_def on_chan_def)
  have p3: "tc_channel (w_conns ?W3 ?c) = ?ch" by (simp add: W3 established_tcp_def fresh_tcp_def)
  have "established env junk fd peer W = do_update (ce_loop env) ?ch ?W3"
    by (simp only: established_def Let_def p3)
  then show ?thesis unfolding W3
    using x(2-4) by (intro exI [of _ p] exI [of _ x]) (simp add: do_update_def assms u x(1))
qed

lemma accepted_inv:
  assumes upd: "vt_update (ce_loop env) = epoll_upd sys j" and inv: "hello_inv tid (\<lambda>_. hello_text) W"
    and ids: "sv_nextConnId W + 1 < 2 ^ 31"
  shows "hello_inv tid ((\<lambda>_. hello_text)(cn_next W := [])) (established env junk fd peer W) \<and>
    el_running (established env junk fd peer W) = el_running W \<and>
    (\<forall>q. live W q \<longrightarrow> live (established env junk fd peer W) q \<and>
      el_heap (established env junk fd peer W) q = el_heap W q) \<and>
    sv_nextConnId (established env junk fd peer W) = sv_nextConnId W + 1 \<and>
    (fd \<noteq> lfd \<longrightarrow> listens lfd W \<longrightarrow> listens lfd (established env junk fd peer W))"
proof -
  let ?c = "cn_next W" and ?ch = "el_next_ptr W" and ?name = "conn_name (sv_port W) (sv_nextConnId W)"
  obtain p x where V: "established env junk fd peer W =
      W\<lparr>el_poller := p, el_heap := (el_heap W)(?ch := x), el_next_ptr := Suc ?ch,
        w_conns := (w_conns W)(?c := established_tcp fd peer W),
        w_wire := (w_wire W)(?c := []), w_shut := (w_shut W)(?c := False),
        sv_nextConnId := sv_nextConnId W + 1, sv_conn_map := smap_set ?name ?c (sv_conn_map W),
        cn_next := Suc ?c, cn_alive := (cn_alive W)(?c := True)\<rparr>"
    and x: "same_ends x (setWriteHandler (ConnWrite ?c) (setReadHandler (ConnRead ?c) (Channel_ctor junk fd False)))"
    "ch_events x = CHANNEL_READ"
    and p: "channels p = channels (el_poller W) \<or> channels p = (channels (el_poller W))(fd \<mapsto> ?ch)"
    using established_eq [OF upd, of junk fd peer W] by blast
  define V where "V = established env junk fd peer W"
  note V = V [folded V_def]
  note D = hello_invD [OF inv]
  have xs: "ch_fd x = fd" "\<not> ch_isListen x" "ch_readHandler x = Some (ConnRead ?c)" "ch_writeHandler x = Some (ConnWrite ?c)"
    using x(1) by (simp_all add: same_ends_def channel_ops Channel_ctor_def)
  have below: "tc_channel (w_conns W d) < ?ch" if "d < ?c" for d
    using D(13) [OF that] by (simp add: hello_conn_def)
  note lb = live_below [OF inv]
  have lv: "live V q" if l: "live W q" for q
  proof (cases "q = 0 \<or> q = 1")
    case False
    then obtain d where "d < ?c" "cn_alive W d" "q = tc_channel (w_conns W d)"
      using l by (auto simp: live_def)
    then show ?thesis using liveI [of d V] by (simp add: V)
  qed (auto simp: live_def)
  have lvc: "live V ?ch"
    using liveI [of ?c V] by (simp add: V established_tcp_def fresh_tcp_def)
  have other: "hello_conn hello_text V d" if d: "d < ?c" for d
  proof -
    have "tc_name (w_conns W d) \<noteq> ?name" if "cn_alive W d"
      using D(13) [OF d] that server_name_fresh [OF D(1)] by (auto simp: hello_conn_def)
    then show ?thesis
      using D(13) [OF d] below [OF d] d by (cases "cn_alive W d")
        (simp_all add: hello_conn_def V stream_def queued_out_def conn_ok_def conn_chan_def smap_set_lookup)
  qed
  have own: "hello_conn [] V ?c"
    using D(4,6,7) xs x(2) fresh_buffer_ok
    by (simp add: hello_conn_def V established_tcp_def fresh_tcp_def stream_def queued_out_def conn_ok_def
        conn_chan_def smap_set_lookup wired_def idle_in_def IN_MAX_def isWriting_def has_def channel_masks)
       (simp add: fresh_buffer_def)
  have "inj_on (\<lambda>d. tc_channel (w_conns V d)) {..<Suc ?c}"
  proof (rule inj_onI)
    fix d e
    assume de: "d \<in> {..<Suc ?c}" "e \<in> {..<Suc ?c}" "tc_channel (w_conns V d) = tc_channel (w_conns V e)"
    have ch: "tc_channel (w_conns V i) = (if i = ?c then ?ch else tc_channel (w_conns W i))" for i
      by (simp add: V established_tcp_def fresh_tcp_def)
    show "d = e"
      using de(1,2) de(3) [unfolded ch] below [of d] below [of e] inj_onD [OF D(12), of d e]
      by (auto simp: less_Suc_eq split: if_splits)
  qed
  then have "inj_on (\<lambda>d. tc_channel (w_conns V d)) {..<cn_next V}" by (simp add: V)
  moreover have "server_ok V" unfolding V_def by (rule established_ok [OF D(1) ids])
  moreover have "\<forall>d<cn_next V. hello_conn (((\<lambda>_. hello_text)(?c := [])) d) V d"
    using own other by (auto simp: V less_Suc_eq)
  moreover have "reg_ok (channels (el_poller V)) (el_heap V)"
  proof -
    have "channels (el_poller W) fd \<noteq> Some ?ch" for fd using lb [OF D(11) [of fd ?ch]] by auto
    then show ?thesis using D(10) p xs(1) by (auto simp: V reg_ok_def split: if_splits)
  qed
  moreover have "live V q" if "channels (el_poller V) fd = Some q" for fd q
    using that p D(11) lv lvc by (auto simp: V split: if_splits)
  moreover have "isLoopThread tid V" "el_pending V = []" "1 < el_next_ptr V" "ac_new_conn_cb V"
    "sv_connectionCallback V = Some 1" "sv_messageCallback V = Some 2" "sv_writeCompleteCallback V = Some 3"
    "base_channels (el_heap V)"
    using D(2-9) by (simp_all add: V isLoopThread_def base_channels_def)
  ultimately have "hello_inv tid ((\<lambda>_. hello_text)(?c := [])) V" unfolding hello_inv_def by blast
  moreover have "el_heap V q = el_heap W q" if "live W q" for q using lb [OF that] by (simp add: V)
  moreover have "listens lfd V" if "listens lfd W" "fd \<noteq> lfd"
  proof -
    have "tc_channel (w_conns W d) \<noteq> ?ch" if "d < ?c" for d using below [OF that] by simp
    then show ?thesis
      using that p xs(1) by (auto simp: listens_def V less_Suc_eq conn_chan_def established_tcp_def fresh_tcp_def)
  qed
  ultimately show ?thesis using lv unfolding V_def [symmetric] by (simp add: V)
qed

lemma hello_piece: "\<exists>s. sp_of_cstr (hello_text @ [CHR 0x00]) = Inr s \<and> piece_bytes s = Inr hello_text"
proof -
  have "bindE (sp_of_cstr (hello_text @ [CHR 0x00])) piece_bytes = Inr hello_text" by code_simp
  then show ?thesis by (cases "sp_of_cstr (hello_text @ [CHR 0x00])") auto
qed

lemma onConn_sends:
  assumes "isLoopThread (ce_tid env) W" "tc_state (w_conns W c) = kConnected"
  shows "onConn env c W = sendInLoop env c hello_text (conn_setTcpNoDelay True c W)"
proof -
  obtain s where "sp_of_cstr (hello_text @ [CHR 0x00]) = Inr s" "piece_bytes s = Inr hello_text"
    using hello_piece by blast
  with assms show ?thesis
    by (simp add: onConn_def Let_def send_piece_def sendInLoop_piece_def conn_setTcpNoDelay_def sock_do_def isLoopThread_def)
qed

lemma nodelay_inv: "hello_inv tid txt (conn_setTcpNoDelay on c W) \<longleftrightarrow> hello_inv tid txt W"
  by (simp add: hello_inv_def conn_setTcpNoDelay_def sock_do_def server_ok_def isLoopThread_def live_def
      hello_conn_def stream_def queued_out_def conn_ok_def conn_chan_def)

lemma hello_accept:
  assumes sys: "hello_sys sys j env" and inv: "hello_inv (ce_tid env) (\<lambda>_. hello_text) W"
    and ids: "sv_nextConnId W + 1 < 2 ^ 31" and fd: "fst res \<noteq> lfd"
  shows "\<exists>W'. handleConn (\<lambda>_. False) junk (hello_env env) res addr W = Inr W' \<and> handled (ce_tid env) lfd 1 1 W W'"
proof -
  obtain fd a where a: "Socket_accept res addr = (fd, a)" by (cases "Socket_accept res addr")
  then have lfd: "fd \<noteq> lfd" using fd by (auto simp: Socket_accept_def split: if_splits)
  let ?c = "cn_next W" and ?V = "established (hello_env env) junk fd (InetAddress_toString a) W"
  let ?V1 = "conn_setTcpNoDelay True ?c ?V" and ?E = "server_env (\<lambda>_. False) (hello_env env)"
  note D = hello_invD [OF inv]
  have upd: "vt_update (ce_loop env) = epoll_upd sys j" "writes_ok (in_onConn env)" "no_reset (in_onConn env)"
    using sys by (simp_all add: hello_sys_def in_onConn_calls)
  have acc: "hello_inv (ce_tid env) ((\<lambda>_. hello_text)(?c := [])) ?V1"
    "el_running ?V1 = el_running W" "\<forall>q. live W q \<longrightarrow> live ?V1 q \<and> el_heap ?V1 q = el_heap W q"
    "sv_nextConnId ?V1 = sv_nextConnId W + 1" "listens lfd W \<longrightarrow> listens lfd ?V1"
    using accepted_inv [of "hello_env env", OF _ inv ids, where fd = fd and lfd = lfd] upd(1) lfd
    by (simp_all add: nodelay_inv) (simp_all add: conn_setTcpNoDelay_def sock_do_def live_def listens_def conn_chan_def)
  note A = hello_invD [OF acc(1)]
  have tcp: "w_conns ?V1 ?c = established_tcp fd (InetAddress_toString a) W" "cn_next ?V1 = Suc ?c" "cn_alive ?V1 ?c"
    by (simp_all add: conn_setTcpNoDelay_def sock_do_def established_simps established_frame)
       (simp add: established_def wiring_defs Let_def)
  have k: "conn_ok ?V1 ?c" "stream ?V1 ?c = []" "tc_state (w_conns ?V1 ?c) \<noteq> kDisconnected"
    using A(13) [of ?c] tcp by (simp_all add: hello_conn_def)
  have out: "tc_highWaterMarkCallback (w_conns ?V1 ?c) = None" "tc_outputBuffer (w_conns ?V1 ?c) = fresh_buffer"
    by (simp_all add: tcp(1) established_tcp_def fresh_tcp_def)
  have len: "length hello_text \<le> VEC_MAX" "fill fresh_buffer + length hello_text \<le> VEC_MAX"
    by (simp_all add: hello_text_def VEC_MAX_def fresh_buffer_def fill_def buf_const)
  obtain W' where W': "sendInLoop (in_onConn env) ?c hello_text ?V1 = Inr W'"
    using sendInLoop_total [OF in_onConn_returns [OF out(1)] upd(2)] A(2) len(2) fresh_buffer_ok(2) by (auto simp: out(2))
  have "handleConn (\<lambda>_. False) junk (hello_env env) res addr W = call_cb ?E (Some 1) ConnectionCb ?c ?V"
    using newConnection_eq [of "hello_env env" W] D(1,2,5,8) by (simp add: handleConn_def a)
  also have "\<dots> = onConn (in_onConn env) ?c ?V" by (simp add: call_cb_def server_env_def hello_env_def)
  also have "\<dots> = sendInLoop (in_onConn env) ?c hello_text ?V1"
    using D(2) by (intro onConn_sends) (simp_all add: established_simps established_tcp_def isLoopThread_def established_frame)
  finally have h: "handleConn (\<lambda>_. False) junk (hello_env env) res addr W = Inr W'" using W' by simp
  have "only_conn ?c ?V1 W'"
    using only.sendInLoop_L [OF in_onConn_local [OF upd(1)] W'] A(2) by (simp add: only_on_def)
  moreover have "conn_ok W' ?c" "stream W' ?c = hello_text"
    using epc.sendInLoop_stream [OF _ closed_appends_silent in_onConn_calls(1) upd(2) k(1) len(1) k(3) W'] upd k(2)
    by (auto simp: no_reset_def)
  ultimately have fin: "hello_inv (ce_tid env) ((\<lambda>_. hello_text)(?c := [], ?c := hello_text)) W'" "el_running W' = el_running ?V1"
    "\<forall>q. live ?V1 q \<longrightarrow> live W' q" "\<forall>q. q \<noteq> el_next_ptr W \<longrightarrow> el_heap W' q = el_heap ?V1 q"
    "sv_nextConnId W' = sv_nextConnId ?V1" "cn_next W' = Suc ?c" "listens lfd ?V1 \<longrightarrow> listens lfd W'"
    using only_conn_inv [OF acc(1), of ?c W' hello_text lfd] tcp by (simp_all add: established_tcp_def fresh_tcp_def)
  have "((\<lambda>_. hello_text)(?c := [], ?c := hello_text)) = (\<lambda>_. hello_text)" by auto
  moreover have "q \<noteq> el_next_ptr W" if "live W q" for q
    using live_below [OF inv that] by simp
  ultimately have "handled (ce_tid env) lfd 1 1 W W'"
    using fin acc(2-5) by (auto simp: handled_def)
  with h show ?thesis by blast
qed

section \<open>The loop\<close>

text \<open>What \<open>poll\<close> can make of an active channel: never both of reading and writing.\<close>

definition one_event :: "chan_ptr \<Rightarrow> 32 word \<Rightarrow> bool" where
  "one_event p a \<longleftrightarrow> a = 0 \<or> a = CHANNEL_READ \<or> a = CHANNEL_WRITE \<and> p \<noteq> 0"

text \<open>One active channel.\<close>

lemma hello_channel:
  assumes sys: "hello_sys sys j env" and inv: "hello_inv (ce_tid env) (\<lambda>_. hello_text) W"
    and ids: "sv_nextConnId W + 1 < 2 ^ 31" and fds: "\<forall>i. fst (accs i) \<noteq> lfd"
    and p: "live W p" "one_event p (ch_active (el_heap W p))"
  shows "\<exists>r W'. handleEvent (el_heap W p) = Inr r \<and>
    (case r of None \<Rightarrow> Inr W | Some h \<Rightarrow> hello_handler env junk accs addr h W) = Inr W' \<and>
    handled (ce_tid env) lfd p (if p = 1 then 1 else 0) W W' \<and> ch_fd (el_heap W' 0) = ch_fd (el_heap W 0)"
proof -
  note D = hello_invD [OF inv]
  have keep: "ch_fd (el_heap W' 0) = ch_fd (el_heap W 0)"
    if "handled (ce_tid env) lfd p k W W'" "p \<noteq> 0" for k W'
    using that by (auto simp: handled_def live_def)
  consider "p = 0" | "p = 1" | c where "1 < p" "c < cn_next W" "cn_alive W c" "p = tc_channel (w_conns W c)"
    using p(1) D(13) by (auto simp: live_def hello_conn_def)
  then show ?thesis
  proof cases
    case 1
    then have "handleEvent (el_heap W p) = Inr None \<or> handleEvent (el_heap W p) = Inr (Some (OtherHandler 0))"
      using p(2) D(9) by (auto simp: one_event_def base_channels_def handleEvent_def call_handler_def has_def channel_masks)
    moreover have "hello_handler env junk accs addr (OtherHandler 0) W = Inr W"
      by (simp add: hello_handler_def server_handler_def)
    ultimately show ?thesis using 1 handled_same [OF inv] by auto
  next
    case 2
    then have "handleEvent (el_heap W p) = Inr (Some AcceptConn)"
      using D(9) by (simp add: base_channels_def handleEvent_def call_handler_def)
    moreover obtain W' where "hello_handler env junk accs addr AcceptConn W = Inr W'" "handled (ce_tid env) lfd p 1 W W'"
      using hello_accept [OF sys inv ids spec [OF fds], of junk "nat (sv_nextConnId W)" addr] 2 by (auto simp: hello_handler_def server_handler_def)
    ultimately show ?thesis using 2 keep [of 1 W'] by auto
  next
    case (3 c)
    note p1 = 3(1) and c = 3(2-4)
    have "wired c (w_conns W c) (el_heap W p)"
      using D(13) [OF c(1)] c(2,3) by (simp add: hello_conn_def conn_chan_def)
    then consider "handleEvent (el_heap W p) = Inr None" | "handleEvent (el_heap W p) = Inr (Some (ConnRead c))"
      | "handleEvent (el_heap W p) = Inr (Some (ConnWrite c))"
      using p(2) by (auto simp: wired_def one_event_def handleEvent_def call_handler_def has_def channel_masks)
    then obtain r W' where e: "handleEvent (el_heap W p) = Inr r"
      "(case r of None \<Rightarrow> Inr W | Some h \<Rightarrow> hello_handler env junk accs addr h W) = Inr W'"
      and h: "handled (ce_tid env) lfd p 0 W W'"
    proof cases
      case 1
      then show ?thesis using that handled_same [OF inv] by fastforce
    next
      case 2
      obtain W1 where "hello_handler env junk accs addr (ConnRead c) W = Inr W1" "handled (ce_tid env) lfd p 0 W W1"
        using hello_read [OF sys inv c(1,2)] c(2,3) by (auto simp: hello_handler_def server_handler_def)
      with 2 show ?thesis by (intro that [of "Some (ConnRead c)" W1]) simp_all
    next
      case 3
      obtain W1 where "hello_handler env junk accs addr (ConnWrite c) W = Inr W1" "handled (ce_tid env) lfd p 0 W W1"
        using hello_write [OF sys inv c(1,2)] c(2,3) by (auto simp: hello_handler_def server_handler_def)
      with 3 show ?thesis by (intro that [of "Some (ConnWrite c)" W1]) simp_all
    qed
    have "ch_fd (el_heap W' 0) = ch_fd (el_heap W 0)" using h by (rule keep) (use p1 in simp)
    with e h p1 show ?thesis by auto
  qed
qed

lemma hello_channels:
  assumes sys: "hello_sys sys j env" and fds: "\<forall>i. fst (accs i) \<noteq> lfd"
  shows "hello_inv (ce_tid env) (\<lambda>_. hello_text) W \<Longrightarrow> distinct cs \<Longrightarrow>
    (\<forall>p\<in>set cs. live W p \<and> one_event p (ch_active (el_heap W p))) \<Longrightarrow>
    sv_nextConnId W + (if 1 \<in> set cs then 1 else 0) < 2 ^ 31 - 1 \<Longrightarrow>
    \<exists>W'. handle_active (hello_handler env junk accs addr) cs W = Inr W' \<and>
      hello_inv (ce_tid env) (\<lambda>_. hello_text) W' \<and> el_running W' = el_running W \<and>
      ch_fd (el_heap W' 0) = ch_fd (el_heap W 0) \<and>
      sv_nextConnId W' = sv_nextConnId W + (if 1 \<in> set cs then 1 else 0) \<and>
      cn_next W' = cn_next W + (if 1 \<in> set cs then 1 else 0) \<and> (listens lfd W \<longrightarrow> listens lfd W')"
proof (induction cs arbitrary: W)
  case (Cons p cs)
  have "sv_nextConnId W + 1 < 2 ^ 31" using Cons.prems(4) by (simp split: if_splits)
  moreover have "live W p" "one_event p (ch_active (el_heap W p))" using Cons.prems(3) by auto
  ultimately obtain r W1 where r: "handleEvent (el_heap W p) = Inr r"
    "(case r of None \<Rightarrow> Inr W | Some h \<Rightarrow> hello_handler env junk accs addr h W) = Inr W1"
    and h: "handled (ce_tid env) lfd p (if p = 1 then 1 else 0) W W1" "ch_fd (el_heap W1 0) = ch_fd (el_heap W 0)"
    using hello_channel [OF sys Cons.prems(1) _ fds] by blast
  have W1: "hello_inv (ce_tid env) (\<lambda>_. hello_text) W1" "el_running W1 = el_running W"
    "sv_nextConnId W1 = sv_nextConnId W + (if p = 1 then 1 else 0)"
    "cn_next W1 = cn_next W + (if p = 1 then 1 else 0)" "listens lfd W \<longrightarrow> listens lfd W1"
    using h(1) by (simp_all add: handled_def)
  have "\<forall>q\<in>set cs. live W1 q \<and> one_event q (ch_active (el_heap W1 q))"
    using h(1) Cons.prems(2,3) by (auto simp: handled_def)
  moreover have "sv_nextConnId W1 + (if 1 \<in> set cs then 1 else 0) < 2 ^ 31 - 1"
    using W1(3) Cons.prems(2,4) by (auto split: if_splits)
  ultimately obtain W2 where "handle_active (hello_handler env junk accs addr) cs W1 = Inr W2"
    "hello_inv (ce_tid env) (\<lambda>_. hello_text) W2" "el_running W2 = el_running W1"
    "ch_fd (el_heap W2 0) = ch_fd (el_heap W1 0)"
    "sv_nextConnId W2 = sv_nextConnId W1 + (if 1 \<in> set cs then 1 else 0)"
    "cn_next W2 = cn_next W1 + (if 1 \<in> set cs then 1 else 0)" "listens lfd W1 \<longrightarrow> listens lfd W2"
    using Cons.IH [OF W1(1)] Cons.prems(2) by auto
  then show ?case using r h(2) W1 Cons.prems(2) by (auto split: if_splits)
qed simp

text \<open>The kernel reports a descriptor at most once in an iteration, and never that the counter of the
  wakeup channel, whose descriptor is \<open>efd\<close>, can only be written.\<close>

definition reports_ok :: "int \<Rightarrow> (int \<times> 32 word) list \<Rightarrow> bool" where
  "reports_ok efd evs \<longleftrightarrow> distinct (map fst evs) \<and> (efd, EPOLLOUT) \<notin> set evs"

lemma hello_inv_polled:
  assumes "hello_inv tid txt W" "\<And>d. \<exists>a. h d = (el_heap W d)\<lparr>ch_active := a\<rparr>"
  shows "hello_inv tid txt (W\<lparr>el_heap := h\<rparr>)"
proof -
  have same: "ch_fd (h d) = ch_fd (el_heap W d)" "ch_events (h d) = ch_events (el_heap W d)"
    "ch_isListen (h d) = ch_isListen (el_heap W d)" "ch_readHandler (h d) = ch_readHandler (el_heap W d)"
    "ch_writeHandler (h d) = ch_writeHandler (el_heap W d)" "ch_connHandler (h d) = ch_connHandler (el_heap W d)" for d
  proof -
    obtain a where "h d = (el_heap W d)\<lparr>ch_active := a\<rparr>" using assms(2) by blast
    then show "ch_fd (h d) = ch_fd (el_heap W d)" "ch_events (h d) = ch_events (el_heap W d)"
      "ch_isListen (h d) = ch_isListen (el_heap W d)" "ch_readHandler (h d) = ch_readHandler (el_heap W d)"
      "ch_writeHandler (h d) = ch_writeHandler (el_heap W d)" "ch_connHandler (h d) = ch_connHandler (el_heap W d)"
      by simp_all
  qed
  have "hello_conn t (W\<lparr>el_heap := h\<rparr>) c \<longleftrightarrow> hello_conn t W c" for t c
    by (cases "cn_alive W c")
       (simp_all add: hello_conn_def stream_def queued_out_def conn_ok_def conn_chan_def wired_def isWriting_def same)
  then show ?thesis
    using assms(1)
    by (simp add: hello_inv_def server_ok_def isLoopThread_def base_channels_def reg_ok_def live_def same)
qed

lemma hello_inv_pending:
  assumes "hello_inv tid txt W"
  shows "hello_inv tid txt (W\<lparr>el_calling_pending := x, el_pending := []\<rparr>)"
proof -
  have "hello_conn t (W\<lparr>el_calling_pending := x, el_pending := []\<rparr>) c \<longleftrightarrow> hello_conn t W c" for t c
    by (cases "cn_alive W c") (simp_all add: hello_conn_def stream_def queued_out_def conn_ok_def conn_chan_def)
  then show ?thesis
    using assms by (simp add: hello_inv_def server_ok_def isLoopThread_def live_def)
qed

definition reported :: "int \<Rightarrow> (int \<times> 32 word) list \<Rightarrow> bool" where
  "reported fd evs \<longleftrightarrow> fd \<in> set (map fst evs)"

lemma epoll_poll_reported:
  assumes "epoll_poll evs p h = (h', cs, calls)" "reg_ok (channels p) h" "channels p fd = Some c"
  shows "c \<in> set cs \<longleftrightarrow> reported fd evs"
proof
  assume "c \<in> set cs"
  then obtain fd' where fd': "fd' \<in> fst ` set evs" "channels p fd' = Some c"
    unfolding epoll_poll_returned [OF assms(1)] by fastforce
  then have "fd' = fd" using reg_okD [OF assms(2)] assms(3) by metis
  with fd' show "reported fd evs" by (simp add: reported_def)
next
  assume "reported fd evs"
  then obtain r where "(fd, r) \<in> set evs" by (auto simp: reported_def)
  then show "c \<in> set cs" unfolding epoll_poll_returned [OF assms(1)] using assms(3) by force
qed

lemma hello_iteration:
  assumes sys: "hello_sys sys j env" and inv: "hello_inv (ce_tid env) (\<lambda>_. hello_text) W"
    and ids: "sv_nextConnId W + 1 < 2 ^ 31 - 1" and evs: "reports_ok (ch_fd (el_heap W 0)) evs"
    and fds: "\<forall>i. fst (accs i) \<noteq> lfd" and lfd: "listens lfd W"
  shows "\<exists>W'. loop_iteration (epoll_poll_call evs) (hello_handler env junk accs addr) exec W = Inr W' \<and>
    hello_inv (ce_tid env) (\<lambda>_. hello_text) W' \<and> el_running W' = el_running W \<and>
    ch_fd (el_heap W' 0) = ch_fd (el_heap W 0) \<and> sv_nextConnId W' \<le> sv_nextConnId W + 1 \<and>
    cn_next W' = cn_next W + (if reported lfd evs then 1 else 0) \<and> listens lfd W'"
proof -
  obtain h cs calls where poll: "epoll_poll evs (el_poller W) (el_heap W) = (h, cs, calls)"
    by (cases "epoll_poll evs (el_poller W) (el_heap W)") auto
  note D = hello_invD [OF inv]
  let ?W0 = "W\<lparr>el_heap := h\<rparr>"
  have inv0: "hello_inv (ce_tid env) (\<lambda>_. hello_text) ?W0"
    using inv epoll_poll_active_only [OF poll] by (rule hello_inv_polled)
  have fd0: "ch_fd (h 0) = ch_fd (el_heap W 0)" using epoll_poll_fd [OF poll] .
  have "live ?W0 p \<and> one_event p (ch_active (h p))" if p: "p \<in> set cs" for p
  proof
    obtain fd where "channels (el_poller W) fd = Some p"
      using p epoll_poll_returned [OF poll] by auto
    then have "live W p" by (rule D(11))
    then show "live ?W0 p" by (simp add: live_def)
    obtain revents where r: "(ch_fd (el_heap W p), revents) \<in> set evs" "ch_active (h p) = epoll_active revents (el_heap W p)"
      using epoll_poll_translates [OF poll D(10)] p by auto
    then show "one_event p (ch_active (h p))"
      using epoll_active_values [of revents "el_heap W p"] evs by (cases "p = 0") (auto simp: one_event_def reports_ok_def)
  qed
  moreover have "distinct cs"
    using epoll_poll_distinct [OF poll D(10)] evs by (simp add: reports_ok_def)
  moreover have "sv_nextConnId W + (if 1 \<in> set cs then 1 else 0) < 2 ^ 31 - 1" using ids by simp
  ultimately obtain W1 where W1: "handle_active (hello_handler env junk accs addr) cs ?W0 = Inr W1"
    "hello_inv (ce_tid env) (\<lambda>_. hello_text) W1" "el_running W1 = el_running W" "ch_fd (el_heap W1 0) = ch_fd (el_heap W 0)"
    "sv_nextConnId W1 = sv_nextConnId W + (if 1 \<in> set cs then 1 else 0)"
    "cn_next W1 = cn_next W + (if 1 \<in> set cs then 1 else 0)" "listens lfd ?W0 \<longrightarrow> listens lfd W1"
    using hello_channels [OF sys fds inv0, of cs junk addr] fd0 by auto
  have "listens lfd ?W0"
    using lfd epoll_poll_fd [OF poll] by (simp add: listens_def conn_chan_def)
  moreover have "1 \<in> set cs \<longleftrightarrow> reported lfd evs"
    using lfd by (intro epoll_poll_reported [OF poll D(10)]) (simp add: listens_def)
  moreover have "doPendingFunctors exec W1 = Inr (W1\<lparr>el_calling_pending := False, el_pending := []\<rparr>)"
    using hello_invD(3) [OF W1(2)] by (simp add: doPendingFunctors_def Let_def)
  ultimately show ?thesis
    using W1 hello_inv_pending [OF W1(2)] poll
    by (auto simp: loop_iteration_def epoll_poll_call_def listens_def conn_chan_def)
qed

text \<open>The number of iterations, among those from \<open>n\<close> to \<open>n + k\<close>, in which \<open>lfd\<close> was reported.\<close>

definition report_count :: "int \<Rightarrow> (nat \<Rightarrow> (int \<times> 32 word) list) \<Rightarrow> nat \<Rightarrow> nat \<Rightarrow> nat" where
  "report_count lfd evs n k = length (filter (\<lambda>i. reported lfd (evs i)) [n..<n + k])"

lemma report_count_Suc:
  "report_count lfd evs n (Suc k) = (if reported lfd (evs n) then 1 else 0) + report_count lfd evs (Suc n) k"
proof -
  have "[n..<n + Suc k] = n # [Suc n..<Suc n + k]" by (subst upt_conv_Cons) auto
  then show ?thesis by (simp add: report_count_def)
qed

lemma hello_runs:
  assumes sys: "hello_sys sys j env" and evs: "\<forall>n. reports_ok efd (evs n)" and fds: "\<forall>i. fst (accs i) \<noteq> lfd"
  shows "hello_inv (ce_tid env) (\<lambda>_. hello_text) W \<Longrightarrow> ch_fd (el_heap W 0) = efd \<Longrightarrow> el_running W \<Longrightarrow>
    sv_nextConnId W + int k < 2 ^ 31 - 1 \<Longrightarrow> listens lfd W \<Longrightarrow>
    \<exists>W'. iterate k n (\<lambda>i. epoll_poll_call (evs i)) (hello_handler env junk accs addr) exec W = Inr W' \<and>
      hello_inv (ce_tid env) (\<lambda>_. hello_text) W' \<and> cn_next W' = cn_next W + report_count lfd evs n k \<and>
      loop_run k n (\<lambda>i. epoll_poll_call (evs i)) (hello_handler env junk accs addr) exec W = None"
proof (induction k arbitrary: n W)
  case 0
  then show ?case by (simp add: report_count_def)
next
  case (Suc k)
  obtain W1 where W1: "loop_iteration (epoll_poll_call (evs n)) (hello_handler env junk accs addr) exec W = Inr W1"
    "hello_inv (ce_tid env) (\<lambda>_. hello_text) W1" "el_running W1" "ch_fd (el_heap W1 0) = efd"
    "sv_nextConnId W1 \<le> sv_nextConnId W + 1" "listens lfd W1"
    "cn_next W1 = cn_next W + (if reported lfd (evs n) then 1 else 0)"
    using hello_iteration [OF sys Suc.prems(1) _ _ fds Suc.prems(5), of "evs n" junk addr exec] Suc.prems(2-4) evs by auto
  have "sv_nextConnId W1 + int k < 2 ^ 31 - 1" using W1(5) Suc.prems(4) by simp
  from Suc.IH [OF W1(2,4,3) this W1(6), of "Suc n"] W1(1,7) Suc.prems(3) show ?case
    by (auto simp: report_count_Suc)
qed

text \<open>What \<open>main\<close> sets up.\<close>

lemma hello_main_inv:
  assumes upd: "vt_update (ce_loop env) = epoll_upd sys j"
    and calls: "epfd \<noteq> -1" "0 \<le> efd" "\<forall>c. 0 \<le> ssys c"
    and listen: "efd \<noteq> ssys SCreate" "0 \<le> sys (EpollCtl EPOLL_CTL_ADD (ssys SCreate) (epoll_mask j CHANNEL_CONN))"
    and port: "-(2 ^ 31) \<le> port" "port < 2 ^ 31"
  shows "\<exists>W. hello_main sys ssys junk env epfd efd port = Inr W \<and> hello_inv (ce_tid env) (\<lambda>_. hello_text) W \<and>
    ch_fd (el_heap W 0) = efd \<and> \<not> el_running W \<and> cn_next W = 0 \<and> sv_nextConnId W = 0 \<and>
    listens (ssys SCreate) W"
proof -
  let ?wake = "setReadHandler (OtherHandler 0) (setEvent CHANNEL_READ (Channel_ctor junk efd False))"
  let ?h = "(\<lambda>_. Channel_default_ctor junk)(0 := ?wake)"
  let ?p = "\<lparr>channels = Map.empty, wakeup_channel = 0, epollfd = epfd\<rparr>"
  obtain p0 h0 c0 where u0: "epoll_update sys junk ?p ?h 0 = (p0, h0, c0)"
    by (cases "epoll_update sys junk ?p ?h 0") auto
  have h0: "ch_fd (h0 0) = efd" "\<not> ch_isListen (h0 0)" "ch_readHandler (h0 0) = Some (OtherHandler 0)"
    and p0: "channels p0 fd = Some q \<Longrightarrow> fd = efd \<and> q = 0" for fd q
    using epoll_update_cases [OF u0]
    by (auto simp: on_chan_def channel_ops Channel_ctor_def split: if_splits)
  let ?fd = "ssys SCreate"
  let ?chan = "setConnHandler AcceptConn (setEvent CHANNEL_CONN (Channel_ctor junk ?fd True))"
  obtain p1 h1 where u1: "epoll_upd sys j p0 (h0(1 := ?chan)) 1 = (p1, h1)"
    by (cases "epoll_upd sys j p0 (h0(1 := ?chan)) 1")
  have h1: "h1 0 = h0 0" using ep.upd_other [OF u1, of 0] by simp
  have c1: "ch_fd (h1 1) = ?fd" "ch_isListen (h1 1)" "ch_connHandler (h1 1) = Some AcceptConn"
    and p1: "channels p1 fd = Some q \<Longrightarrow> fd = ?fd \<and> q = 1 \<or> fd = efd \<and> q = 0" for fd q
    using ep.upd_law [OF u1] p0 [of fd q] by (auto simp: on_chan_def channel_ops Channel_ctor_def split: if_splits)
  have "channels p0 ?fd = None" using p0 [of ?fd] listen(1) by (cases "channels p0 ?fd") auto
  then have reg: "channels p1 ?fd = Some 1"
    using u1 listen(2)
    by (auto simp: epoll_upd_def epoll_update_def Let_def channel_ops Channel_ctor_def has_def channel_masks split: if_splits)
  have good: "\<not> ssys c < 0" for c using calls(3) by (simp add: not_less)
  have run: "\<exists>W. hello_main sys ssys junk env epfd efd port = Inr W \<and>
      el_running W = False \<and> el_thread_id W = ce_tid env \<and> el_poller W = p1 \<and> el_heap W = h1 \<and> el_next_ptr W = 2 \<and>
      el_pending W = [] \<and> sv_port W = port \<and> sv_nextConnId W = 0 \<and> sv_conn_map W = [] \<and> cn_next W = 0 \<and>
      sv_connectionCallback W = Some 1 \<and> sv_messageCallback W = Some 2 \<and> sv_writeCompleteCallback W = Some 3 \<and>
      ac_new_conn_cb W"
    using calls(1,2) good u0 u1
    by (simp add: hello_main_def Epoller_ctor_def EventLoop_ctor_def TcpServer_ctor_def Acceptor_ctor_def no_server_def
        bindAddress_def updateChannel_def runInLoop_def isLoopThread_def sock_do_def do_update_def upd Let_def
        TcpServer_start_def Acceptor_listen_def do_listen_def Socket_listen_def server_setConnectionCallback_def
        server_setMessageCallback_def server_setWriteCompleteCallback_def)
  then obtain W where W: "hello_main sys ssys junk env epfd efd port = Inr W"
    "\<not> el_running W" "el_thread_id W = ce_tid env" "el_poller W = p1" "el_heap W = h1" "el_next_ptr W = 2"
    "el_pending W = []" "sv_port W = port" "sv_nextConnId W = 0" "sv_conn_map W = []" "cn_next W = 0"
    "sv_connectionCallback W = Some 1" "sv_messageCallback W = Some 2" "sv_writeCompleteCallback W = Some 3"
    "ac_new_conn_cb W" by auto
  have "server_ok W" using port by (simp add: server_ok_def W smap_ok_def)
  moreover have "reg_ok (channels (el_poller W)) (el_heap W)"
    using p1 h0(1) h1 c1(1) by (fastforce simp: W reg_ok_def)
  moreover have "live W q" if "channels (el_poller W) fd = Some q" for fd q
    using p1 [of fd q] that by (auto simp: W live_def)
  ultimately have "hello_inv (ce_tid env) (\<lambda>_. hello_text) W"
    using h0 h1 c1 by (simp add: hello_inv_def W isLoopThread_def base_channels_def)
  moreover have "listens ?fd W" by (simp add: listens_def W reg)
  ultimately show ?thesis using W h0(1) h1 by auto
qed

section \<open>Properties\<close>

lemma hello_map:
  assumes "hello_inv tid txt W"
  shows "map_of (sv_conn_map W) name = Some c \<longleftrightarrow> c < cn_next W \<and> cn_alive W c \<and> tc_name (w_conns W c) = name"
proof
  assume "map_of (sv_conn_map W) name = Some c"
  then have "(name, c) \<in> set (sv_conn_map W)" by (rule map_of_SomeD)
  then show "c < cn_next W \<and> cn_alive W c \<and> tc_name (w_conns W c) = name"
    using hello_invD(1) [OF assms] by (auto simp: server_ok_def)
next
  assume "c < cn_next W \<and> cn_alive W c \<and> tc_name (w_conns W c) = name"
  then show "map_of (sv_conn_map W) name = Some c"
    using hello_invD(13) [OF assms, of c] by (auto simp: hello_conn_def)
qed

text \<open>C9. The whole server program: \<open>main\<close> comes up, and then the loop runs, whatever the clients do.
  After any number of iterations nothing has failed: no assert, no empty or dangling handler; the loop is
  still running; there is one connection for each time the listening socket was reported, and each was
  given exactly the greeting; and the map of the server holds exactly the connections that are
  alive. Assumed is that the system calls of \<open>main\<close> succeed, with distinct descriptors, that \<open>accept\<close> does
  not return the listening socket, that \<open>epoll_wait\<close> reports a descriptor once, that no write reports
  a reset connection, and that there are fewer than $2^{31} - 1$ iterations, so that the ids of the
  connections do not overflow. Accepts, reads, writes and registrations may fail.\<close>

theorem hello_server:
  assumes "hello_sys sys j env" "epfd \<noteq> -1" "0 \<le> efd" "\<forall>c. 0 \<le> ssys c" "efd \<noteq> ssys SCreate"
    and "0 \<le> sys (EpollCtl EPOLL_CTL_ADD (ssys SCreate) (epoll_mask j CHANNEL_CONN))"
    and "-(2 ^ 31) \<le> port" "port < 2 ^ 31"
    and "\<forall>n. reports_ok efd (evs n)" "\<forall>i. fst (accs i) \<noteq> ssys SCreate" "k < 2 ^ 31 - 1"
  shows "\<exists>W W'. hello_main sys ssys junk env epfd efd port = Inr W \<and>
    loop k (ce_tid env) (\<lambda>n. epoll_poll_call (evs n)) (hello_handler env junk accs addr) (hello_exec ssys env) W = None \<and>
    iterate k 0 (\<lambda>n. epoll_poll_call (evs n)) (hello_handler env junk accs addr) (hello_exec ssys env)
      (W\<lparr>el_running := True\<rparr>) = Inr W' \<and>
    cn_next W' = report_count (ssys SCreate) evs 0 k \<and> (\<forall>c<cn_next W'. stream W' c = hello_text) \<and>
    (\<forall>name c. map_of (sv_conn_map W') name = Some c \<longleftrightarrow>
       c < cn_next W' \<and> cn_alive W' c \<and> tc_name (w_conns W' c) = name)"
proof -
  have upd: "vt_update (ce_loop env) = epoll_upd sys j" using assms(1) by (simp add: hello_sys_def)
  obtain W where W: "hello_main sys ssys junk env epfd efd port = Inr W" "hello_inv (ce_tid env) (\<lambda>_. hello_text) W"
    "ch_fd (el_heap W 0) = efd" "\<not> el_running W" "cn_next W = 0" "sv_nextConnId W = 0" "listens (ssys SCreate) W"
    using hello_main_inv [OF upd assms(2-8)] by blast
  let ?W = "W\<lparr>el_running := True\<rparr>"
  have "hello_inv (ce_tid env) (\<lambda>_. hello_text) ?W" "listens (ssys SCreate) ?W"
    using W(2,7) by (simp_all add: hello_inv_def server_ok_def isLoopThread_def live_def listens_def W(5))
  from hello_runs [OF assms(1,9,10) this(1) _ _ _ this(2), of k 0 junk addr "hello_exec ssys env"] W(3,5,6) assms(11)
  obtain W' where W': "iterate k 0 (\<lambda>n. epoll_poll_call (evs n)) (hello_handler env junk accs addr) (hello_exec ssys env) ?W = Inr W'"
    "hello_inv (ce_tid env) (\<lambda>_. hello_text) W'" "cn_next W' = report_count (ssys SCreate) evs 0 k"
    "loop_run k 0 (\<lambda>n. epoll_poll_call (evs n)) (hello_handler env junk accs addr) (hello_exec ssys env) ?W = None"
    by auto
  have "\<forall>c<cn_next W'. stream W' c = hello_text"
    using hello_invD(13) [OF W'(2)] by (simp add: hello_conn_def)
  moreover have "loop k (ce_tid env) (\<lambda>n. epoll_poll_call (evs n)) (hello_handler env junk accs addr) (hello_exec ssys env) W = None"
    using W'(4) W(4) hello_invD(2) [OF W(2)] by (simp add: loop_def)
  ultimately show ?thesis using W(1) W'(1,3) hello_map [OF W'(2)] by blast
qed

text \<open>Two clients connect, the second while the first is being written to; the first hangs up. \<open>write\<close>
  takes three bytes at a time.\<close>

definition hello_demo :: "(epoller, epoller server_world) conn_env" where
  "hello_demo = (demo_conn_env 0 3)\<lparr>ce_readv := (\<lambda>i n. Inr [])\<rparr>"

definition hello_reports :: "nat \<Rightarrow> (int \<times> 32 word) list" where
  "hello_reports n =
     (if n = 0 then [(4, EPOLLIN)] else if n = 1 then [(7, EPOLLOUT), (4, EPOLLIN)]
      else if n = 2 then [(7, EPOLLIN), (8, EPOLLOUT)] else [])"

definition hello_accepts :: "nat \<Rightarrow> int \<times> inet_address" where
  "hello_accepts i = (7 + int i, \<lparr>ia_addr = [10, 0, 0, i], ia_port = 0\<rparr>)"

theorem hello_server_witness:
  "\<exists>W W'. hello_main (\<lambda>_. 0) (\<lambda>_. 4) 0 hello_demo 3 5 80 = Inr W \<and>
    iterate 3 0 (\<lambda>n. epoll_poll_call (hello_reports n))
      (hello_handler hello_demo 0 hello_accepts \<lparr>ia_addr = [], ia_port = 0\<rparr>)
      (hello_exec (\<lambda>_. 4) hello_demo) (W\<lparr>el_running := True\<rparr>) = Inr W' \<and>
    cn_next W' = 2 \<and> stream W' 0 = hello_text \<and> stream W' 1 = hello_text"
proof -
  have sys: "hello_sys (\<lambda>_. 0) 0 hello_demo"
    using demo_writes [of 0 3] demo_loop_update [of 0 3]
    by (simp add: hello_sys_def hello_demo_def writes_ok_def no_reset_def readv_ok_def)
  have "report_count 4 hello_reports 0 3 = 2" by code_simp
  moreover have "\<forall>n. reports_ok 5 (hello_reports n)" "\<forall>i. fst (hello_accepts i) \<noteq> 4"
    by (simp_all add: reports_ok_def hello_reports_def hello_accepts_def)
  ultimately show ?thesis
    using hello_server [OF sys, of 3 5 "\<lambda>_. 4" 80 hello_reports hello_accepts 3 0 "\<lparr>ia_addr = [], ia_port = 0\<rparr>"]
    by auto
qed

end
