(* ===== verification/TimerProgram.thy ===== *)
theory TimerProgram
  imports EventLoop StdLib
begin

text \<open>
  The program src/test/test_loop.cpp: \<open>main\<close> makes a loop and a timer that calls \<open>work\<close> every
  second, another thread cancels the timer at some moment, and \<open>main\<close> runs the loop. The loop, its
  timers and a poller together, once on macOS and once on Linux.
\<close>

section \<open>The program\<close>

text \<open>The closures: \<open>work\<close>, and on Linux the reading of the wakeup descriptor. What \<open>cout\<close> gets is \<open>tp_out\<close>.\<close>

datatype closure = Work | WakeupRead

record 'p timer_prog = "(closure, 'p, closure) event_loop" +
  tp_out :: "char list list"

definition work_line :: "char list" where
  "work_line = ''do work'' @ [CHR 0x0A]"

definition work :: "'p timer_prog \<Rightarrow> 'p timer_prog res" where
  "work L = Inr (L\<lparr>tp_out := tp_out L @ [work_line]\<rparr>)"

definition trigger_line :: "int \<Rightarrow> char list" where
  "trigger_line i = ''cancel '' @ decimal i @ [CHR 0x0A]"

text \<open>The thread of \<open>trigger\<close>, once its sleep is over.\<close>

definition trigger ::
  "('p, closure, closure) loop_env \<Rightarrow> nat \<Rightarrow> int \<Rightarrow> 'p timer_prog \<Rightarrow> 'p timer_prog res" where
  "trigger env tid i L = cancel env tid i (L\<lparr>tp_out := tp_out L @ [trigger_line i]\<rparr>)"

definition timer_handler :: "closure \<Rightarrow> 'p timer_prog \<Rightarrow> 'p timer_prog res" where
  "timer_handler f L = (case f of Work \<Rightarrow> work L | WakeupRead \<Rightarrow> Inr L)"

definition timer_exec ::
  "('p, closure, closure) loop_env \<Rightarrow> closure loop_fn \<Rightarrow> 'p timer_prog \<Rightarrow> 'p timer_prog res" where
  "timer_exec env = exec_fn env timer_handler"

definition no_output :: "(closure, 'p, closure) event_loop \<Rightarrow> 'p timer_prog" where
  "no_output L =
     \<lparr>el_running = el_running L, el_calling_pending = el_calling_pending L, el_thread_id = el_thread_id L,
      el_poller = el_poller L, el_heap = el_heap L, el_next_ptr = el_next_ptr L, el_pending = el_pending L,
      el_timers = el_timers L, el_wakeups = el_wakeups L, tp_out = []\<rparr>"

text \<open>\<open>main\<close> up to the start of the other thread: the loop with its poller, the wakeup channel at
  address 0, and the timer, whose id is the result.\<close>

definition timer_main ::
  "('p, closure, closure) loop_env \<Rightarrow> nat \<Rightarrow> int \<Rightarrow> 'p \<Rightarrow> closure heap \<Rightarrow> (int \<times> 'p timer_prog) res" where
  "timer_main env tid fd p h =
     bindE (EventLoop_ctor False tid p h 1) (\<lambda>L. runEvery env tid fd 1000 Work (no_output L))"

definition kq_env :: "32 word \<Rightarrow> (kqueue, closure, closure) loop_env" where
  "kq_env junk = \<lparr>vt_update = kq_upd, vt_remove = kq_rem, tm_handler = (\<lambda>u. u), tm_junk = junk\<rparr>"

definition epoll_env :: "(sys_call \<Rightarrow> int) \<Rightarrow> 32 word \<Rightarrow> (epoller, closure, closure) loop_env" where
  "epoll_env sys junk =
     \<lparr>vt_update = epoll_upd sys junk, vt_remove = epoll_rem sys, tm_handler = (\<lambda>u. u), tm_junk = junk\<rparr>"

text \<open>On macOS the timer's id comes from the counter \<open>tfd\<close>, on Linux from \<open>timerfd_create\<close>.\<close>

definition kq_timer_main ::
  "32 word \<Rightarrow> nat \<Rightarrow> int \<Rightarrow> int \<Rightarrow> int \<Rightarrow> (int \<times> kqueue timer_prog) res" where
  "kq_timer_main junk tid kq counter tfd =
     (case Kqueue_ctor kq junk counter 0 (\<lambda>_. Channel_default_ctor junk) of (p, h, counter', changes) \<Rightarrow>
        timer_main (kq_env junk) tid (kq_getTimerFd tfd) p h)"

definition epoll_timer_main ::
  "(sys_call \<Rightarrow> int) \<Rightarrow> 32 word \<Rightarrow> nat \<Rightarrow> int \<Rightarrow> int \<Rightarrow> int \<Rightarrow> (int \<times> epoller timer_prog) res" where
  "epoll_timer_main sys junk tid epfd efd tfd =
     bindE (Epoller_ctor sys junk epfd efd 0 WakeupRead (\<lambda>_. Channel_default_ctor junk)) (\<lambda>(p, h, calls).
     bindE (epoll_getTimerFd tfd) (\<lambda>fd. timer_main (epoll_env sys junk) tid fd p h))"

section \<open>Rounds of the loop\<close>

text \<open>How often descriptor \<open>fd\<close> is reported, in one poll and in the first \<open>k\<close> polls.\<close>

definition reports :: "int \<Rightarrow> (int \<times> 'e) list \<Rightarrow> nat" where
  "reports fd evs = length (filter (\<lambda>(f, e). f = fd) evs)"

definition reports_in :: "int \<Rightarrow> (nat \<Rightarrow> (int \<times> 'e) list) \<Rightarrow> nat \<Rightarrow> nat" where
  "reports_in fd evs k = (\<Sum>n<k. reports fd (evs n))"

text \<open>The timer of the program is set: one channel, at address 1.\<close>

definition timer_set :: "int \<Rightarrow> (int \<rightharpoonup> chan_ptr) \<Rightarrow> ('p \<Rightarrow> int \<rightharpoonup> chan_ptr) \<Rightarrow> 'p timer_prog \<Rightarrow> bool" where
  "timer_set fd others chans L \<longleftrightarrow>
     chans (el_poller L) = others(fd \<mapsto> 1) \<and> el_timers L = [fd \<mapsto> 1] \<and>
     ch_fd (el_heap L 1) = fd \<and> ch_events (el_heap L 1) = CHANNEL_TIMER \<and> \<not> ch_isListen (el_heap L 1) \<and>
     ch_timerHandler (el_heap L 1) = Some Work"

definition timer_gone :: "(int \<rightharpoonup> chan_ptr) \<Rightarrow> ('p \<Rightarrow> int \<rightharpoonup> chan_ptr) \<Rightarrow> 'p timer_prog \<Rightarrow> bool" where
  "timer_gone others chans L \<longleftrightarrow> chans (el_poller L) = others \<and> el_timers L = Map.empty"

lemma no_functors [simp]:
  "el_pending L = [] \<Longrightarrow> doPendingFunctors exec L = Inr (L\<lparr>el_calling_pending := False\<rparr>)"
  by (simp add: doPendingFunctors_def Let_def)

lemma handle_active_works:
  "0 < n \<longrightarrow> handleEvent (el_heap L c) = Inr (Some Work) \<Longrightarrow>
   handle_active timer_handler (replicate n c) L = Inr (L\<lparr>tp_out := tp_out L @ replicate n work_line\<rparr>)"
proof (induction n arbitrary: L)
  case (Suc n)
  then show ?case
    using Suc.IH [of "L\<lparr>tp_out := tp_out L @ [work_line]\<rparr>"]
    by (simp add: timer_handler_def work_def)
qed simp

lemma handle_active_quiet:
  "\<forall>c\<in>set cs. handleEvent (el_heap L c) = Inr None \<or> handleEvent (el_heap L c) = Inr (Some WakeupRead) \<Longrightarrow>
   handle_active timer_handler cs L = Inr L"
  by (induction cs) (auto simp: timer_handler_def)

subsection \<open>macOS\<close>

text \<open>The kernel reports a timer with the timer filter.\<close>

definition timer_reports :: "int \<Rightarrow> (int \<times> int) list \<Rightarrow> bool" where
  "timer_reports fd evs \<longleftrightarrow> (\<forall>(f, filt)\<in>set evs. f = fd \<longrightarrow> filt = EVFILT_TIMER)"

lemma kq_poll_timer:
  assumes "channels p = [fd \<mapsto> c]" "timer_reports fd evs"
  shows "kq_poll evs p h =
    (if reports fd evs = 0 then h else on_chan c (setActiveEvent CHANNEL_TIMER) h, replicate (reports fd evs) c)"
  using assms(2)
proof (induction evs arbitrary: h)
  case (Cons ev evs)
  obtain f filt where ev: "ev = (f, filt)" by (cases ev)
  have act: "kq_active EVFILT_TIMER = CHANNEL_TIMER"
    by (simp add: kq_active_def EVFILT_TIMER_def EVFILT_READ_def EVFILT_WRITE_def)
  show ?case
    using Cons by (auto simp: ev assms(1) reports_def timer_reports_def act setActiveEvent_def on_chan_def Let_def)
qed (simp add: reports_def)

lemma kq_round:
  assumes set: "timer_set fd Map.empty channels L" and ev: "timer_reports fd evs"
    and p: "el_pending L = [] \<or> el_pending L = [CancelFn fd]"
  shows "\<exists>L'. loop_iteration (kq_poll evs) timer_handler (timer_exec (kq_env junk)) L = Inr L' \<and>
    tp_out L' = tp_out L @ replicate (reports fd evs) work_line \<and> el_pending L' = [] \<and>
    el_running L' = el_running L \<and> el_thread_id L' = el_thread_id L \<and>
    (if el_pending L = [] then timer_set fd Map.empty channels L' else timer_gone Map.empty channels L')"
proof -
  let ?n = "reports fd evs"
  let ?h = "if ?n = 0 then el_heap L else on_chan 1 (setActiveEvent CHANNEL_TIMER) (el_heap L)"
  let ?L1 = "L\<lparr>el_heap := ?h, tp_out := tp_out L @ replicate ?n work_line\<rparr>"
  have poll: "kq_poll evs (el_poller L) (el_heap L) = (?h, replicate ?n 1)"
    using set ev by (intro kq_poll_timer) (simp_all add: timer_set_def)
  have "0 < ?n \<longrightarrow> handleEvent (?h 1) = Inr (Some Work)"
    using set by (simp add: timer_set_def handleEvent_def setActiveEvent_def call_handler_def has_def channel_masks)
  then have "handle_active timer_handler (replicate ?n 1) (L\<lparr>el_heap := ?h\<rparr>) = Inr ?L1"
    using handle_active_works [of ?n "L\<lparr>el_heap := ?h\<rparr>" 1] by simp
  then have it: "loop_iteration (kq_poll evs) timer_handler (timer_exec (kq_env junk)) L =
      doPendingFunctors (timer_exec (kq_env junk)) ?L1"
    by (simp add: loop_iteration_def poll)
  have keeps: "timer_set fd Map.empty channels (?L1\<lparr>el_calling_pending := False\<rparr>)"
    using set by (auto simp: timer_set_def setActiveEvent_def)
  show ?thesis
  proof (cases "el_pending L = []")
    case True
    with keeps show ?thesis unfolding it by simp
  next
    case False
    then have "el_pending L = [CancelFn fd]" using p by simp
    then show ?thesis using set unfolding it
      by (auto simp: doPendingFunctors_def timer_exec_def exec_fn_def do_cancel_def do_remove_def timer_set_def timer_gone_def
          kq_env_def kq_rem_def kq_remove_def Let_def setActiveEvent_def)
  qed
qed

text \<open>An invariant of the iterations under which the loop goes on.\<close>

lemma iterate_goes_on:
  assumes "\<And>n L. I n L \<Longrightarrow> el_running L \<and> (\<exists>L'. loop_iteration (poll n) handler exec L = Inr L' \<and> I (Suc n) L')"
  shows "I n L \<Longrightarrow> \<exists>L'. iterate k n poll handler exec L = Inr L' \<and> I (n + k) L' \<and> loop_run k n poll handler exec L = None"
proof (induction k arbitrary: n L)
  case 0
  with assms show ?case by auto
next
  case (Suc k)
  obtain L1 where L1: "loop_iteration (poll n) handler exec L = Inr L1" "I (Suc n) L1" and r: "el_running L"
    using assms [OF Suc.prems] by blast
  from Suc.IH [OF L1(2)] L1(1) r show ?case by auto
qed

lemma kq_idle_round:
  assumes "timer_gone Map.empty channels L" "el_pending L = []"
  shows "loop_iteration (kq_poll evs) timer_handler exec L = Inr (L\<lparr>el_calling_pending := False\<rparr>)"
proof -
  have "kq_poll evs p h = (h, [])" if "channels p = Map.empty" for p :: kqueue and h :: "closure heap"
    using that by (induction evs) auto
  with assms show ?thesis by (simp add: loop_iteration_def timer_gone_def)
qed

lemma kq_timer_main_run:
  "\<exists>L. kq_timer_main junk tid kq counter tfd = Inr (kq_getTimerFd tfd, L) \<and>
     timer_set (kq_getTimerFd tfd) Map.empty channels L \<and> el_pending L = [] \<and> \<not> el_running L \<and> el_thread_id L = tid \<and> tp_out L = []"
  by (simp add: kq_timer_main_def Kqueue_ctor_def timer_main_def EventLoop_ctor_def no_output_def runEvery_def runInLoop_def
      isLoopThread_def do_add_timer_def do_update_def kq_env_def kq_upd_def kq_update_def Let_def timer_set_def
      channel_ops Channel_default_ctor_def Channel_ctor_def)

text \<open>C39. The timer program on macOS. Its loop never returns; \<open>work\<close> runs exactly as often as the
  kernel reports the timer. When the other thread cancels the timer, the round of the loop that is next may
  still run it, since a poll comes before the queued functors; from then on neither the timer nor a registration is
  left and \<open>work\<close> runs no more, however long the loop goes on.\<close>

theorem timer_program:
  assumes "\<forall>n. timer_reports fd (evs n)" "other \<noteq> tid" "fd = kq_getTimerFd tfd"
  shows "\<exists>L0 L1 L2 L3. kq_timer_main junk tid kq counter tfd = Inr (fd, L0) \<and>
    loop k tid (\<lambda>n. kq_poll (evs n)) timer_handler (timer_exec (kq_env junk)) L0 = None \<and>
    iterate k 0 (\<lambda>n. kq_poll (evs n)) timer_handler (timer_exec (kq_env junk)) (L0\<lparr>el_running := True\<rparr>) = Inr L1 \<and>
    tp_out L1 = replicate (reports_in fd evs k) work_line \<and>
    trigger (kq_env junk) other fd L1 = Inr L2 \<and>
    iterate (Suc m) k (\<lambda>n. kq_poll (evs n)) timer_handler (timer_exec (kq_env junk)) L2 = Inr L3 \<and>
    tp_out L3 = replicate (reports_in fd evs k) work_line @ [trigger_line fd] @ replicate (reports fd (evs k)) work_line \<and>
    channels (el_poller L3) = Map.empty \<and> el_timers L3 = Map.empty \<and> el_running L3"
proof -
  let ?poll = "\<lambda>n. kq_poll (evs n)" let ?step = "timer_exec (kq_env junk)"
  obtain L0 where L0: "kq_timer_main junk tid kq counter tfd = Inr (fd, L0)" "timer_set fd Map.empty channels L0"
    "el_pending L0 = []" "\<not> el_running L0" "el_thread_id L0 = tid" "tp_out L0 = []"
    using kq_timer_main_run [of junk tid kq counter tfd] assms(3) by auto
  define I where "I n L \<longleftrightarrow> timer_set fd Map.empty channels L \<and> el_pending L = [] \<and> el_running L \<and>
      el_thread_id L = tid \<and> tp_out L = replicate (reports_in fd evs n) work_line" for n and L :: "kqueue timer_prog"
  have round: "el_running L \<and> (\<exists>L'. loop_iteration (?poll n) timer_handler ?step L = Inr L' \<and> I (Suc n) L')" if "I n L" for n L
    using kq_round [of fd L "evs n" junk] that assms(1)
    by (auto simp: I_def reports_in_def replicate_add)
  have "I 0 (L0\<lparr>el_running := True\<rparr>)" using L0 by (simp add: I_def timer_set_def reports_in_def)
  from iterate_goes_on [of I ?poll timer_handler ?step, OF round this, of k]
  obtain L1 where L1: "iterate k 0 ?poll timer_handler ?step (L0\<lparr>el_running := True\<rparr>) = Inr L1" "I k L1"
    "loop_run k 0 ?poll timer_handler ?step (L0\<lparr>el_running := True\<rparr>) = None" by auto
  then have lp: "loop k tid ?poll timer_handler ?step L0 = None"
    using L0(4,5) by (simp add: loop_def isLoopThread_def)
  obtain L2 where L2: "trigger (kq_env junk) other fd L1 = Inr L2" "timer_set fd Map.empty channels L2"
    "el_pending L2 = [CancelFn fd]" "el_running L2" "tp_out L2 = replicate (reports_in fd evs k) work_line @ [trigger_line fd]"
    using L1(2) assms(2) by (auto simp: trigger_def cancel_def runInLoop_def queueInLoop_def loop_wakeup_def isLoopThread_def
        Let_def I_def timer_set_def)
  obtain L where L: "loop_iteration (?poll k) timer_handler ?step L2 = Inr L" "timer_gone Map.empty channels L" "el_pending L = []"
    "el_running L" "tp_out L = tp_out L2 @ replicate (reports fd (evs k)) work_line"
    using kq_round [of fd L2 "evs k" junk] L2 assms(1) by auto
  define J where "J n M \<longleftrightarrow> timer_gone Map.empty channels M \<and> el_pending M = [] \<and> el_running M \<and> tp_out M = tp_out L"
    for n :: nat and M :: "kqueue timer_prog"
  have idle: "el_running M \<and> (\<exists>M'. loop_iteration (?poll n) timer_handler ?step M = Inr M' \<and> J (Suc n) M')" if "J n M" for n M
    using kq_idle_round [of M "evs n" ?step] that by (simp add: J_def timer_gone_def)
  have "J (Suc k) L" using L by (simp add: J_def)
  from iterate_goes_on [of J ?poll timer_handler ?step, OF idle this, of m]
  obtain L3 where L3: "iterate m (Suc k) ?poll timer_handler ?step L = Inr L3" "J (Suc k + m) L3" by blast
  have "iterate (Suc m) k ?poll timer_handler ?step L2 = Inr L3" using L(1) L3(1) by simp
  moreover have "tp_out L3 = replicate (reports_in fd evs k) work_line @ [trigger_line fd] @ replicate (reports fd (evs k)) work_line"
    "channels (el_poller L3) = Map.empty" "el_timers L3 = Map.empty" "el_running L3"
    using L3(2) L(5) L2(5) by (simp_all add: J_def timer_gone_def)
  moreover have "tp_out L1 = replicate (reports_in fd evs k) work_line" using L1(2) by (simp add: I_def)
  ultimately show ?thesis using L0(1) lp L1(1) L2(1) by blast
qed

theorem timer_program_witness:
  "\<exists>L0 L1 L2 L3. kq_timer_main 0 0 3 50000 40000 = Inr (40001, L0) \<and>
    iterate 2 0 (\<lambda>n. kq_poll [(40001, EVFILT_TIMER)]) timer_handler (timer_exec (kq_env 0)) (L0\<lparr>el_running := True\<rparr>) = Inr L1 \<and>
    trigger (kq_env 0) 1 40001 L1 = Inr L2 \<and>
    iterate 5 2 (\<lambda>n. kq_poll [(40001, EVFILT_TIMER)]) timer_handler (timer_exec (kq_env 0)) L2 = Inr L3 \<and>
    tp_out L3 = [work_line, work_line, trigger_line 40001, work_line]"
proof -
  have e: "\<forall>n. timer_reports 40001 ((\<lambda>_. [(40001, EVFILT_TIMER)]) (n :: nat))" by (simp add: timer_reports_def)
  have fd: "40001 = kq_getTimerFd 40000" by (simp add: kq_getTimerFd_def WAKEUP_FD_def)
  have r: "reports_in 40001 (\<lambda>_. [(40001, EVFILT_TIMER)]) 2 = 2" "reports 40001 [(40001, EVFILT_TIMER)] = 1"
    by (simp_all add: reports_in_def reports_def)
  have t: "(1 :: nat) \<noteq> 0" by simp
  have "replicate 2 work_line @ [trigger_line 40001] @ replicate 1 work_line = [work_line, work_line, trigger_line 40001, work_line]"
    by (simp add: numeral_2_eq_2)
  then show ?thesis using timer_program [OF e t fd, of 0 3 50000 2 4] unfolding r by auto
qed

subsection \<open>Linux\<close>

text \<open>The wakeup channel at address 0 is registered for reading, so that a report is not of \<open>EPOLLOUT\<close> alone.\<close>

definition wakeup_set :: "int \<Rightarrow> closure heap \<Rightarrow> bool" where
  "wakeup_set efd h \<longleftrightarrow> ch_fd (h 0) = efd \<and> ch_events (h 0) = CHANNEL_READ \<and> \<not> ch_isListen (h 0) \<and>
     ch_readHandler (h 0) = Some WakeupRead"

definition wakeup_reports :: "int \<Rightarrow> (int \<times> 32 word) list \<Rightarrow> bool" where
  "wakeup_reports efd evs \<longleftrightarrow> (\<forall>(f, r)\<in>set evs. f = efd \<longrightarrow> r \<noteq> EPOLLOUT)"

lemma epoll_poll_sets: "epoll_poll evs p h = (h', cs, calls) \<Longrightarrow> \<exists>a. h' d = setActiveEvent a (h d)"
  unfolding setActiveEvent_def by (rule epoll_poll_active_only)

text \<open>What \<open>poll\<close> returns calls no timer handler.\<close>

lemma epoll_quiet:
  assumes poll: "epoll_poll evs p h = (h', cs, calls)" and reg: "reg_ok (channels p) h"
    and w: "wakeup_set efd h" "wakeup_reports efd evs"
    and t: "\<And>f c. channels p f = Some c \<Longrightarrow> c = 0 \<or> (has (ch_events (h c)) CHANNEL_TIMER \<and> \<not> ch_isListen (h c))"
    and c: "c \<in> set cs"
  shows "handleEvent (h' c) = Inr None \<or> handleEvent (h' c) = Inr (Some WakeupRead)"
proof -
  obtain a where a: "h' c = setActiveEvent a (h c)" using epoll_poll_sets [OF poll] by blast
  obtain r where r: "(ch_fd (h c), r) \<in> set evs" "ch_active (h' c) = epoll_active r (h c)"
    using epoll_poll_translates [OF poll reg] c by blast
  obtain f where "channels p f = Some c" using c epoll_poll_returned [OF poll] by auto
  from t [OF this] show ?thesis
  proof
    assume c0: "c = 0"
    then have "r \<noteq> EPOLLOUT" using w r(1) by (auto simp: wakeup_set_def wakeup_reports_def)
    moreover have "\<not> has CHANNEL_READ CHANNEL_TIMER" "has CHANNEL_READ CHANNEL_READ" "\<not> has 0 m" for m
      by (simp_all add: has_def channel_masks)
    ultimately show ?thesis
      using w(1) r(2) a c0 by (simp add: handleEvent_def call_handler_def epoll_active_def wakeup_set_def setActiveEvent_def Let_def)
  next
    assume t: "has (ch_events (h c)) CHANNEL_TIMER \<and> \<not> ch_isListen (h c)"
    then have "ch_active (h' c) = 0" using epoll_poll_timer_inactive [OF poll] c by blast
    moreover have "\<not> ch_isListen (h' c)" using t a by (simp add: setActiveEvent_def)
    ultimately show ?thesis by (simp add: handleEvent_inactive)
  qed
qed

lemma epoll_round:
  assumes sys: "\<forall>call. 0 \<le> sys call" and w: "wakeup_set efd (el_heap L)" "wakeup_reports efd evs" and fd: "fd \<noteq> efd"
    and st: "timer_set fd [efd \<mapsto> 0] channels L \<and> (el_pending L = [] \<or> el_pending L = [CancelFn fd]) \<or>
      timer_gone [efd \<mapsto> 0] channels L \<and> el_pending L = []"
  shows "\<exists>L'. loop_iteration (epoll_poll_call evs) timer_handler (timer_exec (epoll_env sys junk)) L = Inr L' \<and>
    tp_out L' = tp_out L \<and> el_pending L' = [] \<and> el_running L' = el_running L \<and> el_thread_id L' = el_thread_id L \<and>
    wakeup_set efd (el_heap L') \<and>
    (if timer_set fd [efd \<mapsto> 0] channels L \<and> el_pending L = [] then timer_set fd [efd \<mapsto> 0] channels L'
     else timer_gone [efd \<mapsto> 0] channels L')"
proof -
  obtain h cs calls where poll: "epoll_poll evs (el_poller L) (el_heap L) = (h, cs, calls)" by (metis prod_cases3)
  have same: "\<exists>a. h d = setActiveEvent a (el_heap L d)" for d using epoll_poll_sets [OF poll] .
  have reg: "reg_ok (channels (el_poller L)) (el_heap L)"
    using st w(1) by (auto simp: reg_ok_def timer_set_def timer_gone_def wakeup_set_def split: if_splits)
  have t: "c = 0 \<or> (has (ch_events (el_heap L c)) CHANNEL_TIMER \<and> \<not> ch_isListen (el_heap L c))"
    if "channels (el_poller L) f = Some c" for f c
    using st that by (auto simp: timer_set_def timer_gone_def has_def channel_masks split: if_splits)
  let ?L1 = "L\<lparr>el_heap := h\<rparr>"
  have "handle_active timer_handler cs ?L1 = Inr ?L1"
    using epoll_quiet [OF poll reg w t] by (intro handle_active_quiet) simp
  then have it: "loop_iteration (epoll_poll_call evs) timer_handler (timer_exec (epoll_env sys junk)) L =
      doPendingFunctors (timer_exec (epoll_env sys junk)) ?L1"
    by (simp add: loop_iteration_def epoll_poll_call_def poll)
  have wake: "wakeup_set efd h" using w(1) same [of 0] by (auto simp: wakeup_set_def setActiveEvent_def)
  have h1: "ch_fd (h 1) = ch_fd (el_heap L 1)" "ch_events (h 1) = ch_events (el_heap L 1)"
    "ch_isListen (h 1) = ch_isListen (el_heap L 1)" "ch_timerHandler (h 1) = ch_timerHandler (el_heap L 1)"
    using same [of 1] by (auto simp: setActiveEvent_def)
  show ?thesis
  proof (cases "el_pending L = []")
    case True
    with st wake h1 show ?thesis unfolding it by (auto simp: timer_set_def timer_gone_def)
  next
    case False
    then have p: "el_pending L = [CancelFn fd]" "timer_set fd [efd \<mapsto> 0] channels L" using st by auto
    have "\<not> sys call < 0" for call using spec [OF sys, of call] by simp
    with p wake h1 fd show ?thesis unfolding it
      by (auto simp: doPendingFunctors_def timer_exec_def exec_fn_def do_cancel_def do_remove_def timer_set_def timer_gone_def
          epoll_env_def epoll_rem_def epoll_remove_def Let_def)
  qed
qed

lemma epoll_timer_main_run:
  assumes sys: "\<forall>call. 0 \<le> sys call" and fds: "epfd \<noteq> -1" "0 \<le> efd" "0 \<le> fd" "fd \<noteq> efd"
  shows "\<exists>L. epoll_timer_main sys junk tid epfd efd fd = Inr (fd, L) \<and>
     timer_set fd [efd \<mapsto> 0] channels L \<and> wakeup_set efd (el_heap L) \<and> el_pending L = [] \<and> \<not> el_running L \<and>
     el_thread_id L = tid \<and> tp_out L = []"
proof -
  have s: "\<not> sys call < 0" "sys call \<noteq> -1" for call using spec [OF sys, of call] by auto
  show ?thesis using fds
    by (simp add: epoll_timer_main_def Epoller_ctor_def epoll_getTimerFd_def timer_main_def EventLoop_ctor_def no_output_def
        runEvery_def runInLoop_def isLoopThread_def do_add_timer_def do_update_def epoll_env_def epoll_upd_def epoll_update_def
        Let_def timer_set_def wakeup_set_def channel_ops Channel_default_ctor_def Channel_ctor_def on_chan_def s)
qed

text \<open>C23. The timer program on Linux. Whatever the kernel reports, \<open>work\<close> never runs: neither before the other
  thread cancels the timer nor after it, however long the loop goes on. (The active events of a timer are masked with
  \<open>!CHANNEL_READ\<close>, which is 0.)\<close>

theorem timer_program_linux:
  assumes "\<forall>call. 0 \<le> sys call" "epfd \<noteq> -1" "0 \<le> efd" "0 \<le> fd" "fd \<noteq> efd"
    and "\<forall>n. wakeup_reports efd (evs n)" "other \<noteq> tid"
  shows "\<exists>L0 L1 L2 L3. epoll_timer_main sys junk tid epfd efd fd = Inr (fd, L0) \<and>
    loop k tid (\<lambda>n. epoll_poll_call (evs n)) timer_handler (timer_exec (epoll_env sys junk)) L0 = None \<and>
    iterate k 0 (\<lambda>n. epoll_poll_call (evs n)) timer_handler (timer_exec (epoll_env sys junk)) (L0\<lparr>el_running := True\<rparr>) = Inr L1 \<and>
    tp_out L1 = [] \<and> trigger (epoll_env sys junk) other fd L1 = Inr L2 \<and>
    iterate (Suc m) k (\<lambda>n. epoll_poll_call (evs n)) timer_handler (timer_exec (epoll_env sys junk)) L2 = Inr L3 \<and>
    tp_out L3 = [trigger_line fd] \<and> channels (el_poller L3) = [efd \<mapsto> 0] \<and> el_timers L3 = Map.empty \<and> el_running L3"
proof -
  let ?poll = "\<lambda>n. epoll_poll_call (evs n)" let ?step = "timer_exec (epoll_env sys junk)"
  obtain L0 where L0: "epoll_timer_main sys junk tid epfd efd fd = Inr (fd, L0)" "timer_set fd [efd \<mapsto> 0] channels L0"
    "wakeup_set efd (el_heap L0)" "el_pending L0 = []" "\<not> el_running L0" "el_thread_id L0 = tid" "tp_out L0 = []"
    using epoll_timer_main_run [OF assms(1-5), of junk tid] by blast
  define I where "I n L \<longleftrightarrow> timer_set fd [efd \<mapsto> 0] channels L \<and> wakeup_set efd (el_heap L) \<and> el_pending L = [] \<and> el_running L \<and>
      el_thread_id L = tid \<and> tp_out L = []" for n :: nat and L :: "epoller timer_prog"
  have round: "el_running L \<and> (\<exists>L'. loop_iteration (?poll n) timer_handler ?step L = Inr L' \<and> I (Suc n) L')" if "I n L" for n L
    using epoll_round [OF assms(1), of efd L "evs n" fd junk] that assms(5,6) by (auto simp: I_def)
  have "I 0 (L0\<lparr>el_running := True\<rparr>)" using L0 by (simp add: I_def timer_set_def)
  from iterate_goes_on [of I ?poll timer_handler ?step, OF round this, of k]
  obtain L1 where L1: "iterate k 0 ?poll timer_handler ?step (L0\<lparr>el_running := True\<rparr>) = Inr L1" "I k L1"
    "loop_run k 0 ?poll timer_handler ?step (L0\<lparr>el_running := True\<rparr>) = None" by auto
  then have lp: "loop k tid ?poll timer_handler ?step L0 = None"
    using L0(5,6) by (simp add: loop_def isLoopThread_def)
  obtain L2 where L2: "trigger (epoll_env sys junk) other fd L1 = Inr L2" "timer_set fd [efd \<mapsto> 0] channels L2"
    "wakeup_set efd (el_heap L2)" "el_pending L2 = [CancelFn fd]" "el_running L2" "tp_out L2 = [trigger_line fd]"
    using L1(2) assms(7) by (auto simp: trigger_def cancel_def runInLoop_def queueInLoop_def loop_wakeup_def isLoopThread_def
        Let_def I_def timer_set_def)
  define J where "J n M \<longleftrightarrow> timer_gone [efd \<mapsto> 0] channels M \<and> wakeup_set efd (el_heap M) \<and> el_pending M = [] \<and> el_running M \<and>
      tp_out M = [trigger_line fd]" for n :: nat and M :: "epoller timer_prog"
  obtain L where L: "loop_iteration (?poll k) timer_handler ?step L2 = Inr L" "J (Suc k) L"
    using epoll_round [OF assms(1) L2(3), of "evs k" fd junk] L2 assms(5,6) by (auto simp: J_def)
  have idle: "el_running M \<and> (\<exists>M'. loop_iteration (?poll n) timer_handler ?step M = Inr M' \<and> J (Suc n) M')" if "J n M" for n M
  proof -
    have "\<not> timer_set fd [efd \<mapsto> 0] channels M" using that by (metis J_def timer_gone_def timer_set_def fun_upd_same option.distinct(1))
    with epoll_round [OF assms(1), of efd M "evs n" fd junk] that assms(5,6) show ?thesis by (auto simp: J_def)
  qed
  from iterate_goes_on [of J ?poll timer_handler ?step, OF idle L(2), of m]
  obtain L3 where L3: "iterate m (Suc k) ?poll timer_handler ?step L = Inr L3" "J (Suc k + m) L3" by blast
  have "iterate (Suc m) k ?poll timer_handler ?step L2 = Inr L3" using L(1) L3(1) by simp
  moreover have "tp_out L3 = [trigger_line fd]" "channels (el_poller L3) = [efd \<mapsto> 0]" "el_timers L3 = Map.empty" "el_running L3"
    using L3(2) by (simp_all add: J_def timer_gone_def)
  moreover have "tp_out L1 = []" using L1(2) by (simp add: I_def)
  ultimately show ?thesis using L0(1) lp L1(1) L2(1) by blast
qed

theorem timer_program_linux_witness:
  "\<exists>L0 L1 L2 L3. epoll_timer_main (\<lambda>_. 0) 0 0 3 4 5 = Inr (5, L0) \<and>
    iterate 2 0 (\<lambda>n. epoll_poll_call [(5, EPOLLIN)]) timer_handler (timer_exec (epoll_env (\<lambda>_. 0) 0)) (L0\<lparr>el_running := True\<rparr>) = Inr L1 \<and>
    trigger (epoll_env (\<lambda>_. 0) 0) 1 5 L1 = Inr L2 \<and>
    iterate 5 2 (\<lambda>n. epoll_poll_call [(5, EPOLLIN)]) timer_handler (timer_exec (epoll_env (\<lambda>_. 0) 0)) L2 = Inr L3 \<and>
    tp_out L3 = [trigger_line 5]"
proof -
  have "\<forall>n. wakeup_reports 4 ((\<lambda>_. [(5, EPOLLIN)]) (n :: nat))" by (simp add: wakeup_reports_def)
  from timer_program_linux [of "\<lambda>_. 0", OF _ _ _ _ _ this, of 3 5 1 0 0 2 4] show ?thesis by auto
qed

end
