(* ===== verification/GreetProgram.thy ===== *)
theory GreetProgram
  imports HelloServer TimerProgram
begin

text \<open>
  The program src/test/test_acceptor.cpp: an \<open>Acceptor\<close> on its own, whose callback writes \<open>hello\<close> to each new
  descriptor and closes it. The members of the acceptor are those of TcpServer.
\<close>

section \<open>The program\<close>

record 'p greet_world = "'p server_world" +
  gr_out :: "(int \<times> char list) list"

definition greeting :: "char list" where
  "greeting = ''hello''"

definition newConn :: "int \<Rightarrow> 'p greet_world \<Rightarrow> 'p greet_world" where
  "newConn fd W = sock_do [SClose fd] (W\<lparr>gr_out := gr_out W @ [(fd, greeting)]\<rparr>)"

text \<open>\<open>Acceptor::handleConn\<close> with that callback.\<close>

definition greet_conn :: "int \<times> inet_address \<Rightarrow> inet_address \<Rightarrow> 'p greet_world \<Rightarrow> 'p greet_world" where
  "greet_conn res addr W = (let (fd, peer) = Socket_accept res addr in if ac_new_conn_cb W then newConn fd W else W)"

text \<open>What the loop calls. The \<open>i\<close>-th accept yields \<open>accs i\<close>; each accept brings one greeting, as the
  callback is set before the loop starts.\<close>

definition greet_handler :: "(nat \<Rightarrow> int \<times> inet_address) \<Rightarrow> inet_address \<Rightarrow> handler \<Rightarrow> 'p greet_world \<Rightarrow> 'p greet_world res" where
  "greet_handler accs addr h W =
     (case h of AcceptConn \<Rightarrow> Inr (greet_conn (accs (length (gr_out W))) addr W) | _ \<Rightarrow> Inr W)"

definition greet_world_of :: "(conn_fn, 'p, handler) event_loop \<Rightarrow> 'p greet_world" where
  "greet_world_of L = server_world.extend (no_server L) \<lparr>gr_out = []\<rparr>"

definition greet_main ::
  "(sys_call \<Rightarrow> int) \<Rightarrow> (sock_call \<Rightarrow> int) \<Rightarrow> 32 word \<Rightarrow> (epoller, epoller greet_world) conn_env \<Rightarrow>
   int \<Rightarrow> int \<Rightarrow> epoller greet_world res" where
  "greet_main sys ssys junk env epfd efd =
     bindE (Epoller_ctor sys junk epfd efd 0 (OtherHandler 0) (\<lambda>_. Channel_default_ctor junk)) (\<lambda>(p, h, calls).
     bindE (EventLoop_ctor False (ce_tid env) p h 1) (\<lambda>L.
     bindE (Acceptor_ctor ssys junk env 5000 (greet_world_of L)) (\<lambda>W.
     bindE (Acceptor_listen ssys env W) (\<lambda>W1.
       Inr (W1\<lparr>ac_new_conn_cb := True\<rparr>)))))"

section \<open>Rounds\<close>

definition greet_ok :: "int \<Rightarrow> int \<Rightarrow> epoller greet_world \<Rightarrow> bool" where
  "greet_ok efd lfd W \<longleftrightarrow>
     channels (el_poller W) = [efd \<mapsto> 0, lfd \<mapsto> 1] \<and> el_pending W = [] \<and> ac_new_conn_cb W \<and>
     ch_fd (el_heap W 0) = efd \<and> \<not> ch_isListen (el_heap W 0) \<and> ch_events (el_heap W 0) = CHANNEL_READ \<and>
     ch_readHandler (el_heap W 0) = Some (OtherHandler 0) \<and>
     ch_fd (el_heap W 1) = lfd \<and> ch_isListen (el_heap W 1) \<and> ch_connHandler (el_heap W 1) = Some AcceptConn"

text \<open>The state after \<open>m\<close> more clients.\<close>

definition greeted :: "(nat \<Rightarrow> int \<times> inet_address) \<Rightarrow> nat \<Rightarrow> epoller greet_world \<Rightarrow> epoller greet_world" where
  "greeted accs m W =
     (let fds = map (\<lambda>i. fst (accs i)) [length (gr_out W)..<length (gr_out W) + m] in
      W\<lparr>gr_out := gr_out W @ map (\<lambda>fd. (fd, greeting)) fds, sk_calls := sk_calls W @ map SClose fds\<rparr>)"

lemma greeted_0 [simp]: "greeted accs 0 W = W"
  by (simp add: greeted_def)

lemma greeted_Suc: "ac_new_conn_cb W \<Longrightarrow>
    greeted accs m (greet_conn (accs (length (gr_out W))) addr W) = greeted accs (Suc m) W"
  by (simp add: greeted_def greet_conn_def newConn_def sock_do_def Socket_accept_def Let_def upt_conv_Cons split: prod.split del: upt_Suc)

lemma greet_active:
  assumes "\<forall>c\<in>set cs. c = 1 \<and> handleEvent (el_heap W c) = Inr (Some AcceptConn) \<or>
      c \<noteq> 1 \<and> (handleEvent (el_heap W c) = Inr None \<or> handleEvent (el_heap W c) = Inr (Some (OtherHandler 0)))"
    and "ac_new_conn_cb W"
  shows "handle_active (greet_handler accs addr) cs W = Inr (greeted accs (count_list cs 1) W)"
  using assms
proof (induction cs arbitrary: W)
  case (Cons c cs)
  let ?W = "greet_conn (accs (length (gr_out W))) addr W"
  have "el_heap ?W = el_heap W" "ac_new_conn_cb ?W"
    using Cons.prems(2) by (simp_all add: greet_conn_def newConn_def sock_do_def split: prod.split)
  then show ?case
    using Cons.prems Cons.IH [of ?W] Cons.IH [of W] greeted_Suc [of W accs _ addr]
    by (auto simp: greet_handler_def)
qed simp

lemma count_reports:
  "m = [efd \<mapsto> 0, lfd \<mapsto> 1] \<Longrightarrow> efd \<noteq> lfd \<Longrightarrow>
   count_list (map (\<lambda>(fd, r). the (m fd)) (filter (\<lambda>(fd, r). m fd \<noteq> None) evs)) (1 :: nat) = reports lfd evs"
  by (induction evs) (auto simp: reports_def split: if_splits)

lemma greet_round:
  assumes ok: "greet_ok efd lfd W" and fds: "efd \<noteq> lfd" and evs: "wakeup_reports efd evs"
  shows "\<exists>W'. loop_iteration (epoll_poll_call evs) (greet_handler accs addr) exec W = Inr W' \<and> greet_ok efd lfd W' \<and>
    gr_out W' = gr_out (greeted accs (reports lfd evs) W) \<and> sk_calls W' = sk_calls (greeted accs (reports lfd evs) W) \<and>
    el_running W' = el_running W"
proof -
  obtain h cs calls where poll: "epoll_poll evs (el_poller W) (el_heap W) = (h, cs, calls)" by (metis prod_cases3)
  let ?W = "W\<lparr>el_heap := h\<rparr>"
  have ok1: "greet_ok efd lfd ?W"
    using ok epoll_poll_active_only [OF poll, of 0] epoll_poll_active_only [OF poll, of 1] by (auto simp: greet_ok_def)
  have reg: "reg_ok (channels (el_poller W)) (el_heap W)" using ok by (auto simp: greet_ok_def reg_ok_def split: if_splits)
  have cs: "cs = map (\<lambda>(fd, r). the (channels (el_poller W) fd)) (filter (\<lambda>(fd, r). channels (el_poller W) fd \<noteq> None) evs)"
    by (rule epoll_poll_returned [OF poll])
  have "c = 1 \<and> handleEvent (h c) = Inr (Some AcceptConn) \<or>
      c \<noteq> 1 \<and> (handleEvent (h c) = Inr None \<or> handleEvent (h c) = Inr (Some (OtherHandler 0)))" if c: "c \<in> set cs" for c
  proof (cases "c = 1")
    case True
    with ok1 show ?thesis by (simp add: greet_ok_def handleEvent_def call_handler_def)
  next
    case False
    then have c0: "c = 0" using c ok unfolding cs by (auto simp: greet_ok_def split: if_splits)
    obtain r where r: "(ch_fd (el_heap W c), r) \<in> set evs" "ch_active (h c) = epoll_active r (el_heap W c)"
      using epoll_poll_translates [OF poll reg] c by blast
    then have "r \<noteq> EPOLLOUT" using evs ok c0 by (auto simp: wakeup_reports_def greet_ok_def)
    then have "ch_active (h 0) = 0 \<or> ch_active (h 0) = CHANNEL_READ"
      using epoll_active_values [of r "el_heap W c"] r(2) c0 by auto
    with ok1 c0 show ?thesis by (auto simp: greet_ok_def handleEvent_def call_handler_def has_def channel_masks)
  qed
  then have "handle_active (greet_handler accs addr) cs ?W = Inr (greeted accs (count_list cs 1) ?W)"
    using ok1 by (intro greet_active) (auto simp: greet_ok_def)
  moreover have "count_list cs 1 = reports lfd evs" 
  proof -
    have "channels (el_poller W) = [efd \<mapsto> 0, lfd \<mapsto> 1]" using ok by (simp add: greet_ok_def)
    from count_reports [OF this fds] show ?thesis unfolding cs .
  qed
  ultimately have "loop_iteration (epoll_poll_call evs) (greet_handler accs addr) exec W =
      doPendingFunctors exec (greeted accs (reports lfd evs) ?W)"
    by (simp add: loop_iteration_def epoll_poll_call_def poll)
  also have "\<dots> = Inr ((greeted accs (reports lfd evs) ?W)\<lparr>el_calling_pending := False\<rparr>)"
    using ok1 by (intro no_functors) (simp add: greet_ok_def greeted_def)
  finally show ?thesis using ok1 by (simp add: greet_ok_def greeted_def Let_def)
qed

lemma greet_main_run:
  assumes "\<forall>call. 0 \<le> sys call" "\<forall>call. 0 \<le> ssys call" "epfd \<noteq> -1" "0 \<le> efd"
    and "vt_update (ce_loop env) = epoll_upd sys junk"
  shows "\<exists>W. greet_main sys ssys junk env epfd efd = Inr W \<and> greet_ok efd (ssys SCreate) W \<and> gr_out W = [] \<and>
    \<not> el_running W \<and> el_thread_id W = ce_tid env \<and> ac_listenning W \<and> SListen (ssys SCreate) \<in> set (sk_calls W)"
proof -
  have s: "\<not> sys call < 0" "sys call \<noteq> -1" "\<not> ssys scall < 0" for call scall
    using spec [OF assms(1), of call] spec [OF assms(2), of scall] by auto
  show ?thesis using assms(3-5)
    by (simp add: greet_main_def Epoller_ctor_def EventLoop_ctor_def epoll_update_def Let_def s Acceptor_ctor_def
        Acceptor_listen_def do_listen_def bindAddress_def Socket_listen_def sock_do_def updateChannel_def runInLoop_def
        isLoopThread_def do_update_def epoll_upd_def greet_world_of_def no_server_def server_world.defs greet_ok_def
        channel_ops Channel_ctor_def)
qed

section \<open>Property\<close>


text \<open>Three iterations: two clients, and the eventfd in between.\<close>

definition greet_reports :: "nat \<Rightarrow> (int \<times> 32 word) list" where
  "greet_reports n = (if n = 1 then [(5, EPOLLIN)] else if n < 3 then [(4, EPOLLIN)] else [])"

definition greet_accepts :: "nat \<Rightarrow> int \<times> inet_address" where
  "greet_accepts i = (7 + int i, \<lparr>ia_addr = [10, 0, 0, i], ia_port = 0\<rparr>)"


end
