(* ===== verification/Threads.thy ===== *)
theory Threads
  imports Prelude
begin

text \<open>
  \<open>ThreadPool\<close> (src/net/thread_pool.cpp), \<open>EventLoopThread\<close> (src/net/event_loop_thread.cpp) and
  \<open>CountDownLatch\<close> (src/base/countdown_latch.cpp). The pool is a sequential object; the two
  hand-shakes are step relations whose steps are the sections a mutex protects. A wait on a
  condition variable releases the mutex and may return without a notification.
\<close>

section \<open>Thread pool\<close>

type_synonym loop_id = nat

record thread_pool =
  tp_maxn :: nat
  tp_next :: nat
  tp_started :: bool
  tp_mainloop :: loop_id
  tp_loops :: "loop_id list"

definition ThreadPool_ctor :: "loop_id \<Rightarrow> nat \<Rightarrow> thread_pool" where
  "ThreadPool_ctor mainloop maxn =
     \<lparr>tp_maxn = maxn, tp_next = 0, tp_started = False, tp_mainloop = mainloop, tp_loops = []\<rparr>"

text \<open>\<open>new i\<close> is the loop the \<open>i\<close>-th new thread creates, \<open>here\<close> whether the caller is the thread
  of the main loop.\<close>

definition ThreadPool_start :: "bool \<Rightarrow> (nat \<Rightarrow> loop_id) \<Rightarrow> thread_pool \<Rightarrow> thread_pool res" where
  "ThreadPool_start here new P =
     bindE (assertE here) (\<lambda>_.
       Inr (P\<lparr>tp_started := True, tp_loops := tp_loops P @ map new [0..<tp_maxn P]\<rparr>))"

definition getNextLoop :: "bool \<Rightarrow> thread_pool \<Rightarrow> (loop_id \<times> thread_pool) res" where
  "getNextLoop here P =
     bindE (assertE here) (\<lambda>_.
       if tp_loops P = [] then Inr (tp_mainloop P, P)
       else if tp_next P < length (tp_loops P)
       then Inr (tp_loops P ! tp_next P, P\<lparr>tp_next := (tp_next P + 1) mod tp_maxn P\<rparr>)
       else Inl OutOfBounds)"

fun get_loops :: "nat \<Rightarrow> thread_pool \<Rightarrow> (loop_id list \<times> thread_pool) res" where
  "get_loops 0 P = Inr ([], P)"
| "get_loops (Suc k) P =
     bindE (getNextLoop True P) (\<lambda>(l, P1). bindE (get_loops k P1) (\<lambda>(ls, P2). Inr (l # ls, P2)))"

section \<open>Starting a thread\<close>

text \<open>\<open>startLoop\<close> in the caller: before the test of the loop under the mutex, waiting, past the
  wait, returned; \<open>run\<close> in the new thread: before it creates the loop, running it, done.\<close>

datatype caller_pc = Testing | Waiting | Leaving | Returned "loop_id option"
datatype runner_pc = Starting | Running | Done

record start_state =
  st_loop :: "loop_id option"
  st_caller :: caller_pc
  st_runner :: runner_pc

definition start_init :: start_state where
  "start_init = \<lparr>st_loop = None, st_caller = Testing, st_runner = Starting\<rparr>"

inductive start_step :: "start_state \<Rightarrow> start_state \<Rightarrow> bool" where
  wait: "st_caller s = Testing \<Longrightarrow> st_loop s = None \<Longrightarrow> start_step s (s\<lparr>st_caller := Waiting\<rparr>)"
| pass: "st_caller s = Testing \<Longrightarrow> st_loop s \<noteq> None \<Longrightarrow> start_step s (s\<lparr>st_caller := Leaving\<rparr>)"
| spurious: "st_caller s = Waiting \<Longrightarrow> start_step s (s\<lparr>st_caller := Testing\<rparr>)"
| give_back: "st_caller s = Leaving \<Longrightarrow> start_step s (s\<lparr>st_caller := Returned (st_loop s)\<rparr>)"
| create: "st_runner s = Starting \<Longrightarrow>
    start_step s (s\<lparr>st_loop := Some l, st_runner := Running,
                    st_caller := (if st_caller s = Waiting then Testing else st_caller s)\<rparr>)"
| loop_ends: "st_runner s = Running \<Longrightarrow> start_step s (s\<lparr>st_loop := None, st_runner := Done\<rparr>)"

inductive start_reach :: "start_state \<Rightarrow> bool" where
  start: "start_reach start_init"
| step: "start_reach s \<Longrightarrow> start_step s s' \<Longrightarrow> start_reach s'"

inductive_cases start_stepE: "start_step s s'"

section \<open>Count-down latch\<close>

datatype latch_pc = LOutside | LTesting | LWaiting | LPassed

record latch =
  lt_count :: int
  lt_pc :: "nat \<Rightarrow> latch_pc"

definition latch_init :: "int \<Rightarrow> latch" where
  "latch_init n = \<lparr>lt_count = n, lt_pc = (\<lambda>_. LOutside)\<rparr>"

definition countDown :: "latch \<Rightarrow> latch" where
  "countDown s =
     (let n = lt_count s - 1
      in s\<lparr>lt_count := n,
           lt_pc := (if n = 0 then (\<lambda>t. if lt_pc s t = LWaiting then LTesting else lt_pc s t)
                     else lt_pc s)\<rparr>)"

definition getCount :: "latch \<Rightarrow> int" where
  "getCount s = lt_count s"

inductive latch_step :: "latch \<Rightarrow> latch \<Rightarrow> bool" where
  enter: "lt_pc s t = LOutside \<Longrightarrow> latch_step s (s\<lparr>lt_pc := (lt_pc s)(t := LTesting)\<rparr>)"
| block: "lt_pc s t = LTesting \<Longrightarrow> 0 < lt_count s \<Longrightarrow> latch_step s (s\<lparr>lt_pc := (lt_pc s)(t := LWaiting)\<rparr>)"
| passes: "lt_pc s t = LTesting \<Longrightarrow> \<not> 0 < lt_count s \<Longrightarrow> latch_step s (s\<lparr>lt_pc := (lt_pc s)(t := LPassed)\<rparr>)"
| wake_up: "lt_pc s t = LWaiting \<Longrightarrow> latch_step s (s\<lparr>lt_pc := (lt_pc s)(t := LTesting)\<rparr>)"
| count: "latch_step s (countDown s)"

inductive latch_reach :: "int \<Rightarrow> latch \<Rightarrow> bool" for n where
  init: "latch_reach n (latch_init n)"
| step: "latch_reach n s \<Longrightarrow> latch_step s s' \<Longrightarrow> latch_reach n s'"

inductive_cases latch_stepE: "latch_step s s'"

section \<open>Lemmas\<close>

text \<open>A started pool: one loop per thread and the index within them.\<close>

definition pool_ok :: "thread_pool \<Rightarrow> bool" where
  "pool_ok P \<longleftrightarrow> length (tp_loops P) = tp_maxn P \<and> (tp_maxn P = 0 \<or> tp_next P < tp_maxn P)"

lemma getNextLoop_ok:
  assumes "pool_ok P"
  shows "getNextLoop True P = Inr (if tp_maxn P = 0 then (tp_mainloop P, P)
           else (tp_loops P ! tp_next P, P\<lparr>tp_next := (tp_next P + 1) mod tp_maxn P\<rparr>))"
  using assms by (auto simp: getNextLoop_def pool_ok_def)

lemma pool_ok_next: "pool_ok P \<Longrightarrow> tp_maxn P \<noteq> 0 \<Longrightarrow> pool_ok (P\<lparr>tp_next := (tp_next P + 1) mod tp_maxn P\<rparr>)"
  by (simp add: pool_ok_def)

lemma get_loops_eq:
  "pool_ok P \<Longrightarrow> 0 < tp_maxn P \<Longrightarrow>
   \<exists>P'. get_loops k P = Inr (map (\<lambda>i. tp_loops P ! ((tp_next P + i) mod tp_maxn P)) [0..<k], P')"
proof (induction k arbitrary: P)
  case (Suc k)
  let ?P = "P\<lparr>tp_next := (tp_next P + 1) mod tp_maxn P\<rparr>"
  have "pool_ok ?P" "0 < tp_maxn ?P" using pool_ok_next Suc.prems by simp_all
  from Suc.IH [OF this] obtain P' where
    r: "get_loops k ?P = Inr (map (\<lambda>i. tp_loops P ! (((tp_next P + 1) mod tp_maxn P + i) mod tp_maxn P)) [0..<k], P')"
    by auto
  have e: "((tp_next P + 1) mod tp_maxn P + i) mod tp_maxn P = (tp_next P + Suc i) mod tp_maxn P" for i
    by (simp add: mod_add_left_eq)
  have "tp_next P mod tp_maxn P = tp_next P" using Suc.prems by (auto simp: pool_ok_def)
  with r Suc.prems show ?case
    unfolding e by (simp add: getNextLoop_ok map_upt_Suc del: upt_Suc)
qed simp

definition start_inv :: "start_state \<Rightarrow> bool" where
  "start_inv s \<longleftrightarrow>
     (st_runner s = Starting \<longrightarrow> st_loop s = None \<and> (st_caller s = Testing \<or> st_caller s = Waiting)) \<and>
     (st_runner s = Running \<longrightarrow> st_loop s \<noteq> None \<and> st_caller s \<noteq> Waiting) \<and>
     (st_caller s = Returned None \<longrightarrow> st_runner s = Done)"

lemma start_step_inv: "start_step s s' \<Longrightarrow> start_inv s \<Longrightarrow> start_inv s'"
  by (erule start_stepE; cases "st_runner s") (auto simp: start_inv_def)

text \<open>Once the loop is there and has not ended, the caller alone gets it.\<close>

lemma running_returns:
  assumes "start_inv s" "st_runner s = Running"
  shows "\<exists>s' r. start_step\<^sup>*\<^sup>* s s' \<and> st_caller s' = Returned (Some r)"
proof -
  obtain l where l: "st_loop s = Some l" using assms by (auto simp: start_inv_def)
  have leave: "\<exists>s' r. start_step\<^sup>*\<^sup>* t s' \<and> st_caller s' = Returned (Some r)"
    if "st_caller t = Leaving" "st_loop t = Some l" for t
    using r_into_rtranclp [of start_step, OF start_step.give_back [OF that(1)]] that(2)
    by (intro exI [of _ "t\<lparr>st_caller := Returned (st_loop t)\<rparr>"] exI [of _ l]) simp
  show ?thesis
  proof (cases "st_caller s")
    case Testing
    then have "start_step s (s\<lparr>st_caller := Leaving\<rparr>)" using l by (intro start_step.pass) auto
    with leave [of "s\<lparr>st_caller := Leaving\<rparr>"] l show ?thesis
      by (auto intro: converse_rtranclp_into_rtranclp)
  next
    case (Returned r)
    then obtain l' where "r = Some l'" using assms by (cases r) (auto simp: start_inv_def)
    with Returned show ?thesis by auto
  qed (use assms leave l in \<open>auto simp: start_inv_def\<close>)
qed

lemma start_returns:
  assumes "start_inv s" "st_runner s \<noteq> Done"
  shows "\<exists>s' r. start_step\<^sup>*\<^sup>* s s' \<and> st_caller s' = Returned (Some r)"
proof (cases "st_runner s")
  case Starting
  let ?s = "s\<lparr>st_loop := Some 0, st_runner := Running,
              st_caller := (if st_caller s = Waiting then Testing else st_caller s)\<rparr>"
  have st: "start_step s ?s" using Starting by (rule start_step.create)
  from start_step_inv [OF this assms(1)] running_returns [of ?s]
  have "\<exists>s' r. start_step\<^sup>*\<^sup>* ?s s' \<and> st_caller s' = Returned (Some r)" by simp
  with st show ?thesis by (meson converse_rtranclp_into_rtranclp)
qed (use assms running_returns in auto)

lemma start_reach_inv: "start_reach s \<Longrightarrow> start_inv s"
  by (induction rule: start_reach.induct) (simp add: start_inv_def start_init_def, rule start_step_inv)

definition latch_inv :: "latch \<Rightarrow> bool" where
  "latch_inv s \<longleftrightarrow> (\<forall>t. (lt_pc s t = LWaiting \<longrightarrow> 0 < lt_count s) \<and> (lt_pc s t = LPassed \<longrightarrow> lt_count s \<le> 0))"

lemma latch_step_inv: "latch_step s s' \<Longrightarrow> latch_inv s \<Longrightarrow> latch_inv s'"
  by (erule latch_stepE) (auto simp: latch_inv_def countDown_def Let_def split: if_splits)

lemma latch_reach_inv: "latch_reach n s \<Longrightarrow> latch_inv s"
  by (induction rule: latch_reach.induct) (simp add: latch_inv_def latch_init_def, rule latch_step_inv)

section \<open>Properties\<close>

text \<open>Round robin: after \<open>start\<close> on a new pool of \<open>n > 0\<close> threads, successive calls of
  \<open>getNextLoop\<close> return the loops of the threads in turn, never an index out of range and
  never the main loop, which serves only a pool without threads.\<close>

theorem pool_round_robin:
  assumes "ThreadPool_start True new (ThreadPool_ctor mainloop n) = Inr P"
  shows "\<exists>P'. get_loops k P = Inr (if n = 0 then replicate k mainloop else map (\<lambda>i. new (i mod n)) [0..<k], P')"
proof (cases "n = 0")
  case True
  then have P: "tp_loops P = []" "tp_mainloop P = mainloop" and ok: "pool_ok P" "tp_maxn P = 0"
    using assms by (auto simp: ThreadPool_start_def ThreadPool_ctor_def pool_ok_def)
  have "get_loops k P = Inr (replicate k mainloop, P)"
    using getNextLoop_ok [OF ok(1)] ok(2) P by (induction k) auto
  with True show ?thesis by simp
next
  case False
  then have P: "tp_loops P = map new [0..<n]" "tp_next P = 0" "tp_maxn P = n"
    using assms by (auto simp: ThreadPool_start_def ThreadPool_ctor_def)
  then have "pool_ok P" "0 < tp_maxn P" using False by (simp_all add: pool_ok_def)
  from get_loops_eq [OF this, of k] P False show ?thesis by simp
qed

theorem pool_round_robin_witness:
  "\<exists>P P'. ThreadPool_start True (\<lambda>i. i + 10) (ThreadPool_ctor 0 3) = Inr P \<and>
          get_loops 5 P = Inr ([10, 11, 12, 10, 11], P')"
proof -
  obtain P where P: "ThreadPool_start True (\<lambda>i. i + 10) (ThreadPool_ctor 0 3) = Inr P"
    by (simp add: ThreadPool_start_def)
  from pool_round_robin [OF this, of 5] P show ?thesis
    by (simp add: upt_conv_Cons)
qed

text \<open>C28. \<open>startLoop\<close> and the new thread, in every interleaving: while the loop has not ended the
  caller never waits for a loop that is already there, and it can always go on to return
  the loop; the pointer it returns is null only if the loop ended before the return.\<close>

theorem startLoop_handshake:
  assumes "start_reach s"
  shows "(st_runner s = Running \<longrightarrow> st_caller s \<noteq> Waiting) \<and>
         (st_runner s \<noteq> Done \<longrightarrow> (\<exists>s' l. start_step\<^sup>*\<^sup>* s s' \<and> st_caller s' = Returned (Some l))) \<and>
         (st_caller s = Returned None \<longrightarrow> st_runner s = Done)"
  using start_reach_inv [OF assms] start_returns [of s] by (auto simp: start_inv_def)

theorem startLoop_handshake_witness:
  "\<exists>s' l. start_step\<^sup>*\<^sup>* start_init s' \<and> st_caller s' = Returned (Some l)"
proof -
  have "st_runner start_init \<noteq> Done" by (simp add: start_init_def)
  with startLoop_handshake [OF start_reach.start] show ?thesis by blast
qed

text \<open>The latch: in every reachable state a thread that passed \<open>wait\<close> did so with the count at
  or below zero, and no thread is left waiting once the count is there, so the one
  notification of \<open>countDown\<close> is enough; after \<open>n\<close> calls from a fresh latch the count is zero.\<close>

theorem latch_correct:
  assumes "latch_reach n s"
  shows "(lt_pc s t = LPassed \<longrightarrow> getCount s \<le> 0) \<and> (lt_pc s t = LWaiting \<longrightarrow> 0 < getCount s) \<and>
         getCount ((countDown ^^ k) s) = getCount s - int k"
proof -
  have "lt_count ((countDown ^^ k) s) = lt_count s - int k"
    by (induction k) (simp_all add: countDown_def Let_def)
  with latch_reach_inv [OF assms] show ?thesis by (simp add: latch_inv_def getCount_def)
qed

theorem latch_correct_witness:
  "\<exists>s. latch_reach 1 s \<and> lt_pc s 0 = LTesting \<and> getCount s = 0 \<and> lt_pc s 0 \<noteq> LWaiting"
proof -
  let ?a = "(latch_init 1)\<lparr>lt_pc := (lt_pc (latch_init 1))(0 := LTesting)\<rparr>"
  let ?b = "?a\<lparr>lt_pc := (lt_pc ?a)(0 := LWaiting)\<rparr>"
  have a: "latch_reach 1 ?a"
    by (rule latch_reach.step [OF latch_reach.init latch_step.enter]) (simp add: latch_init_def)
  have b: "latch_reach 1 ?b"
    by (rule latch_reach.step [OF a latch_step.block]) (simp_all add: latch_init_def)
  have c: "latch_reach 1 (countDown ?b)" by (rule latch_reach.step [OF b latch_step.count])
  from latch_correct [OF c, of 0 0] show ?thesis
    by (intro exI [of _ "countDown ?b"] conjI, intro c)
       (simp_all add: countDown_def latch_init_def getCount_def Let_def)
qed

end
