(* ===== verification/Rio.thy ===== *)
theory Rio
  imports Prelude
begin

text \<open>
  The robust I/O helpers of src/base/rio.h and src/base/rio.cpp. What a descriptor does is a
  script of events: bytes that arrive in one piece, a call interrupted by a signal, a
  call that fails otherwise. The end of the script is the end of the file; an empty piece
  is an end of file that is not final, as on a terminal. Where the end of what a peer has sent is not the
  end of the file, a blocking \<open>read\<close> waits there: \<open>HttpWaits\<close> says which calls do.

  Counters are natural numbers: the \<open>int\<close> counter of \<open>rio_readlineb\<close> is exact for \<open>maxlen\<close> up to 2147483647, and
  its only callers pass 1024. The \<open>printf\<close> between a failed \<open>write\<close> and the test of \<open>errno\<close> in \<open>rio_writen\<close> is taken to
  leave \<open>errno\<close> as it is.
\<close>

section \<open>Descriptors\<close>

datatype read_ev = Data "char list" | Interrupted | Broken
datatype read_res = Bytes "char list" | IntrErr | OtherErr

fun sys_read :: "nat \<Rightarrow> read_ev list \<Rightarrow> read_res \<times> read_ev list" where
  "sys_read n [] = (Bytes [], [])"
| "sys_read n (Data bs # s) =
     (Bytes (take n bs), if length bs \<le> n then s else Data (drop n bs) # s)"
| "sys_read n (Interrupted # s) = (IntrErr, s)"
| "sys_read n (Broken # s) = (OtherErr, s)"

text \<open>The bytes that come before the next end of file or failure, and whether it is a failure.\<close>

fun avail :: "read_ev list \<Rightarrow> char list" where
  "avail [] = []"
| "avail (Data bs # s) = (if bs = [] then [] else bs @ avail s)"
| "avail (Interrupted # s) = avail s"
| "avail (Broken # s) = []"

fun breaks :: "read_ev list \<Rightarrow> bool" where
  "breaks [] = False"
| "breaks (Data bs # s) = (bs \<noteq> [] \<and> breaks s)"
| "breaks (Interrupted # s) = breaks s"
| "breaks (Broken # s) = True"

text \<open>A write takes some of the bytes (\<open>Wrote 0\<close>: it returns 0), is interrupted or fails. After
  the script the descriptor takes everything.\<close>

datatype write_ev = Wrote nat | WIntr | WFail

section \<open>Unbuffered reads and writes\<close>

text \<open>
  \<open>rio_readn\<close>: the return value, the bytes stored in \<open>usrbuf\<close> and the rest of the script.
  \<open>n\<close> is at most \<open>PTRDIFF_MAX\<close>, as \<open>usrbuf\<close> is an object of that size.
\<close>

function rio_readn_loop ::
  "nat \<Rightarrow> nat \<Rightarrow> char list \<Rightarrow> read_ev list \<Rightarrow> int \<times> char list \<times> read_ev list" where
  "rio_readn_loop n nleft stored s =
     (if nleft = 0 then (int (n - nleft), stored, s)
      else case sys_read nleft s of
        (IntrErr, s') \<Rightarrow> rio_readn_loop n nleft stored s'
      | (OtherErr, s') \<Rightarrow> (-1, stored, s')
      | (Bytes bs, s') \<Rightarrow>
          if bs = [] then (int (n - nleft), stored, s')
          else rio_readn_loop n (nleft - length bs) (stored @ bs) s')"
  by pat_completeness auto

lemma sys_read_bytes:
  "sys_read n s = (Bytes bs, s') \<Longrightarrow> bs \<noteq> [] \<Longrightarrow> 0 < n \<Longrightarrow>
     avail s = bs @ avail s' \<and> length bs \<le> n \<and> breaks s' = breaks s \<and> length s' \<le> length s"
  by (induction n s rule: sys_read.induct) (auto split: if_splits)

lemma sys_read_eof:
  "sys_read n s = (Bytes [], s') \<Longrightarrow> 0 < n \<Longrightarrow> avail s = [] \<and> \<not> breaks s"
  by (induction n s rule: sys_read.induct) (auto split: if_splits)

lemma sys_read_intr:
  "sys_read n s = (IntrErr, s') \<Longrightarrow> avail s' = avail s \<and> breaks s' = breaks s \<and> length s' < length s"
  by (induction n s rule: sys_read.induct) (auto split: if_splits)

lemma sys_read_fail: "sys_read n s = (OtherErr, s') \<Longrightarrow> avail s = [] \<and> breaks s"
  by (induction n s rule: sys_read.induct) (auto split: if_splits)

termination rio_readn_loop
proof (relation "measure (\<lambda>(n, nleft, stored, s). nleft + length s)", goal_cases)
  case 1
  show ?case by simp
next
  case (2 n nleft stored s x s' bs)
  then have "sys_read nleft s = (Bytes bs, s')" "bs \<noteq> []" "0 < nleft" by auto
  from sys_read_bytes [OF this] this show ?case by (cases bs) auto
next
  case (3 n nleft stored s x s')
  then have "sys_read nleft s = (IntrErr, s')" by auto
  from sys_read_intr [OF this] show ?case by simp
qed

declare rio_readn_loop.simps [simp del]

definition rio_readn :: "nat \<Rightarrow> read_ev list \<Rightarrow> int \<times> char list \<times> read_ev list" where
  "rio_readn n s = rio_readn_loop n n [] s"

text \<open>
  \<open>rio_writen\<close>: \<open>intr\<close> says whether \<open>errno\<close> is EINTR; a write that returns 0 leaves \<open>errno\<close> as
  it was, and the code looks at it all the same. The results are the return value, the
  bytes the descriptor has taken, \<open>errno\<close> and the rest of the script.
\<close>

fun rio_writen_loop ::
  "nat \<Rightarrow> char list \<Rightarrow> char list \<Rightarrow> bool \<Rightarrow> write_ev list \<Rightarrow> int \<times> char list \<times> bool \<times> write_ev list" where
  "rio_writen_loop n todo out intr [] = (int n, out @ todo, intr, [])"
| "rio_writen_loop n todo out intr (w # ws) =
     (if todo = [] then (int n, out, intr, w # ws)
      else case w of
        Wrote k \<Rightarrow>
          if k = 0 then (if intr then rio_writen_loop n todo out intr ws else (-1, out, intr, ws))
          else rio_writen_loop n (drop k todo) (out @ take k todo) intr ws
      | WIntr \<Rightarrow> rio_writen_loop n todo out True ws
      | WFail \<Rightarrow> (-1, out, False, ws))"

definition rio_writen ::
  "char list \<Rightarrow> bool \<Rightarrow> write_ev list \<Rightarrow> int \<times> char list \<times> bool \<times> write_ev list" where
  "rio_writen data intr ws = rio_writen_loop (length data) data [] intr ws"

section \<open>Buffered reads\<close>

definition RIO_BUFSIZE :: nat where
  "RIO_BUFSIZE = 8192"

record rio_t =
  rio_fd :: int
  rio_cnt :: int
  rio_bufptr :: nat
  rio_buf :: "char list"

definition rio_init :: "int \<Rightarrow> rio_t \<Rightarrow> rio_t" where
  "rio_init fd rp = rp\<lparr>rio_fd := fd, rio_cnt := 0, rio_bufptr := 0\<rparr>"

text \<open>The loop of \<open>rio_read\<close>: None when there are unread bytes, else the value it returns.\<close>

function rio_fill :: "rio_t \<Rightarrow> read_ev list \<Rightarrow> int option \<times> rio_t \<times> read_ev list" where
  "rio_fill rp s =
     (if 0 < rio_cnt rp then (None, rp, s)
      else case sys_read RIO_BUFSIZE s of
        (IntrErr, s') \<Rightarrow> rio_fill (rp\<lparr>rio_cnt := -1\<rparr>) s'
      | (OtherErr, s') \<Rightarrow> (Some (-1), rp\<lparr>rio_cnt := -1\<rparr>, s')
      | (Bytes bs, s') \<Rightarrow>
          if bs = [] then (Some 0, rp\<lparr>rio_cnt := 0\<rparr>, s')
          else (None, rp\<lparr>rio_cnt := int (length bs), rio_bufptr := 0,
                         rio_buf := bs @ drop (length bs) (rio_buf rp)\<rparr>, s'))"
  by pat_completeness auto

termination rio_fill
  by (relation "measure (\<lambda>(rp, s). length s)") (auto dest!: sys_read_intr [OF sym])

declare rio_fill.simps [simp del]

definition rio_read :: "nat \<Rightarrow> rio_t \<Rightarrow> read_ev list \<Rightarrow> int \<times> char list \<times> rio_t \<times> read_ev list" where
  "rio_read n rp s =
     (case rio_fill rp s of
        (Some r, rp1, s1) \<Rightarrow> (r, [], rp1, s1)
      | (None, rp1, s1) \<Rightarrow>
          let cnt = (if rio_cnt rp1 < int n then rio_cnt rp1 else int n)
          in (cnt, take (nat cnt) (drop (rio_bufptr rp1) (rio_buf rp1)),
              rp1\<lparr>rio_bufptr := rio_bufptr rp1 + nat cnt, rio_cnt := rio_cnt rp1 - cnt\<rparr>, s1))"

text \<open>
  \<open>rio_readlineb\<close>: the return value, the bytes stored in \<open>usrbuf\<close> from its start (the
  terminating zero included, when it is written), the reader and the script. \<open>n\<close> is the
  counter of the \<open>for\<close> loop.
\<close>

function readline_loop ::
  "nat \<Rightarrow> nat \<Rightarrow> char list \<Rightarrow> rio_t \<Rightarrow> read_ev list \<Rightarrow> int \<times> char list \<times> rio_t \<times> read_ev list" where
  "readline_loop maxlen n stored rp s =
     (if n < maxlen then
        case rio_read 1 rp s of (rc, bs, rp1, s1) \<Rightarrow>
          if rc = 1 then
            (if bs = [CHR 0x0A] then (int n, stored @ bs @ [CHR 0x00], rp1, s1)
             else readline_loop maxlen (Suc n) (stored @ bs) rp1 s1)
          else if rc = 0 then
            (if n = 1 then (0, stored, rp1, s1) else (int n, stored @ [CHR 0x00], rp1, s1))
          else (-1, stored, rp1, s1)
      else (int n, stored @ [CHR 0x00], rp, s))"
  by pat_completeness auto

termination readline_loop
  by (relation "measure (\<lambda>(maxlen, n, stored, rp, s). maxlen - n)") auto

declare readline_loop.simps [simp del]

definition rio_readlineb ::
  "nat \<Rightarrow> rio_t \<Rightarrow> read_ev list \<Rightarrow> int \<times> char list \<times> rio_t \<times> read_ev list" where
  "rio_readlineb maxlen rp s = readline_loop maxlen 1 [] rp s"


section \<open>What a reader promises\<close>

text \<open>
  A reader hands out the bytes of its content from the front, at most as many as asked for,
  and an end of file or a failure only when there is no byte left. \<open>rd\<close> is one call of
  it, \<open>ok\<close> its invariant and \<open>size\<close> bounds how often it can be interrupted.
\<close>

locale reader =
  fixes rd :: "nat \<Rightarrow> 's \<Rightarrow> read_res \<times> 's"
    and content :: "'s \<Rightarrow> char list"
    and broken :: "'s \<Rightarrow> bool"
    and ok :: "'s \<Rightarrow> bool"
  assumes bytes: "ok s \<Longrightarrow> 0 < n \<Longrightarrow> rd n s = (Bytes bs, s') \<Longrightarrow> bs \<noteq> [] \<Longrightarrow>
      content s = bs @ content s' \<and> length bs \<le> n \<and> broken s' = broken s \<and> ok s'"
    and eof: "ok s \<Longrightarrow> 0 < n \<Longrightarrow> rd n s = (Bytes [], s') \<Longrightarrow> content s = [] \<and> \<not> broken s \<and> ok s'"
    and intr: "ok s \<Longrightarrow> 0 < n \<Longrightarrow> rd n s = (IntrErr, s') \<Longrightarrow>
      content s' = content s \<and> broken s' = broken s \<and> ok s'"
    and fail: "ok s \<Longrightarrow> 0 < n \<Longrightarrow> rd n s = (OtherErr, s') \<Longrightarrow> content s = [] \<and> broken s \<and> ok s'"
begin

lemma ok_step: "ok s \<Longrightarrow> 0 < n \<Longrightarrow> rd n s = (r, s') \<Longrightarrow> ok s'"
  using bytes [of s n _ s'] eof [of s n s'] intr [of s n s'] fail [of s n s'] by (cases r) blast+

end

text \<open>One that is never interrupted: a call for one byte yields the first byte of the content.\<close>

locale steady_reader = reader +
  assumes never_intr: "ok s \<Longrightarrow> rd n s \<noteq> (IntrErr, s')"
begin

lemma one_byte:
  assumes "ok s" "content s = c # cs"
  obtains s' where "rd 1 s = (Bytes [c], s')" "content s' = cs" "broken s' = broken s" "ok s'"
proof (cases "rd 1 s")
  case (Pair r s')
  show thesis
  proof (cases r)
    case (Bytes bs)
    with Pair assms have "bs \<noteq> []" using eof [of s 1 s'] by auto
    with Pair Bytes assms bytes [of s 1 bs s'] show thesis
      by (cases bs) (auto intro: that)
  qed (use Pair assms never_intr [of s 1 s'] fail [of s 1 s'] in auto)
qed

lemma no_byte:
  assumes "ok s" "content s = []"
  obtains s' where "rd 1 s = (if broken s then OtherErr else Bytes [], s')" "ok s'"
proof (cases "rd 1 s")
  case (Pair r s')
  then have "ok s'" using ok_step [of s 1 r s'] assms by simp
  show thesis
  proof (cases r)
    case (Bytes bs)
    with Pair assms have "bs = []" using bytes [of s 1 bs s'] by auto
    with Pair Bytes assms \<open>ok s'\<close> show thesis using eof [of s 1 s'] by (auto intro!: that)
  qed (use Pair assms \<open>ok s'\<close> never_intr [of s 1 s'] fail [of s 1 s'] in \<open>auto intro!: that\<close>)
qed

end

interpretation raw: reader sys_read avail breaks "\<lambda>_. True"
  by unfold_locales (auto dest: sys_read_bytes sys_read_eof sys_read_intr sys_read_fail)

section \<open>Unbuffered calls\<close>

lemma rio_readn_loop_steps:
  "rio_readn_loop n 0 stored s = (int n, stored, s)"
  "sys_read nleft s = (IntrErr, t) \<Longrightarrow> 0 < nleft \<Longrightarrow>
     rio_readn_loop n nleft stored s = rio_readn_loop n nleft stored t"
  "sys_read nleft s = (OtherErr, t) \<Longrightarrow> 0 < nleft \<Longrightarrow>
     rio_readn_loop n nleft stored s = (-1, stored, t)"
  "sys_read nleft s = (Bytes [], t) \<Longrightarrow> 0 < nleft \<Longrightarrow>
     rio_readn_loop n nleft stored s = (int (n - nleft), stored, t)"
  "sys_read nleft s = (Bytes bs, t) \<Longrightarrow> 0 < nleft \<Longrightarrow> bs \<noteq> [] \<Longrightarrow>
     rio_readn_loop n nleft stored s = rio_readn_loop n (nleft - length bs) (stored @ bs) t"
  by (subst rio_readn_loop.simps; simp)+

lemma rio_readn_loop_spec:
  assumes "rio_readn_loop n nleft stored s = (r, out, s')" "nleft \<le> n" "length stored = n - nleft"
  shows "out = stored @ take nleft (avail s) \<and>
     r = (if nleft \<le> length (avail s) \<or> \<not> breaks s then int (length out) else -1) \<and>
     (nleft \<le> length (avail s) \<longrightarrow> avail s' = drop nleft (avail s) \<and> breaks s' = breaks s)"
  using assms
proof (induction n nleft stored s rule: rio_readn_loop.induct)
  case (1 n nleft stored s)
  obtain x t where rd: "sys_read nleft s = (x, t)" by fastforce
  show ?case
  proof (cases "nleft = 0")
    case True
    then show ?thesis using 1(3-5) by (auto simp: rio_readn_loop_steps)
  next
    case pos: False
    show ?thesis
    proof (cases x)
      case (Bytes bs)
      show ?thesis
      proof (cases "bs = []")
        case True
        then show ?thesis
          using 1(3-5) pos rd Bytes raw.eof [of nleft s t] by (auto simp: rio_readn_loop_steps)
      next
        case False
        have law: "avail s = bs @ avail t" "length bs \<le> nleft" "breaks t = breaks s"
          using raw.bytes [of nleft s bs t] rd Bytes False pos by auto
        have "rio_readn_loop n (nleft - length bs) (stored @ bs) t = (r, out, s')"
          using 1(3) pos rd Bytes False by (simp add: rio_readn_loop_steps)
        from 1(1) [OF pos rd [symmetric] Bytes False this] show ?thesis
          using 1(4,5) law by auto
      qed
    next
      case IntrErr
      have "rio_readn_loop n nleft stored t = (r, out, s')"
        using 1(3) pos rd IntrErr by (simp add: rio_readn_loop_steps)
      from 1(2) [OF pos rd [symmetric] IntrErr this 1(4,5)] show ?thesis
        using raw.intr [of nleft s t] rd IntrErr pos by simp
    next
      case OtherErr
      then show ?thesis
        using 1(3-5) pos rd raw.fail [of nleft s t] by (auto simp: rio_readn_loop_steps)
    qed
  qed
qed

text \<open>
  \<open>rio_readn\<close> stores the first \<open>n\<close> bytes of what the descriptor delivers, however it is
  cut into pieces and interrupted, and returns how many; when the descriptor fails
  before, it returns -1, though the bytes read so far are stored and gone.
\<close>

theorem rio_readn_spec:
  "case rio_readn n s of (r, out, s') \<Rightarrow>
     out = take n (avail s) \<and>
     r = (if n \<le> length (avail s) \<or> \<not> breaks s then int (length out) else -1) \<and>
     (n \<le> length (avail s) \<longrightarrow> avail s' = drop n (avail s) \<and> breaks s' = breaks s)"
  using rio_readn_loop_spec [of n n "[]" s] by (cases "rio_readn n s") (auto simp: rio_readn_def)

theorem rio_readn_spec_witness:
  "case rio_readn 4 [Data ''ab'', Interrupted, Data ''cde'', Broken] of (r, out, s') \<Rightarrow>
     r = 4 \<and> out = ''abcd'' \<and> avail s' = ''e'' \<and> breaks s'"
  using rio_readn_spec [of 4 "[Data ''ab'', Interrupted, Data ''cde'', Broken]"]
  by (auto split: prod.splits)

lemma rio_writen_loop_spec:
  "rio_writen_loop n todo out intr ws = (r, out', intr', ws') \<Longrightarrow>
     (r = int n \<and> out' = out @ todo) \<or>
     (r = -1 \<and> (\<exists>k < length todo. out' = out @ take k todo) \<and> (WFail \<in> set ws \<or> Wrote 0 \<in> set ws))"
proof (induction n todo out intr ws rule: rio_writen_loop.induct)
  case (1 n todo out intr)
  then show ?case by auto
next
  case (2 n todo out intr w ws)
  show ?case
  proof (cases "todo = []")
    case True
    then show ?thesis using 2 by auto
  next
    case ne: False
    show ?thesis
    proof (cases w)
      case (Wrote k)
      show ?thesis
      proof (cases "k = 0")
        case True
        then show ?thesis using 2 ne Wrote by (fastforce split: if_splits intro: exI [of _ 0])
      next
        case False
        have "(r = int n \<and> out' = (out @ take k todo) @ drop k todo) \<or>
           (r = -1 \<and> (\<exists>j < length (drop k todo). out' = (out @ take k todo) @ take j (drop k todo)) \<and>
            (WFail \<in> set ws \<or> Wrote 0 \<in> set ws))"
          using 2(2) [OF ne Wrote False] 2(4) ne Wrote False by simp
        then show ?thesis
        proof (elim disjE conjE exE)
          fix j assume "r = -1" "j < length (drop k todo)"
            "out' = (out @ take k todo) @ take j (drop k todo)" "WFail \<in> set ws"
          then show ?thesis
            by (intro disjI2) (auto simp: take_add [symmetric] intro!: exI [of _ "k + j"])
        next
          fix j assume "r = -1" "j < length (drop k todo)"
            "out' = (out @ take k todo) @ take j (drop k todo)" "Wrote 0 \<in> set ws"
          then show ?thesis
            by (intro disjI2) (auto simp: take_add [symmetric] intro!: exI [of _ "k + j"])
        qed auto
      qed
    next
      case WIntr
      then show ?thesis using 2 ne by auto
    next
      case WFail
      then show ?thesis using 2 ne by (auto intro!: exI [of _ 0])
    qed
  qed
qed

text \<open>
  C30. \<open>rio_writen\<close> writes everything and returns the length, or returns -1 with a proper
  prefix written; nothing is written twice or out of order, and it gives up only when a
  write fails or returns 0.
\<close>

theorem rio_writen_all_or_prefix:
  "case rio_writen data intr ws of (r, out, _) \<Rightarrow>
     (r = int (length data) \<and> out = data) \<or>
     (r = -1 \<and> (\<exists>k < length data. out = take k data) \<and> (WFail \<in> set ws \<or> Wrote 0 \<in> set ws))"
  using rio_writen_loop_spec [of "length data" data "[]" intr ws]
  by (cases "rio_writen data intr ws") (auto simp: rio_writen_def)

section \<open>Scripts without failures\<close>

text \<open>All bytes a script still delivers, failures and ends of file in between or not.\<close>

fun all_bytes :: "read_ev list \<Rightarrow> char list" where
  "all_bytes [] = []"
| "all_bytes (Data bs # s) = bs @ all_bytes s"
| "all_bytes (_ # s) = all_bytes s"

text \<open>A script that never fails and has one end of file, its end.\<close>

definition clean :: "read_ev list \<Rightarrow> bool" where
  "clean s \<longleftrightarrow> Broken \<notin> set s \<and> Data [] \<notin> set s"

lemma clean_avail: "clean s \<Longrightarrow> avail s = all_bytes s \<and> \<not> breaks s"
  by (induction s rule: avail.induct) (auto simp: clean_def)

lemma sys_read_all:
  "sys_read n s = (x, t) \<Longrightarrow>
     all_bytes s = (case x of Bytes bs \<Rightarrow> bs | _ \<Rightarrow> []) @ all_bytes t \<and> (clean s \<longrightarrow> clean t)"
  by (induction n s rule: sys_read.induct) (auto simp: clean_def split: if_splits)

lemma sys_read_clean_eof: "sys_read n s = (Bytes [], t) \<Longrightarrow> 0 < n \<Longrightarrow> clean s \<Longrightarrow> t = []"
  by (induction n s rule: sys_read.induct) (auto simp: clean_def)

section \<open>Buffered calls\<close>

text \<open>The unread bytes lie within the buffer; \<open>rio_cnt\<close> is -1 after a failed read.\<close>

definition rio_ok :: "rio_t \<Rightarrow> bool" where
  "rio_ok rp \<longleftrightarrow> (0 < rio_cnt rp \<longrightarrow> rio_bufptr rp + nat (rio_cnt rp) \<le> length (rio_buf rp))"

definition rio_pending :: "rio_t \<Rightarrow> char list" where
  "rio_pending rp = take (nat (rio_cnt rp)) (drop (rio_bufptr rp) (rio_buf rp))"

lemma rio_init_ok [simp]: "rio_ok (rio_init fd rp)" "rio_pending (rio_init fd rp) = []"
  by (simp_all add: rio_ok_def rio_pending_def rio_init_def)

lemma rio_fill_steps:
  "0 < rio_cnt rp \<Longrightarrow> rio_fill rp s = (None, rp, s)"
  "sys_read RIO_BUFSIZE s = (IntrErr, t) \<Longrightarrow> rio_cnt rp \<le> 0 \<Longrightarrow>
     rio_fill rp s = rio_fill (rp\<lparr>rio_cnt := -1\<rparr>) t"
  "sys_read RIO_BUFSIZE s = (OtherErr, t) \<Longrightarrow> rio_cnt rp \<le> 0 \<Longrightarrow>
     rio_fill rp s = (Some (-1), rp\<lparr>rio_cnt := -1\<rparr>, t)"
  "sys_read RIO_BUFSIZE s = (Bytes [], t) \<Longrightarrow> rio_cnt rp \<le> 0 \<Longrightarrow>
     rio_fill rp s = (Some 0, rp\<lparr>rio_cnt := 0\<rparr>, t)"
  "sys_read RIO_BUFSIZE s = (Bytes bs, t) \<Longrightarrow> rio_cnt rp \<le> 0 \<Longrightarrow> bs \<noteq> [] \<Longrightarrow>
     rio_fill rp s = (None, rp\<lparr>rio_cnt := int (length bs), rio_bufptr := 0,
                         rio_buf := bs @ drop (length bs) (rio_buf rp)\<rparr>, t)"
  by (subst rio_fill.simps; simp)+

definition fill_post :: "rio_t \<Rightarrow> read_ev list \<Rightarrow> int option \<Rightarrow> rio_t \<Rightarrow> read_ev list \<Rightarrow> bool" where
  "fill_post rp s x rp1 s1 \<longleftrightarrow> rio_ok rp1 \<and>
     (case x of
        None \<Rightarrow> 0 < rio_cnt rp1 \<and> rio_pending rp1 @ avail s1 = rio_pending rp @ avail s \<and> breaks s1 = breaks s
      | Some r \<Rightarrow> rio_pending rp = [] \<and> avail s = [] \<and> r = (if breaks s then -1 else 0) \<and>
          (clean s \<longrightarrow> rio_pending rp1 = [] \<and> s1 = [])) \<and> (clean s \<longrightarrow> clean s1)"

lemma rio_pending_nonpos: "rio_cnt rp \<le> 0 \<Longrightarrow> rio_pending rp = []"
  by (simp add: rio_pending_def)

lemma rio_fill_post: "rio_ok rp \<Longrightarrow> rio_fill rp s = (x, rp1, s1) \<Longrightarrow> fill_post rp s x rp1 s1"
proof (induction rp s rule: rio_fill.induct)
  case (1 rp s)
  obtain y t where rd: "sys_read RIO_BUFSIZE s = (y, t)" by fastforce
  show ?case
  proof (cases "0 < rio_cnt rp")
    case True
    then show ?thesis using 1(2,3) by (auto simp: rio_fill_steps fill_post_def)
  next
    case False
    then have le: "rio_cnt rp \<le> 0" by simp
    have pos: "0 < RIO_BUFSIZE" by (simp add: RIO_BUFSIZE_def)
    show ?thesis
    proof (cases y)
      case (Bytes bs)
      show ?thesis
      proof (cases "bs = []")
        case True
        then show ?thesis using 1(3) rd Bytes le raw.eof [OF _ pos, of s t] sys_read_clean_eof [of RIO_BUFSIZE s t] pos
            sys_read_all [OF rd]
          by (auto simp: rio_fill_steps fill_post_def rio_ok_def rio_pending_nonpos)
      next
        case False
        then show ?thesis using 1(3) rd Bytes le raw.bytes [OF _ pos, of s bs t] sys_read_all [OF rd]
          by (auto simp: rio_fill_steps fill_post_def rio_ok_def rio_pending_def)
      qed
    next
      case IntrErr
      have "rio_fill (rp\<lparr>rio_cnt := -1\<rparr>) t = (x, rp1, s1)"
        using 1(3) rd IntrErr le by (simp add: rio_fill_steps)
      from 1(1) [OF False rd [symmetric] IntrErr _ this] show ?thesis
        using raw.intr [OF _ pos, of s t] rd IntrErr le sys_read_all [OF rd]
        by (auto simp: fill_post_def rio_ok_def rio_pending_def split: option.splits)
    next
      case OtherErr
      then show ?thesis using 1(3) rd le raw.fail [OF _ pos, of s t] clean_avail [of s] sys_read_all [OF rd]
        by (auto simp: rio_fill_steps fill_post_def rio_ok_def rio_pending_nonpos)
    qed
  qed
qed

text \<open>\<open>rio_read\<close> seen as a reader of the unread bytes followed by those of the descriptor.\<close>

definition rio_rd :: "nat \<Rightarrow> rio_t \<times> read_ev list \<Rightarrow> read_res \<times> rio_t \<times> read_ev list" where
  "rio_rd n = (\<lambda>(rp, s). case rio_read n rp s of (r, bs, rp1, s1) \<Rightarrow>
     (if r < 0 then OtherErr else Bytes bs, rp1, s1))"

definition rio_content :: "rio_t \<times> read_ev list \<Rightarrow> char list" where
  "rio_content = (\<lambda>(rp, s). rio_pending rp @ avail s)"

text \<open>A call of \<open>rio_read\<close> for at least one byte, by what the reader has.\<close>

lemma rio_read_cases:
  assumes "rio_ok rp" "0 < n" "rio_read n rp s = (r, bs, rp1, s1)"
  shows "rio_ok rp1 \<and>
     (bs \<noteq> [] \<and> r = int (length bs) \<and> length bs \<le> n \<and>
        rio_pending rp @ avail s = bs @ rio_pending rp1 @ avail s1 \<and> breaks s1 = breaks s \<or>
      bs = [] \<and> r = (if breaks s then -1 else 0) \<and> rio_pending rp = [] \<and> avail s = [] \<and>
        (clean s \<longrightarrow> rio_pending rp1 = [] \<and> s1 = [])) \<and> (clean s \<longrightarrow> clean s1)"
proof -
  obtain x rp0 s0 where f: "rio_fill rp s = (x, rp0, s0)" by (metis prod_cases3)
  note post = rio_fill_post [OF assms(1) f]
  show ?thesis
  proof (cases x)
    case None
    have cnt: "0 < rio_cnt rp0" "rio_bufptr rp0 + nat (rio_cnt rp0) \<le> length (rio_buf rp0)"
      and cont: "rio_pending rp @ avail s = rio_pending rp0 @ avail s0" "breaks s0 = breaks s"
        "clean s \<longrightarrow> clean s0"
      using post None by (auto simp: fill_post_def rio_ok_def)
    define k where "k = min (nat (rio_cnt rp0)) n"
    have k: "(if rio_cnt rp0 < int n then rio_cnt rp0 else int n) = int k" "0 < k"
      using cnt assms(2) by (auto simp: k_def)
    have eqs: "r = int k" "bs = take k (drop (rio_bufptr rp0) (rio_buf rp0))" "s1 = s0"
      "rp1 = rp0\<lparr>rio_bufptr := rio_bufptr rp0 + k, rio_cnt := rio_cnt rp0 - int k\<rparr>"
      using assms(3) f None k(1) by (auto simp: rio_read_def Let_def)
    have len: "length bs = k" using cnt eqs by (simp add: k_def)
    have left: "nat (rio_cnt rp0 - int k) = nat (rio_cnt rp0) - k" and le: "k \<le> nat (rio_cnt rp0)" "k \<le> n"
      by (simp_all add: k_def)
    have "rio_pending rp0 = bs @ rio_pending rp1"
      using take_add [of k "nat (rio_cnt rp0) - k" "drop (rio_bufptr rp0) (rio_buf rp0)"] left le
      unfolding eqs rio_pending_def by (simp add: add.commute)
    moreover have "rio_ok rp1"
      using cnt(2) left le unfolding eqs rio_ok_def by auto
    moreover have "bs \<noteq> []" "r = int (length bs)" "length bs \<le> n"
      using len k(2) le eqs(1) by auto
    ultimately show ?thesis using cont eqs(3) by simp
  next
    case (Some v)
    then show ?thesis using post f assms(3) by (auto simp: rio_read_def fill_post_def)
  qed
qed

interpretation lib: steady_reader rio_rd rio_content "\<lambda>(rp, s). breaks s" "\<lambda>(rp, s). rio_ok rp"
proof (unfold_locales, goal_cases)
  case (1 s n bs s')
  then show ?case
    using rio_read_cases [of "fst s" n "snd s"]
    by (fastforce simp: rio_rd_def rio_content_def split: prod.splits if_splits)
next
  case (2 s n s')
  then show ?case
    using rio_read_cases [of "fst s" n "snd s"]
    by (fastforce simp: rio_rd_def rio_content_def split: prod.splits if_splits)
next
  case (3 s n s')
  then show ?case by (auto simp: rio_rd_def split: prod.splits if_splits)
next
  case (4 s n s')
  then show ?case
    using rio_read_cases [of "fst s" n "snd s"]
    by (fastforce simp: rio_rd_def rio_content_def split: prod.splits if_splits)
next
  case (5 s n s')
  then show ?case by (auto simp: rio_rd_def split: prod.splits if_splits)
qed

section \<open>Lines\<close>

text \<open>The line a text starts with: up to its first newline, or \<open>k\<close> bytes, or all of it.\<close>

fun cut_line :: "nat \<Rightarrow> char list \<Rightarrow> char list" where
  "cut_line 0 xs = []"
| "cut_line (Suc k) [] = []"
| "cut_line (Suc k) (x # xs) = (if x = CHR 0x0A then [x] else x # cut_line k xs)"

lemma cut_line_length: "length (cut_line k xs) \<le> k"
  by (induction k xs rule: cut_line.induct) auto

lemma cut_line_take: "cut_line k xs = take (length (cut_line k xs)) xs"
  by (induction k xs rule: cut_line.induct) auto

lemma cut_line_append: "cut_line k xs @ drop (length (cut_line k xs)) xs = xs"
  by (metis append_take_drop_id cut_line_take)

lemma cut_line_ne: "0 < k \<Longrightarrow> xs \<noteq> [] \<Longrightarrow> cut_line k xs \<noteq> []"
  by (cases "(k, xs)" rule: cut_line.cases) auto

definition ends_line :: "char list \<Rightarrow> bool" where
  "ends_line xs \<longleftrightarrow> xs \<noteq> [] \<and> last xs = CHR 0x0A"

lemma ends_line_simps [simp]:
  "\<not> ends_line []"
  "ends_line (x # xs) \<longleftrightarrow> (if xs = [] then x = CHR 0x0A else ends_line xs)"
  by (auto simp: ends_line_def)

lemma cut_line_all:
  "\<not> ends_line (cut_line k xs) \<Longrightarrow> length (cut_line k xs) < k \<Longrightarrow> cut_line k xs = xs"
proof (induction k xs rule: cut_line.induct)
  case (3 k x xs)
  then show ?case by (cases "cut_line k xs = []") (auto split: if_splits)
qed auto

text \<open>What the loop returns for the line \<open>l\<close>, of at most \<open>k\<close> bytes, from counter \<open>n\<close> on.\<close>

definition line_result :: "nat \<Rightarrow> nat \<Rightarrow> char list \<Rightarrow> bool \<Rightarrow> int \<times> char list" where
  "line_result n k l broken =
     (if ends_line l then (int (n + length l - 1), l @ [CHR 0x00])
      else if length l = k then (int (n + k), l @ [CHR 0x00])
      else if broken then (-1, l)
      else if n = 1 \<and> l = [] then (0, l)
      else (int (n + length l), l @ [CHR 0x00]))"

lemma readline_steps:
  "\<not> n < maxlen \<Longrightarrow> readline_loop maxlen n stored rp s = (int n, stored @ [CHR 0x00], rp, s)"
  "n < maxlen \<Longrightarrow> rio_read 1 rp s = (1, [CHR 0x0A], rp1, s1) \<Longrightarrow>
     readline_loop maxlen n stored rp s = (int n, stored @ [CHR 0x0A, CHR 0x00], rp1, s1)"
  "n < maxlen \<Longrightarrow> rio_read 1 rp s = (1, [c], rp1, s1) \<Longrightarrow> c \<noteq> CHR 0x0A \<Longrightarrow>
     readline_loop maxlen n stored rp s = readline_loop maxlen (Suc n) (stored @ [c]) rp1 s1"
  "n < maxlen \<Longrightarrow> rio_read 1 rp s = (0, bs, rp1, s1) \<Longrightarrow>
     readline_loop maxlen n stored rp s =
       (if n = 1 then (0, stored, rp1, s1) else (int n, stored @ [CHR 0x00], rp1, s1))"
  "n < maxlen \<Longrightarrow> rio_read 1 rp s = (-1, bs, rp1, s1) \<Longrightarrow>
     readline_loop maxlen n stored rp s = (-1, stored, rp1, s1)"
  by (subst readline_loop.simps; simp)+

lemma rio_rd_read:
  "rio_rd 1 (rp, s) = (Bytes [c], rp1, s1) \<Longrightarrow> rio_ok rp \<Longrightarrow> rio_read 1 rp s = (1, [c], rp1, s1)"
  "rio_rd 1 (rp, s) = (Bytes [], rp1, s1) \<Longrightarrow> rio_ok rp \<Longrightarrow> rio_read 1 rp s = (0, [], rp1, s1)"
  "rio_rd 1 (rp, s) = (OtherErr, rp1, s1) \<Longrightarrow> rio_ok rp \<Longrightarrow> rio_read 1 rp s = (-1, [], rp1, s1)"
  using rio_read_cases [of rp 1 s]
  by (fastforce simp: rio_rd_def split: prod.splits if_splits)+

lemma line_result_Cons:
  assumes "x \<noteq> CHR 0x0A" "1 \<le> n"
  shows "line_result n (Suc k) (x # l) broken =
     (fst (line_result (Suc n) k l broken), x # snd (line_result (Suc n) k l broken))"
  using assms by (cases l) (auto simp: line_result_def)

definition line_post ::
  "nat \<Rightarrow> nat \<Rightarrow> rio_t \<Rightarrow> read_ev list \<Rightarrow> int \<times> char list \<times> rio_t \<times> read_ev list \<Rightarrow> bool" where
  "line_post n k rp s = (\<lambda>(r, out, rp1, s1).
     let l = cut_line k (rio_content (rp, s)) in
     (r, out) = line_result n k l (breaks s) \<and> rio_ok rp1 \<and>
     (ends_line l \<or> length l = k \<or> clean s \<longrightarrow>
        rio_content (rp1, s1) = drop (length l) (rio_content (rp, s)) \<and> breaks s1 = breaks s))"

lemma line_post_Cons:
  assumes "c \<noteq> CHR 0x0A" "1 \<le> n" "rio_content (rp, s) = c # rio_content (rp1, s1)" "breaks s1 = breaks s"
    and cl: "clean s \<longrightarrow> clean s1"
    and post: "line_post (Suc n) k rp1 s1 (r, out, rp2, s2)"
  shows "line_post n (Suc k) rp s (r, c # out, rp2, s2)"
proof -
  let ?l = "cut_line k (rio_content (rp1, s1))"
  have "line_result (Suc n) k ?l (breaks s) = (r, out)" "rio_ok rp2"
    "ends_line ?l \<or> length ?l = k \<or> clean s1 \<longrightarrow> rio_content (rp2, s2) = drop (length ?l) (rio_content (rp1, s1)) \<and>
       breaks s2 = breaks s1"
    using assms(4) post by (auto simp: line_post_def Let_def)
  then show ?thesis
    using assms(1-4) cl by (simp add: line_post_def Let_def line_result_Cons)
qed

lemma readline_loop_spec:
  assumes "rio_ok rp" "1 \<le> n" "n + k = max n maxlen"
  shows "\<exists>out r rp1 s1. readline_loop maxlen n stored rp s = (r, stored @ out, rp1, s1) \<and>
     line_post n k rp s (r, out, rp1, s1)"
  using assms
proof (induction k arbitrary: n stored rp s)
  case 0
  then have "\<not> n < maxlen" by auto
  with 0 show ?case
    by (simp add: readline_steps line_post_def line_result_def Let_def)
next
  case (Suc k)
  then have n: "n < maxlen" by auto
  show ?case
  proof (cases "rio_content (rp, s)")
    case Nil
    from Nil obtain rp1 s1
      where "rio_rd 1 (rp, s) = (if breaks s then OtherErr else Bytes [], rp1, s1)" "rio_ok rp1"
      using lib.no_byte [of "(rp, s)"] Suc.prems(1) by auto
    then have "rio_read 1 rp s = (if breaks s then -1 else 0, [], rp1, s1)"
      using rio_rd_read Suc.prems(1) by (auto split: if_splits)
    moreover from rio_read_cases [OF Suc.prems(1) _ this]
    have "clean s \<longrightarrow> rio_content (rp1, s1) = [] \<and> \<not> breaks s \<and> \<not> breaks s1"
      using clean_avail [of s] clean_avail [of s1] by (auto simp: rio_content_def)
    ultimately show ?thesis using n Nil \<open>rio_ok rp1\<close> Suc.prems
      by (cases "breaks s") (auto simp: readline_steps line_post_def line_result_def)
  next
    case (Cons c cs)
    from Cons obtain rp1 s1 where rd: "rio_rd 1 (rp, s) = (Bytes [c], rp1, s1)" and
      st: "rio_content (rp1, s1) = cs" "breaks s1 = breaks s" "rio_ok rp1"
      using lib.one_byte [of "(rp, s)" c cs] Suc.prems(1) by auto
    have read: "rio_read 1 rp s = (1, [c], rp1, s1)"
      using rio_rd_read(1) [OF rd Suc.prems(1)] .
    have cl: "clean s \<longrightarrow> clean s1" using rio_read_cases [OF Suc.prems(1) _ read] by simp
    show ?thesis
    proof (cases "c = CHR 0x0A")
      case True
      then show ?thesis using n read st Cons
        by (auto simp: readline_steps line_post_def line_result_def)
    next
      case False
      obtain out r rp2 s2 where
        "readline_loop maxlen (Suc n) (stored @ [c]) rp1 s1 = (r, (stored @ [c]) @ out, rp2, s2)"
        "line_post (Suc n) k rp1 s1 (r, out, rp2, s2)"
        using Suc.IH [of rp1 "Suc n" "stored @ [c]" s1] st(3) Suc.prems n by auto
      then show ?thesis
        using n read False st Cons cl Suc.prems(2) line_post_Cons [of c n rp s rp1 s1 k r out rp2 s2]
        by (intro exI [of _ "c # out"] exI [of _ r] exI [of _ rp2] exI [of _ s2])
          (auto simp: readline_steps)
    qed
  qed
qed

lemma rio_readlineb_post:
  assumes "rio_ok rp" "0 < maxlen"
  shows "line_post 1 (maxlen - 1) rp s (rio_readlineb maxlen rp s)"
  using readline_loop_spec [of rp 1 "maxlen - 1" maxlen "[]" s] assms
  by (auto simp: rio_readlineb_def)

lemma rio_readlineb_cases:
  fixes s :: "read_ev list"
  assumes "rio_ok rp" "0 < maxlen"
  defines "inp \<equiv> rio_pending rp @ avail s"
  defines "l \<equiv> cut_line (maxlen - 1) inp"
  shows "case rio_readlineb maxlen rp s of (r, out, rp1, s1) \<Rightarrow>
     rio_ok rp1 \<and> length out \<le> maxlen \<and>
     (if ends_line l then r = int (length l) \<and> out = l @ [CHR 0x00]
      else if length l = maxlen - 1 then r = int (length l + 1) \<and> out = l @ [CHR 0x00]
      else l = inp \<and>
        (if breaks s then r = -1 \<and> out = l
         else if l = [] then r = 0 \<and> out = []
         else r = int (length l + 1) \<and> out = l @ [CHR 0x00])) \<and>
     (ends_line l \<or> length l = maxlen - 1 \<or> clean s \<longrightarrow> rio_pending rp1 @ avail s1 = drop (length l) inp)"
proof -
  have len: "length l \<le> maxlen - 1" by (simp add: l_def cut_line_length)
  have all: "\<not> ends_line l \<Longrightarrow> length l \<noteq> maxlen - 1 \<Longrightarrow> l = inp"
    using cut_line_all [of "maxlen - 1" inp] len by (simp add: l_def)
  obtain r out rp1 s1 where eq: "rio_readlineb maxlen rp s = (r, out, rp1, s1)"
    by (metis prod_cases4)
  have "line_post 1 (maxlen - 1) rp s (r, out, rp1, s1)"
    using rio_readlineb_post [OF assms(1,2), of s] eq by simp
  then have "(r, out) = line_result 1 (maxlen - 1) l (breaks s)" "rio_ok rp1"
    "ends_line l \<or> length l = maxlen - 1 \<or> clean s \<Longrightarrow> rio_pending rp1 @ avail s1 = drop (length l) inp"
    by (auto simp: line_post_def rio_content_def l_def inp_def Let_def)
  then show ?thesis using eq all len assms(2)
    by (auto simp: line_result_def split: if_splits)
qed

text \<open>
  C29. \<open>rio_readlineb\<close> cuts the stream into lines whatever its pieces are, and never
  stores more than \<open>maxlen\<close> bytes. A line with its newline is returned with its length; but a
  line cut at \<open>maxlen - 1\<close> bytes, and a last one without newline, are returned with
  their length plus one. Only an empty stream gives 0, and a failure -1, with no
  terminating zero stored.
\<close>

theorem rio_readlineb_spec:
  assumes "rio_ok rp" "0 < maxlen"
  shows "let inp = rio_pending rp @ avail s; l = cut_line (maxlen - 1) inp in
     case rio_readlineb maxlen rp s of (r, out, rp1, s1) \<Rightarrow>
       rio_ok rp1 \<and> length out \<le> maxlen \<and>
       (if ends_line l then r = int (length l) \<and> out = l @ [CHR 0x00]
        else if length l = maxlen - 1 then r = int (length l + 1) \<and> out = l @ [CHR 0x00]
        else l = inp \<and>
          (if breaks s then r = -1 \<and> out = l
           else if l = [] then r = 0 \<and> out = []
           else r = int (length l + 1) \<and> out = l @ [CHR 0x00])) \<and>
       (ends_line l \<or> length l = maxlen - 1 \<or> clean s \<longrightarrow> rio_pending rp1 @ avail s1 = drop (length l) inp)"
  unfolding Let_def by (rule rio_readlineb_cases [OF assms])

theorem rio_readlineb_spec_witness:
  "(case rio_readlineb 9 (rio_init 5 \<lparr>rio_fd = 0, rio_cnt = 0, rio_bufptr = 0, rio_buf = []\<rparr>)
       [Data ''a'', Interrupted, Data ''b''] of (r, out, _) \<Rightarrow> r = 3 \<and> out = ''ab'' @ [CHR 0x00])"
proof -
  have ne: "\<not> ends_line (cut_line 8 ''ab'')" "cut_line 8 ''ab'' = ''ab''"
    by (simp_all add: numeral_nat)
  show ?thesis
    using rio_readlineb_spec [of "rio_init 5 \<lparr>rio_fd = 0, rio_cnt = 0, rio_bufptr = 0, rio_buf = []\<rparr>" 9
      "[Data ''a'', Interrupted, Data ''b'']"] ne
    by (auto simp: Let_def split: prod.splits)
qed

section \<open>Progress\<close>

text \<open>How much a reader can still do: its unread bytes, and the bytes and events of the script.\<close>

fun script_size :: "read_ev list \<Rightarrow> nat" where
  "script_size [] = 0"
| "script_size (Data bs # s) = Suc (length bs + script_size s)"
| "script_size (_ # s) = Suc (script_size s)"

definition rio_work :: "rio_t \<Rightarrow> read_ev list \<Rightarrow> nat" where
  "rio_work rp s = nat (rio_cnt rp) + script_size s"

lemma sys_read_size:
  "sys_read n s = (x, t) \<Longrightarrow> 0 < n \<Longrightarrow>
     (case x of Bytes bs \<Rightarrow> length bs | _ \<Rightarrow> 1) + script_size t \<le> script_size s"
  by (induction n s rule: sys_read.induct) (auto split: if_splits)

lemma rio_fill_work:
  "rio_fill rp s = (x, rp1, s1) \<Longrightarrow>
     rio_work rp1 s1 + (if x = Some (-1) then 1 else 0) \<le> rio_work rp s \<and>
     (x = None \<longrightarrow> 0 < rio_cnt rp1) \<and> x \<in> {None, Some 0, Some (-1)} \<and> (clean s \<longrightarrow> clean s1)"
proof (induction rp s rule: rio_fill.induct)
  case (1 rp s)
  obtain y t where rd: "sys_read RIO_BUFSIZE s = (y, t)" by fastforce
  have pos: "0 < RIO_BUFSIZE" by (simp add: RIO_BUFSIZE_def)
  note size = sys_read_size [OF rd pos] sys_read_all [OF rd]
  show ?case
  proof (cases "0 < rio_cnt rp")
    case True
    then show ?thesis using 1(2) by (auto simp: rio_fill_steps)
  next
    case False
    then have le: "rio_cnt rp \<le> 0" by simp
    show ?thesis
    proof (cases y)
      case (Bytes bs)
      then show ?thesis using 1(2) rd le size
        by (cases "bs = []") (auto simp: rio_fill_steps rio_work_def)
    next
      case IntrErr
      have "rio_fill (rp\<lparr>rio_cnt := -1\<rparr>) t = (x, rp1, s1)"
        using 1(2) rd IntrErr le by (simp add: rio_fill_steps)
      from 1(1) [OF False rd [symmetric] IntrErr this] show ?thesis
        using size IntrErr le by (auto simp: rio_work_def)
    next
      case OtherErr
      then show ?thesis using 1(2) rd le size by (auto simp: rio_fill_steps rio_work_def)
    qed
  qed
qed

lemma rio_read_work:
  assumes "rio_read 1 rp s = (r, bs, rp1, s1)"
  shows "rio_work rp1 s1 + (if r = 0 then 0 else 1) \<le> rio_work rp s \<and> (clean s \<longrightarrow> clean s1)"
proof -
  obtain x rp0 s0 where f: "rio_fill rp s = (x, rp0, s0)" by (metis prod_cases3)
  from rio_fill_work [OF f] show ?thesis
    using assms f by (cases x) (auto simp: rio_read_def rio_work_def Let_def split: if_splits)
qed

lemma readline_loop_work:
  "readline_loop maxlen n stored rp s = (r, out, rp1, s1) \<Longrightarrow>
     rio_work rp1 s1 \<le> rio_work rp s \<and> (clean s \<longrightarrow> clean s1) \<and>
     (1 \<le> n \<longrightarrow> n < maxlen \<longrightarrow> r \<noteq> 0 \<longrightarrow> n = 1 \<longrightarrow> rio_work rp1 s1 < rio_work rp s)"
proof (induction maxlen n stored rp s rule: readline_loop.induct)
  case (1 maxlen n stored rp s)
  obtain rc bs rp0 s0 where rd: "rio_read 1 rp s = (rc, bs, rp0, s0)" by (metis prod_cases4)
  note work = rio_read_work [OF rd]
  show ?case
  proof (cases "n < maxlen \<and> rc = 1 \<and> bs \<noteq> [CHR 0x0A]")
    case True
    then have "readline_loop maxlen (Suc n) (stored @ bs) rp0 s0 = (r, out, rp1, s1)"
      using 1(2) rd by (subst (asm) readline_loop.simps) simp
    from 1(1) [OF _ rd [symmetric] _ refl _ _ this] show ?thesis using True work by auto
  next
    case False
    then show ?thesis using 1(2) rd work
      by (subst (asm) readline_loop.simps) (auto split: if_splits)
  qed
qed

lemma rio_readlineb_work:
  assumes "rio_readlineb maxlen rp s = (r, out, rp1, s1)"
  shows "clean s \<Longrightarrow> clean s1"
    and "1 < maxlen \<Longrightarrow> r \<noteq> 0 \<Longrightarrow> rio_work rp1 s1 < rio_work rp s"
  using readline_loop_work [of maxlen 1 "[]" rp s r out rp1 s1] assms by (auto simp: rio_readlineb_def)

lemma rio_readn_loop_all:
  "rio_readn_loop n nleft stored s = (r, out, s') \<Longrightarrow>
     stored @ all_bytes s = out @ all_bytes s' \<and> (clean s \<longrightarrow> clean s')"
proof (induction n nleft stored s rule: rio_readn_loop.induct)
  case (1 n nleft stored s)
  obtain x t where rd: "sys_read nleft s = (x, t)" by fastforce
  note all = sys_read_all [OF rd]
  show ?case
  proof (cases "nleft = 0")
    case True
    then show ?thesis using 1(3) by (auto simp: rio_readn_loop_steps)
  next
    case pos: False
    show ?thesis
    proof (cases x)
      case (Bytes bs)
      show ?thesis
      proof (cases "bs = []")
        case True
        then show ?thesis using 1(3) pos rd Bytes all by (auto simp: rio_readn_loop_steps)
      next
        case False
        then have "rio_readn_loop n (nleft - length bs) (stored @ bs) t = (r, out, s')"
          using 1(3) pos rd Bytes by (simp add: rio_readn_loop_steps)
        from 1(1) [OF pos rd [symmetric] Bytes False this] show ?thesis using all Bytes by simp
      qed
    next
      case IntrErr
      then have "rio_readn_loop n nleft stored t = (r, out, s')"
        using 1(3) pos rd by (simp add: rio_readn_loop_steps)
      from 1(2) [OF pos rd [symmetric] IntrErr this] show ?thesis using all IntrErr by simp
    next
      case OtherErr
      then show ?thesis using 1(3) pos rd all by (auto simp: rio_readn_loop_steps)
    qed
  qed
qed

lemma rio_readn_clean:
  assumes "clean s"
  obtains s' where "rio_readn n s = (int (length (take n (all_bytes s))), take n (all_bytes s), s')"
    "all_bytes s' = drop n (all_bytes s)" "clean s'"
proof -
  obtain r out s' where eq: "rio_readn n s = (r, out, s')" by (metis prod_cases3)
  have "out = take n (all_bytes s)" "r = int (length out)"
    using rio_readn_loop_spec [of n n "[]" s r out s'] eq clean_avail [OF assms]
    by (auto simp: rio_readn_def)
  moreover have "all_bytes s = out @ all_bytes s'" "clean s'"
    using rio_readn_loop_all [of n n "[]" s r out s'] eq assms by (auto simp: rio_readn_def)
  ultimately show thesis using eq that by (metis append_take_drop_id same_append_eq)
qed

text \<open>A descriptor that neither fails nor returns 0 takes everything.\<close>

definition takes_all :: "write_ev list \<Rightarrow> bool" where
  "takes_all ws \<longleftrightarrow> WFail \<notin> set ws \<and> Wrote 0 \<notin> set ws"

lemma rio_writen_loop_rest:
  "rio_writen_loop n todo out intr ws = (r, out', intr', ws') \<Longrightarrow> set ws' \<subseteq> set ws"
  by (induction n todo out intr ws rule: rio_writen_loop.induct)
    (auto split: if_splits write_ev.splits)

lemma rio_writen_takes_all:
  assumes "takes_all ws"
  obtains intr' ws' where "rio_writen data intr ws = (int (length data), data, intr', ws')" "takes_all ws'"
proof -
  obtain r out intr' ws' where eq: "rio_writen data intr ws = (r, out, intr', ws')" by (metis prod_cases4)
  have "r = int (length data) \<and> out = data"
    using rio_writen_loop_spec [of "length data" data "[]" intr ws r out intr' ws'] eq assms
    by (auto simp: rio_writen_def takes_all_def)
  moreover have "takes_all ws'"
    using rio_writen_loop_rest [of "length data" data "[]" intr ws r out intr' ws'] eq assms
    by (auto simp: rio_writen_def takes_all_def)
  ultimately show thesis using eq that by blast
qed

lemma cut_line_butlast: "CHR 0x0A \<notin> set (butlast (cut_line k xs))"
  by (induction k xs rule: cut_line.induct) auto

end
