(* ===== verification/Http.thy ===== *)
theory Http
  imports StdLib Rio
begin

text \<open>
  Requests and responses of the HTTP server (the functions \<open>read_requesthdrs\<close>, \<open>get_filetype\<close>
  and \<open>serve_static\<close> of src/net/http_data.cpp). A C array is a list of its bytes; what is
  printed to the standard output is left out, but printing a buffer without a terminating
  zero is a fault.
\<close>

section \<open>C strings\<close>

definition MAXLINE :: nat where
  "MAXLINE = 1024"

definition crlf :: "char list" where
  "crlf = [CHR 0x0D, CHR 0x0A]"

text \<open>\<open>strcmp\<close> of a buffer and CR LF is zero.\<close>

definition is_crlf :: "char list \<Rightarrow> bool" where
  "is_crlf buf \<longleftrightarrow> take 3 buf = crlf @ [CHR 0x00]"

text \<open>Bytes written to a buffer from its start.\<close>

definition store :: "char list \<Rightarrow> char list \<Rightarrow> char list" where
  "store buf out = out @ drop (length out) buf"

definition strstr :: "char list \<Rightarrow> char list \<Rightarrow> bool" where
  "strstr s pat \<longleftrightarrow> std_search s pat < length s \<or> pat = []"

section \<open>Requests\<close>

text \<open>
  \<open>read_requesthdrs\<close>: the first result of \<open>rio_readlineb\<close> is ignored, and so is a failure
  inside of the loop. \<open>junk\<close> is the uninitialised buffer.
\<close>

function hdr_loop :: "char list \<Rightarrow> rio_t \<Rightarrow> read_ev list \<Rightarrow> (int \<times> rio_t \<times> read_ev list) res" where
  "hdr_loop buf rp s =
     (if is_crlf buf then Inr (0, rp, s)
      else case rio_readlineb MAXLINE rp s of (r, out, rp1, s1) \<Rightarrow>
        if r = 0 then Inr (1, rp1, s1)
        else if CHR 0x00 \<in> set (store buf out) then hdr_loop (store buf out) rp1 s1
        else Inl OutOfBounds)"
  by pat_completeness auto

termination hdr_loop
  by (relation "measure (\<lambda>(buf, rp, s). rio_work rp s)")
    (auto simp: MAXLINE_def intro: rio_readlineb_work(2) [OF sym])

declare hdr_loop.simps [simp del]

definition read_requesthdrs ::
  "char list \<Rightarrow> rio_t \<Rightarrow> read_ev list \<Rightarrow> (int \<times> rio_t \<times> read_ev list) res" where
  "read_requesthdrs junk rp s =
     (case rio_readlineb MAXLINE rp s of (_, out, rp1, s1) \<Rightarrow> hdr_loop (store junk out) rp1 s1)"

section \<open>Responses\<close>

definition get_filetype :: "char list \<Rightarrow> char list" where
  "get_filetype filename =
     (if strstr filename ''.html'' then ''text/html''
      else if strstr filename ''.gif'' then ''image/gif''
      else if strstr filename ''.png'' then ''image/png''
      else if strstr filename ''image/jpeg'' then ''image/jpeg''
      else if strstr filename ''.mp4'' then ''video/mp4''
      else ''text/plain'')"

text \<open>
  The head of a response. Each \<open>sprintf(buf, "%s...", buf)\<close> copies the buffer onto itself
  and appends; the C standard leaves such an overlap undefined, and this is what
  the C library does when it writes its output in order.
\<close>

definition response_head :: "char list \<Rightarrow> int \<Rightarrow> char list" where
  "response_head filetype filesize =
     ''HTTP/1.0 200 OK'' @ crlf @ ''Server: Tiny Web Server'' @ crlf @ ''Connection: close'' @ crlf @
     ''Content-length: '' @ decimal filesize @ crlf @ ''Content-type: '' @ filetype @ crlf @ crlf"

text \<open>
  The copying loop of \<open>serve_static\<close> with \<open>fuel\<close>: None when it is still running. \<open>src\<close> is the
  script of the opened file, or None when \<open>open\<close> has failed and every read of descriptor
  -1 fails; \<open>errs k\<close> says whether \<open>errno\<close> is EINTR before the \<open>k\<close>-th write. The results of
  \<open>rio_writen\<close> are ignored. The last result is all the socket has taken.
\<close>

definition read_block :: "read_ev list option \<Rightarrow> int \<times> char list \<times> read_ev list option" where
  "read_block src =
     (case src of None \<Rightarrow> (-1, [], None)
      | Some s \<Rightarrow> (case rio_readn MAXLINE s of (r, out, s1) \<Rightarrow> (r, out, Some s1)))"

fun serve_loop ::
  "nat \<Rightarrow> nat \<Rightarrow> (nat \<Rightarrow> bool) \<Rightarrow> read_ev list option \<Rightarrow> char list \<Rightarrow> write_ev list \<Rightarrow> char list \<Rightarrow>
   (char list \<times> write_ev list) option" where
  "serve_loop 0 k errs src buf ws sent = None"
| "serve_loop (Suc fuel) k errs src buf ws sent =
     (case read_block src of (r, out, src1) \<Rightarrow>
        let buf1 = store buf out in
        if r = 0 then Some (sent, ws)
        else case rio_writen (take MAXLINE buf1) (errs k) ws of (_, w, _, ws1) \<Rightarrow>
          serve_loop fuel (Suc k) errs src1 buf1 ws1 (sent @ w))"

definition serve_static ::
  "nat \<Rightarrow> (nat \<Rightarrow> bool) \<Rightarrow> char list \<Rightarrow> char list \<Rightarrow> int \<Rightarrow> read_ev list option \<Rightarrow> write_ev list \<Rightarrow>
   (char list \<times> write_ev list) option" where
  "serve_static fuel errs junk filename filesize src ws =
     (let head = response_head (get_filetype filename) filesize;
          buf = store junk (head @ [CHR 0x00])
      in case rio_writen head (errs 0) ws of (_, w, _, ws1) \<Rightarrow> serve_loop fuel 1 errs src buf ws1 w)"

section \<open>Reading a request\<close>

text \<open>The text of a connection in the pieces \<open>rio_readlineb\<close> makes of it.\<close>

function split_lines :: "char list \<Rightarrow> char list list" where
  "split_lines inp =
     (if inp = [] then []
      else cut_line (MAXLINE - 1) inp # split_lines (drop (length (cut_line (MAXLINE - 1) inp)) inp))"
  by pat_completeness auto

lemma first_line_ne: "inp \<noteq> [] \<Longrightarrow> cut_line (MAXLINE - 1) inp \<noteq> []"
  by (simp add: cut_line_ne MAXLINE_def)

termination split_lines
  by (relation "measure length") (use first_line_ne in auto)

declare split_lines.simps [simp del]

lemma split_lines_simps:
  "split_lines [] = []"
  "inp \<noteq> [] \<Longrightarrow> split_lines inp =
     cut_line (MAXLINE - 1) inp # split_lines (drop (length (cut_line (MAXLINE - 1) inp)) inp)"
  by (subst split_lines.simps; simp)+

lemma concat_split_lines: "concat (split_lines inp) = inp"
proof (induction inp rule: split_lines.induct)
  case (1 inp)
  show ?case
  proof (cases "inp = []")
    case True
    then show ?thesis by (simp add: split_lines_simps(1))
  next
    case False
    then show ?thesis using 1 split_lines_simps(2) [OF False] by (simp add: cut_line_append)
  qed
qed

lemma is_crlf_line:
  assumes "l = cut_line k inp"
  shows "is_crlf (store buf (l @ [CHR 0x00])) \<longleftrightarrow> l = crlf"
proof
  assume "is_crlf (store buf (l @ [CHR 0x00]))"
  then have t: "take 3 (l @ [CHR 0x00] @ drop (Suc (length l)) buf) = [CHR 0x0D, CHR 0x0A, CHR 0x00]"
    by (simp add: is_crlf_def store_def crlf_def)
  have nl: "CHR 0x0A \<notin> set (butlast l)" using cut_line_butlast assms by simp
  show "l = crlf"
  proof (cases l)
    case (Cons a l1)
    with t nl show ?thesis
      by (cases l1; cases "tl l1") (auto simp: crlf_def numeral_3_eq_3)
  qed (use t in auto)
qed (simp add: is_crlf_def store_def crlf_def)

lemma readline_clean:
  assumes "rio_ok rp" "clean s"
  defines "inp \<equiv> rio_pending rp @ avail s"
  defines "l \<equiv> cut_line (MAXLINE - 1) inp"
  obtains r out rp1 s1 where "rio_readlineb MAXLINE rp s = (r, out, rp1, s1)"
    "rio_ok rp1" "clean s1" "rio_pending rp1 @ avail s1 = drop (length l) inp"
    "if inp = [] then r = 0 \<and> out = [] else r \<noteq> 0 \<and> out = l @ [CHR 0x00]"
proof -
  obtain r out rp1 s1 where eq: "rio_readlineb MAXLINE rp s = (r, out, rp1, s1)"
    by (metis prod_cases4)
  have ne: "inp = [] \<longleftrightarrow> l = []" using first_line_ne [of inp] cut_line_take [of "MAXLINE - 1" inp]
    unfolding l_def by auto
  have pos: "0 < MAXLINE" and full: "length l = MAXLINE - 1 \<Longrightarrow> l \<noteq> []" by (auto simp: MAXLINE_def)
  have nb: "\<not> breaks s" using clean_avail assms(2) by simp
  note post = rio_readlineb_cases [OF assms(1) pos, of s, folded inp_def, folded l_def,
      unfolded eq prod.case]
  have "if inp = [] then r = 0 \<and> out = [] else r \<noteq> 0 \<and> out = l @ [CHR 0x00]"
  proof (cases "ends_line l \<or> length l = MAXLINE - 1")
    case True
    then have "l \<noteq> []" using full by auto
    moreover have "r \<noteq> 0 \<and> out = l @ [CHR 0x00]"
      using True post \<open>l \<noteq> []\<close> by (cases "ends_line l") simp_all
    ultimately show ?thesis using ne by simp
  next
    case False
    then show ?thesis using post ne nb by (simp split: if_splits)
  qed
  moreover have "rio_ok rp1" "rio_pending rp1 @ avail s1 = drop (length l) inp"
    using post assms(2) by blast+
  ultimately show thesis using rio_readlineb_work(1) [OF eq assms(2)] eq by (intro that)
qed

definition hdr_post :: "char list list \<Rightarrow> (int \<times> rio_t \<times> read_ev list) res \<Rightarrow> bool" where
  "hdr_post ls x \<longleftrightarrow> (\<exists>rp1 s1. x = Inr (if crlf \<in> set ls then 0 else 1, rp1, s1) \<and>
     (crlf \<in> set ls \<longrightarrow>
        rio_pending rp1 @ avail s1 = concat (tl (dropWhile (\<lambda>l. l \<noteq> crlf) ls))))"

lemma hdr_loop_spec:
  "rio_ok rp \<Longrightarrow> clean s \<Longrightarrow> \<not> is_crlf buf \<Longrightarrow>
     hdr_post (split_lines (rio_pending rp @ avail s)) (hdr_loop buf rp s)"
proof (induction buf rp s rule: hdr_loop.induct)
  case (1 buf rp s)
  define inp where "inp = rio_pending rp @ avail s"
  define l where "l = cut_line (MAXLINE - 1) inp"
  obtain r out rp1 s1 where rd: "rio_readlineb MAXLINE rp s = (r, out, rp1, s1)"
    and st: "rio_ok rp1" "clean s1" "rio_pending rp1 @ avail s1 = drop (length l) inp"
    and out: "if inp = [] then r = 0 \<and> out = [] else r \<noteq> 0 \<and> out = l @ [CHR 0x00]"
    using readline_clean [OF 1(2,3)] unfolding inp_def l_def by blast
  show ?case
  proof (cases "inp = []")
    case True
    then show ?thesis using out rd 1(4)
      by (subst hdr_loop.simps) (simp add: hdr_post_def inp_def [symmetric] split_lines_simps)
  next
    case False
    have r: "r \<noteq> 0" "out = l @ [CHR 0x00]" and nul: "CHR 0x00 \<in> set (store buf out)"
      using False out by (auto simp: store_def)
    have step: "hdr_loop buf rp s = hdr_loop (store buf out) rp1 s1"
      using 1(4) rd r nul by (subst hdr_loop.simps) simp
    have split: "split_lines inp = l # split_lines (rio_pending rp1 @ avail s1)"
      using split_lines_simps(2) [OF False] st(3) by (simp add: l_def)
    have iff: "is_crlf (store buf out) \<longleftrightarrow> l = crlf"
      using is_crlf_line [OF l_def] r by simp
    show ?thesis
    proof (cases "l = crlf")
      case True
      then have "hdr_loop (store buf out) rp1 s1 = Inr (0, rp1, s1)"
        using iff by (subst hdr_loop.simps) simp
      then show ?thesis using step split True
        by (simp add: hdr_post_def inp_def [symmetric] concat_split_lines)
    next
      case False
      have "hdr_post (split_lines (rio_pending rp1 @ avail s1)) (hdr_loop (store buf out) rp1 s1)"
        using 1(1) [OF 1(4) rd [symmetric] refl refl r(1) nul st(1,2)] iff False by simp
      then show ?thesis using step split False
        by (simp add: hdr_post_def inp_def [symmetric])
    qed
  qed
qed

lemma read_requesthdrs_post:
  assumes "rio_ok rp" "clean s" "\<not> is_crlf junk"
  shows "hdr_post (split_lines (rio_pending rp @ avail s)) (read_requesthdrs junk rp s)"
proof -
  define inp where "inp = rio_pending rp @ avail s"
  define l where "l = cut_line (MAXLINE - 1) inp"
  obtain r out rp1 s1 where rd: "rio_readlineb MAXLINE rp s = (r, out, rp1, s1)"
    and st: "rio_ok rp1" "clean s1" "rio_pending rp1 @ avail s1 = drop (length l) inp"
    and out: "if inp = [] then r = 0 \<and> out = [] else r \<noteq> 0 \<and> out = l @ [CHR 0x00]"
    using readline_clean [OF assms(1,2)] unfolding inp_def l_def by blast
  have step: "read_requesthdrs junk rp s = hdr_loop (store junk out) rp1 s1"
    using rd by (simp add: read_requesthdrs_def)
  show ?thesis
  proof (cases "inp = []")
    case True
    then show ?thesis
      using hdr_loop_spec [OF st(1,2) assms(3)] st(3) out step
      by (simp add: inp_def [symmetric] store_def)
  next
    case False
    have split: "split_lines inp = l # split_lines (rio_pending rp1 @ avail s1)"
      using split_lines_simps(2) [OF False] st(3) by (simp add: l_def)
    have iff: "is_crlf (store junk out) \<longleftrightarrow> l = crlf"
      using is_crlf_line [OF l_def] False out by simp
    show ?thesis
    proof (cases "l = crlf")
      case True
      then have "hdr_loop (store junk out) rp1 s1 = Inr (0, rp1, s1)"
        using iff by (subst hdr_loop.simps) simp
      then show ?thesis using step split True
        by (simp add: hdr_post_def inp_def [symmetric] concat_split_lines)
    next
      case ne: False
      with hdr_loop_spec [OF st(1,2), of "store junk out"] iff step split show ?thesis
        by (simp add: hdr_post_def inp_def [symmetric])
    qed
  qed
qed

text \<open>
  C32. \<open>read_requesthdrs\<close> returns on every connection that ends, and with 0 exactly when one of
  the lines is empty, leaving unread what follows the first empty one. The lines are those of
  \<open>rio_readlineb\<close>: a header of 1023 bytes before its CR LF is taken for a header and an empty line.
\<close>

theorem read_requesthdrs_spec:
  assumes "rio_ok rp" "clean s" "\<not> is_crlf junk"
  shows "let ls = split_lines (rio_pending rp @ avail s) in
     \<exists>rp1 s1. read_requesthdrs junk rp s = Inr (if crlf \<in> set ls then 0 else 1, rp1, s1) \<and>
       (crlf \<in> set ls \<longrightarrow>
          rio_pending rp1 @ avail s1 = concat (tl (dropWhile (\<lambda>l. l \<noteq> crlf) ls)))"
  using read_requesthdrs_post [OF assms] by (simp add: hdr_post_def Let_def)

lemma cut_line_numeral:
  "cut_line (numeral n) (x # xs) = (if x = CHR 0x0A then [x] else x # cut_line (pred_numeral n) xs)"
  by (simp add: numeral_eq_Suc)

lemma demo_lines: "split_lines ([CHR ''a''] @ crlf @ crlf @ [CHR ''b'']) = [CHR ''a'' # crlf, crlf, [CHR ''b'']]"
  by (simp add: split_lines_simps MAXLINE_def cut_line_numeral crlf_def) (simp add: numeral_eq_Suc)

theorem read_requesthdrs_spec_witness:
  "\<exists>rp1 s1. read_requesthdrs (replicate MAXLINE (CHR ''x''))
       (rio_init 7 \<lparr>rio_fd = 0, rio_cnt = 0, rio_bufptr = 0, rio_buf = []\<rparr>)
       [Data (CHR ''a'' # crlf), Interrupted, Data (crlf @ [CHR ''b''])] = Inr (0, rp1, s1) \<and>
     rio_pending rp1 @ avail s1 = ''b''"
proof -
  have "\<not> is_crlf (replicate MAXLINE (CHR ''x''))"
    by (simp add: is_crlf_def MAXLINE_def crlf_def numeral_3_eq_3)
  from read_requesthdrs_spec [OF rio_init_ok(1) _ this,
      of "[Data (CHR ''a'' # crlf), Interrupted, Data (crlf @ [CHR ''b''])]" 7]
  show ?thesis
    using demo_lines by (simp add: clean_def crlf_def Let_def)
qed

section \<open>Sending a file\<close>

lemma decimal_bound: "-(2 ^ 31) \<le> i \<Longrightarrow> i < 2 ^ 31 \<Longrightarrow> length (decimal i) \<le> 11"
  by (rule decimal_int_length)

lemma get_filetype_length: "length (get_filetype f) \<le> 10"
  by (simp add: get_filetype_def)

lemma response_head_length:
  assumes "-(2 ^ 31) \<le> filesize" "filesize < 2 ^ 31"
  shows "length (response_head (get_filetype f) filesize) < MAXLINE"
  using decimal_bound [OF assms] get_filetype_length [of f]
  by (simp add: response_head_def crlf_def MAXLINE_def)

lemma store_length: "length out \<le> length buf \<Longrightarrow> length (store buf out) = length buf"
  by (simp add: store_def)

text \<open>What the socket gets for a file with the content \<open>f\<close>: whole buffers, the last one filled up
  with what the buffer held before.\<close>

function blocks :: "char list \<Rightarrow> char list \<Rightarrow> char list" where
  "blocks buf f =
     (if f = [] then []
      else store buf (take MAXLINE f) @ blocks (store buf (take MAXLINE f)) (drop MAXLINE f))"
  by pat_completeness auto

termination blocks
  by (relation "measure (\<lambda>(buf, f). length f)") (auto simp: MAXLINE_def)

declare blocks.simps [simp del]

lemma blocks_simps:
  "blocks buf [] = []"
  "f \<noteq> [] \<Longrightarrow> blocks buf f =
     store buf (take MAXLINE f) @ blocks (store buf (take MAXLINE f)) (drop MAXLINE f)"
  by (subst blocks.simps; simp)+

lemma blocks_content:
  "length buf = MAXLINE \<Longrightarrow>
     take (length f) (blocks buf f) = f \<and>
     length (blocks buf f) = MAXLINE * ((length f + (MAXLINE - 1)) div MAXLINE)"
proof (induction buf f rule: blocks.induct)
  case (1 buf f)
  have pos: "0 < MAXLINE" by (simp add: MAXLINE_def)
  show ?case
  proof (cases "f = []")
    case True
    then show ?thesis using pos by (simp add: blocks_simps(1))
  next
    case False
    let ?b = "store buf (take MAXLINE f)"
    have b: "length ?b = MAXLINE" using 1(2) by (simp add: store_length)
    note ih = 1(1) [OF False b]
    show ?thesis
    proof (cases "length f \<le> MAXLINE")
      case True
      then have "length f + (MAXLINE - 1) = MAXLINE + (length f - 1)" "length f - 1 < MAXLINE"
        using False pos by (cases f; simp)+
      then have "(length f + (MAXLINE - 1)) div MAXLINE = 1"
        using pos div_add_self1 [of MAXLINE "length f - 1"] by (simp only:) simp
      moreover have "take (length f) ?b = f" using True by (simp add: store_def)
      ultimately show ?thesis
        using True b blocks_simps(2) [OF False, of buf] by (simp add: blocks_simps(1))
    next
      case False
      then have ne: "f \<noteq> []" and le: "MAXLINE \<le> length f" by auto
      have "length f + (MAXLINE - 1) = MAXLINE + ((length f - MAXLINE) + (MAXLINE - 1))"
        using le by simp
      then have "(length f + (MAXLINE - 1)) div MAXLINE = Suc ((length f - MAXLINE + (MAXLINE - 1)) div MAXLINE)"
        using pos by (simp only: div_add_self1)
      moreover have "?b = take MAXLINE f" using 1(2) le by (simp add: store_def)
      ultimately show ?thesis using ih b le blocks_simps(2) [OF ne, of buf] by simp
    qed
  qed
qed

lemma serve_loop_blocks:
  "clean s \<Longrightarrow> takes_all ws \<Longrightarrow> length buf = MAXLINE \<Longrightarrow> length (all_bytes s) < fuel \<Longrightarrow>
     \<exists>ws1. serve_loop fuel k errs (Some s) buf ws sent = Some (sent @ blocks buf (all_bytes s), ws1) \<and> takes_all ws1"
proof (induction fuel arbitrary: k s buf ws sent)
  case 0
  then show ?case by simp
next
  case (Suc fuel)
  define f where "f = all_bytes s"
  obtain s1 where rd: "rio_readn MAXLINE s = (int (length (take MAXLINE f)), take MAXLINE f, s1)"
    and s1: "all_bytes s1 = drop MAXLINE f" "clean s1"
    using rio_readn_clean [OF Suc.prems(1)] f_def by blast
  show ?case
  proof (cases "f = []")
    case True
    then show ?thesis using rd Suc.prems(2)
      by (simp add: read_block_def f_def [symmetric] blocks_simps(1) Let_def)
  next
    case False
    let ?b = "store buf (take MAXLINE f)"
    have b: "length ?b = MAXLINE" using Suc.prems(3) by (simp add: store_length)
    obtain intr ws1 where wr: "rio_writen ?b (errs k) ws = (int (length ?b), ?b, intr, ws1)" "takes_all ws1"
      using rio_writen_takes_all [OF Suc.prems(2)] by blast
    have r: "int (length (take MAXLINE f)) \<noteq> 0" using False by (simp add: MAXLINE_def)
    have "serve_loop (Suc fuel) k errs (Some s) buf ws sent = serve_loop fuel (Suc k) errs (Some s1) ?b ws1 (sent @ ?b)"
      using rd wr(1) r b by (simp add: read_block_def Let_def min_def split: if_splits)
    moreover have "length (all_bytes s1) < fuel"
      using s1(1) False Suc.prems(4) by (cases f) (auto simp: f_def MAXLINE_def)
    ultimately show ?thesis
      using Suc.IH [OF s1(2) wr(2) b, of "Suc k" "sent @ ?b"] blocks_simps(2) [OF False, of buf]
      by (simp add: s1(1) f_def [symmetric])
  qed
qed

lemma serve_static_effect:
  assumes "clean s" "takes_all ws" "length junk = MAXLINE" "-(2 ^ 31) \<le> filesize" "filesize < 2 ^ 31"
    and "length (all_bytes s) < fuel"
  shows "\<exists>body ws1. serve_static fuel errs junk filename filesize (Some s) ws =
       Some (response_head (get_filetype filename) filesize @ body, ws1) \<and>
     take (length (all_bytes s)) body = all_bytes s \<and>
     length body = 1024 * ((length (all_bytes s) + 1023) div 1024)"
proof -
  define head where "head = response_head (get_filetype filename) filesize"
  have "length (head @ [CHR 0x00]) \<le> length junk"
    using response_head_length [OF assms(4,5), of filename] assms(3) by (simp add: head_def)
  then have buf: "length (store junk (head @ [CHR 0x00])) = MAXLINE"
    using store_length assms(3) by metis
  obtain intr ws1 where wr: "rio_writen head (errs 0) ws = (int (length head), head, intr, ws1)" "takes_all ws1"
    using rio_writen_takes_all [OF assms(2)] by blast
  obtain ws2 where "serve_loop fuel 1 errs (Some s) (store junk (head @ [CHR 0x00])) ws1 head =
      Some (head @ blocks (store junk (head @ [CHR 0x00])) (all_bytes s), ws2)"
    using serve_loop_blocks [OF assms(1) wr(2) buf assms(6)] by blast
  then show ?thesis
    using wr(1) blocks_content [OF buf, of "all_bytes s"]
    by (simp add: serve_static_def Let_def head_def [symmetric] MAXLINE_def)
qed

text \<open>
  C33. \<open>serve_static\<close> returns once a file that can be read is through, with the head and then the
  file's bytes on the socket, in order and complete, but in whole blocks of 1024 bytes:
  unless the size of the file is a multiple of 1024, more bytes go out than
  \<open>Content-length\<close> announces.
\<close>

theorem serve_static_body:
  assumes "clean s" "takes_all ws" "length junk = MAXLINE" "-(2 ^ 31) \<le> filesize" "filesize < 2 ^ 31"
    and "length (all_bytes s) < fuel"
  shows "\<exists>body ws1. serve_static fuel errs junk filename filesize (Some s) ws =
       Some (response_head (get_filetype filename) filesize @ body, ws1) \<and>
     take (length (all_bytes s)) body = all_bytes s \<and>
     length body = 1024 * ((length (all_bytes s) + 1023) div 1024)"
  by (rule serve_static_effect [OF assms])

theorem serve_static_body_witness:
  "\<exists>body ws1. serve_static 9 (\<lambda>_. True) (replicate MAXLINE (CHR ''x'')) ''a.html'' 2
       (Some [Data ''hi'']) [Wrote 3, WIntr] =
       Some (response_head ''text/html'' 2 @ body, ws1) \<and> take 2 body = ''hi'' \<and> length body = 1024"
proof -
  have t: "get_filetype ''a.html'' = ''text/html''"
    by (simp add: get_filetype_def strstr_def std_search_Cons)
  show ?thesis
    using serve_static_body [of "[Data ''hi'']" "[Wrote 3, WIntr]" "replicate MAXLINE (CHR ''x'')" 2 9
      "\<lambda>_. True" "''a.html''"]
    by (simp add: clean_def takes_all_def t numeral_2_eq_2)
qed

lemma serve_loop_stuck: "serve_loop fuel k errs None buf ws sent = None"
  by (induction fuel arbitrary: k ws buf sent)
    (auto simp: read_block_def Let_def split: prod.splits)

text \<open>
  When the file cannot be opened, \<open>serve_static\<close> never returns: the failing read returns -1,
  which the loop takes for data, and it writes its buffer again and again.
\<close>

theorem serve_static_never_returns:
  "serve_static fuel errs junk filename filesize None ws = None"
  by (simp add: serve_static_def Let_def serve_loop_stuck split: prod.splits)

text \<open>A JPEG file is not recognised by its suffix: only the text \<open>image/jpeg\<close> in the name is.\<close>

lemma filetype_of_jpg: "get_filetype ''home.jpg'' = ''text/plain''"
  by (simp add: get_filetype_def strstr_def std_search_Cons)

end
