(* ===== verification/HttpServer.thy ===== *)
theory HttpServer
  imports EventLoop Sockets Threads Http
begin

text \<open>
  \<open>HttpServer\<close> (src/net/http_server.h, src/net/http_server.cpp) and the class \<open>HttpData\<close>
  (src/net/http_data.h, src/net/http_data.cpp): a listening channel on the main loop and one
  \<open>HttpData\<close> with its channel per accepted connection, on a loop of the pool. A handler
  is \<open>AcceptH\<close>, or one of the two member functions bound to a connection, which is its position
  in the list of all that were made (none is ever deleted); \<open>WakeH\<close> is the one of a loop's wakeup channel.
\<close>

section \<open>State\<close>

datatype http_handler = WakeH | AcceptH | HttpReadH nat | HttpWriteH nat

record http_data =
  hd_loop :: loop_id
  hd_fd :: int
  hd_channel :: chan_ptr

type_synonym 'p http_loop = "(unit, 'p, http_handler) event_loop"

record 'p http_world =
  hw_loops :: "loop_id \<Rightarrow> 'p http_loop"
  hw_main :: loop_id
  hw_pool :: thread_pool
  hw_started :: bool
  hw_accept :: "chan_ptr option"
  hw_port :: int
  hw_listen_fd :: int
  hw_data :: "http_data list"

type_synonym 'p http_env = "('p, http_handler, unit) loop_env"

definition on_loop :: "loop_id \<Rightarrow> ('p http_loop \<Rightarrow> 'p http_loop res) \<Rightarrow> 'p http_world \<Rightarrow> 'p http_world res" where
  "on_loop l f W = bindE (f (hw_loops W l)) (\<lambda>L. Inr (W\<lparr>hw_loops := (hw_loops W)(l := L)\<rparr>))"

definition new_channel :: "http_handler channel \<Rightarrow> 'p http_loop \<Rightarrow> 'p http_loop" where
  "new_channel ch L =
     L\<lparr>el_heap := (el_heap L)(el_next_ptr L := ch), el_next_ptr := Suc (el_next_ptr L)\<rparr>"

text \<open>\<open>setEvent\<close> on a channel and \<open>updateChannel\<close> of the loop it belongs to, from thread \<open>tid\<close>.\<close>

definition set_and_update :: "'p http_env \<Rightarrow> nat \<Rightarrow> chan_ptr \<Rightarrow> 32 word \<Rightarrow> 'p http_loop \<Rightarrow> 'p http_loop res" where
  "set_and_update env tid c e L =
     updateChannel env tid c (L\<lparr>el_heap := on_chan c (setEvent e) (el_heap L)\<rparr>)"

section \<open>Connections\<close>

definition HttpData_ctor :: "32 word \<Rightarrow> loop_id \<Rightarrow> int \<Rightarrow> 'p http_world \<Rightarrow> 'p http_world res" where
  "HttpData_ctor junk l fd W =
     (let i = length (hw_data W);
          ch = setWriteHandler (HttpWriteH i) (setReadHandler (HttpReadH i) (Channel_ctor junk fd False))
      in bindE (on_loop l (\<lambda>L. Inr (new_channel ch L)) W) (\<lambda>W1.
         Inr (W1\<lparr>hw_data := hw_data W @ [\<lparr>hd_loop = l, hd_fd = fd, hd_channel = el_next_ptr (hw_loops W l)\<rparr>]\<rparr>)))"

definition set_data_events :: "'p http_env \<Rightarrow> nat \<Rightarrow> nat \<Rightarrow> 32 word \<Rightarrow> 'p http_world \<Rightarrow> 'p http_world res" where
  "set_data_events env tid i e W =
     (let d = hw_data W ! i in on_loop (hd_loop d) (set_and_update env tid (hd_channel d) e) W)"

definition newRequest :: "'p http_env \<Rightarrow> nat \<Rightarrow> nat \<Rightarrow> 'p http_world \<Rightarrow> 'p http_world res" where
  "newRequest env tid i = set_data_events env tid i CHANNEL_READ"

text \<open>
  \<open>HttpData::handleRead\<close>: \<open>junk\<close> and \<open>junk2\<close> are the uninitialised arrays of it and of
  \<open>read_requesthdrs\<close>, \<open>rp0\<close> the uninitialised reader. What \<open>sscanf\<close> finds is not used, and its
  fields are no longer than the line.
\<close>

definition http_handleRead ::
  "'p http_env \<Rightarrow> nat \<Rightarrow> char list \<Rightarrow> char list \<Rightarrow> rio_t \<Rightarrow> nat \<Rightarrow> read_ev list \<Rightarrow> 'p http_world \<Rightarrow>
   ('p http_world \<times> read_ev list) res" where
  "http_handleRead env tid junk junk2 rp0 i s W =
     (case rio_readlineb MAXLINE (rio_init (hd_fd (hw_data W ! i)) rp0) s of (_, out, rp1, s1) \<Rightarrow>
        if CHR 0x00 \<notin> set (store junk out) then Inl OutOfBounds
        else bindE (read_requesthdrs junk2 rp1 s1) (\<lambda>(r, rp2, s2).
          if r = 1 then Inr (W, s2)
          else bindE (set_data_events env tid i (CHANNEL_READ OR CHANNEL_WRITE) W) (\<lambda>W1. Inr (W1, s2))))"

text \<open>
  \<open>HttpData::handleWrite\<close>: \<open>st_size\<close> is the size \<open>stat\<close> reports, or None when it fails. The result is
  None while \<open>serve_static\<close> runs; else it is the new world and what the socket got.
\<close>

definition home_html :: "char list" where
  "home_html = ''./home.html''"

definition http_handleWrite ::
  "'p http_env \<Rightarrow> nat \<Rightarrow> nat \<Rightarrow> (nat \<Rightarrow> bool) \<Rightarrow> char list \<Rightarrow> nat option \<Rightarrow> read_ev list option \<Rightarrow>
   write_ev list \<Rightarrow> nat \<Rightarrow> 'p http_world \<Rightarrow> ('p http_world \<times> char list) res option" where
  "http_handleWrite env tid fuel errs junk st_size src ws i W =
     (case st_size of
        None \<Rightarrow> Some (Inr (W, []))
      | Some n \<Rightarrow>
          (case serve_static fuel errs junk home_html (int_of_size n) src ws of
             None \<Rightarrow> None
           | Some (sent, ws1) \<Rightarrow>
               Some (bindE (set_data_events env tid i CHANNEL_READ W) (\<lambda>W1. Inr (W1, sent)))))"

section \<open>The server\<close>

text \<open>The result and the system calls of \<open>open_listenfd\<close>.\<close>

definition open_listenfd :: "(sock_call \<Rightarrow> int) \<Rightarrow> int \<Rightarrow> int \<times> sock_call list" where
  "open_listenfd sys port =
     (let fd = sys SCreate; reuse = SReuseAddr fd True; bnd = SBind fd (nat (port mod 65536)); lst = SListen fd
      in if fd < 0 then (-1, [SCreate])
         else if sys reuse < 0 then (-1, [SCreate, reuse])
         else if sys bnd < 0 then (-1, [SCreate, reuse, bnd])
         else if sys lst < 0 then (-1, [SCreate, reuse, bnd, lst])
         else (fd, [SCreate, reuse, bnd, lst]))"

definition HttpServer_ctor ::
  "(sock_call \<Rightarrow> int) \<Rightarrow> 32 word \<Rightarrow> loop_id \<Rightarrow> int \<Rightarrow> int \<Rightarrow> (loop_id \<Rightarrow> 'p http_loop) \<Rightarrow>
   'p http_world res" where
  "HttpServer_ctor sys junk l thread_num port loops =
     (let fd = fst (open_listenfd sys port);
          W = \<lparr>hw_loops = loops, hw_main = l, hw_pool = ThreadPool_ctor l (size_of_int thread_num),
               hw_started = False, hw_accept = None, hw_port = port, hw_listen_fd = fd, hw_data = []\<rparr>
      in if 0 < fd
         then bindE (on_loop l (\<lambda>L. Inr (new_channel (setFd fd (Channel_ctor junk fd False)) L)) W)
                (\<lambda>W1. Inr (W1\<lparr>hw_accept := Some (el_next_ptr (loops l))\<rparr>))
         else Inr W)"

text \<open>\<open>new i\<close> is the loop of the \<open>i\<close>-th thread of the pool, \<open>tid\<close> the thread that calls.\<close>

definition HttpServer_start ::
  "'p http_env \<Rightarrow> (nat \<Rightarrow> loop_id) \<Rightarrow> nat \<Rightarrow> 'p http_world \<Rightarrow> 'p http_world res" where
  "HttpServer_start env new tid W =
     bindE (ThreadPool_start (isLoopThread tid (hw_loops W (hw_main W))) new (hw_pool W)) (\<lambda>P.
     case hw_accept W of
       None \<Rightarrow> Inl NullDeref
     | Some c \<Rightarrow>
         bindE (on_loop (hw_main W)
                  (\<lambda>L. set_and_update env tid c CHANNEL_CONN
                         (L\<lparr>el_heap := on_chan c (setReadHandler AcceptH) (el_heap L)\<rparr>))
                  (W\<lparr>hw_pool := P\<rparr>)) (\<lambda>W1. Inr (W1\<lparr>hw_started := True\<rparr>)))"

text \<open>\<open>connfd\<close> is what \<open>accept\<close> returns; it is not checked.\<close>

definition handNewConn ::
  "'p http_env \<Rightarrow> 32 word \<Rightarrow> nat \<Rightarrow> int \<Rightarrow> 'p http_world \<Rightarrow> 'p http_world res" where
  "handNewConn env junk tid connfd W =
     bindE (getNextLoop (isLoopThread tid (hw_loops W (hw_main W))) (hw_pool W)) (\<lambda>(l, P).
     bindE (HttpData_ctor junk l connfd (W\<lparr>hw_pool := P\<rparr>)) (\<lambda>W1.
     newRequest env tid (length (hw_data W)) W1))"

fun accept_all ::
  "'p http_env \<Rightarrow> 32 word \<Rightarrow> nat \<Rightarrow> int list \<Rightarrow> 'p http_world \<Rightarrow> 'p http_world res" where
  "accept_all env junk tid [] W = Inr W"
| "accept_all env junk tid (fd # fds) W = bindE (handNewConn env junk tid fd W) (accept_all env junk tid fds)"

section \<open>Elementary facts\<close>

lemma set_and_update_Inr:
  "set_and_update env tid c e L =
     Inr (if isLoopThread tid L then do_update env c (L\<lparr>el_heap := on_chan c (setEvent e) (el_heap L)\<rparr>)
          else queueInLoop tid (UpdateFn c) (L\<lparr>el_heap := on_chan c (setEvent e) (el_heap L)\<rparr>))"
  by (simp add: set_and_update_def updateChannel_def runInLoop_def isLoopThread_def)

lemma queueInLoop_frame [simp]:
  "el_thread_id (queueInLoop tid f L) = el_thread_id L"
  "el_next_ptr (queueInLoop tid f L) = el_next_ptr L"
  "el_heap (queueInLoop tid f L) = el_heap L"
  "el_poller (queueInLoop tid f L) = el_poller L"
  "el_timers (queueInLoop tid f L) = el_timers L"
  "el_pending (queueInLoop tid f L) = el_pending L @ [f]"
  by (simp_all add: queueInLoop_def loop_wakeup_def Let_def)

lemma set_and_update_frame:
  assumes "set_and_update env tid c e L = Inr L'"
  shows "el_thread_id L' = el_thread_id L" "el_next_ptr L' = el_next_ptr L"
  using assms by (auto simp: set_and_update_Inr split: if_splits)

lemma on_loop_eq_Inr:
  "on_loop l f W = Inr W' \<longleftrightarrow> (\<exists>L. f (hw_loops W l) = Inr L \<and> W' = W\<lparr>hw_loops := (hw_loops W)(l := L)\<rparr>)"
  by (auto simp: on_loop_def)

lemma new_channel_simps [simp]:
  "el_thread_id (new_channel ch L) = el_thread_id L"
  "el_next_ptr (new_channel ch L) = Suc (el_next_ptr L)"
  "el_heap (new_channel ch L) = (el_heap L)(el_next_ptr L := ch)"
  "el_pending (new_channel ch L) = el_pending L"
  by (simp_all add: new_channel_def)

text \<open>The channel \<open>HttpData\<close> makes for connection \<open>i\<close> and the loop a new connection leaves.\<close>

definition data_channel :: "32 word \<Rightarrow> nat \<Rightarrow> int \<Rightarrow> http_handler channel" where
  "data_channel junk i fd =
     setWriteHandler (HttpWriteH i) (setReadHandler (HttpReadH i) (Channel_ctor junk fd False))"

definition connected_loop :: "'p http_env \<Rightarrow> 32 word \<Rightarrow> nat \<Rightarrow> nat \<Rightarrow> int \<Rightarrow> 'p http_loop \<Rightarrow> 'p http_loop" where
  "connected_loop env junk tid i fd L =
     (case set_and_update env tid (el_next_ptr L) CHANNEL_READ (new_channel (data_channel junk i fd) L) of
        Inr L' \<Rightarrow> L' | Inl _ \<Rightarrow> L)"

lemma handNewConn_eq:
  assumes "getNextLoop (isLoopThread tid (hw_loops W (hw_main W))) (hw_pool W) = Inr (l, P)"
  shows "handNewConn env junk tid fd W =
     Inr (W\<lparr>hw_pool := P,
            hw_loops := (hw_loops W)(l := connected_loop env junk tid (length (hw_data W)) fd (hw_loops W l)),
            hw_data := hw_data W @ [\<lparr>hd_loop = l, hd_fd = fd, hd_channel = el_next_ptr (hw_loops W l)\<rparr>]\<rparr>)"
  using assms
  by (simp add: handNewConn_def HttpData_ctor_def newRequest_def set_data_events_def on_loop_def Let_def
      data_channel_def connected_loop_def set_and_update_Inr nth_append)

lemma connected_loop_frame [simp]:
  "el_thread_id (connected_loop env junk tid i fd L) = el_thread_id L"
  "el_next_ptr (connected_loop env junk tid i fd L) = Suc (el_next_ptr L)"
  by (simp_all add: connected_loop_def set_and_update_Inr)

section \<open>Distribution of the connections\<close>

lemma accept_all_run:
  "pool_ok (hw_pool W) \<Longrightarrow> 0 < tp_maxn (hw_pool W) \<Longrightarrow> isLoopThread tid (hw_loops W (hw_main W)) \<Longrightarrow>
   \<exists>W' new. accept_all env junk tid fds W = Inr W' \<and> hw_data W' = hw_data W @ new \<and> map hd_fd new = fds \<and>
     map hd_loop new =
       map (\<lambda>i. tp_loops (hw_pool W) ! ((tp_next (hw_pool W) + i) mod tp_maxn (hw_pool W))) [0..<length fds]"
proof (induction fds arbitrary: W)
  case Nil
  then show ?case by simp
next
  case (Cons fd fds)
  let ?P = "hw_pool W"
  let ?P1 = "?P\<lparr>tp_next := (tp_next ?P + 1) mod tp_maxn ?P\<rparr>"
  have "getNextLoop (isLoopThread tid (hw_loops W (hw_main W))) ?P = Inr (tp_loops ?P ! tp_next ?P, ?P1)"
    using getNextLoop_ok [OF Cons.prems(1)] Cons.prems by simp
  from handNewConn_eq [OF this, of env junk fd] obtain W1 where
    h: "handNewConn env junk tid fd W = Inr W1" and p: "hw_pool W1 = ?P1" and
    t: "isLoopThread tid (hw_loops W1 (hw_main W1))" and
    d: "hw_data W1 = hw_data W @ [\<lparr>hd_loop = tp_loops ?P ! tp_next ?P, hd_fd = fd,
      hd_channel = el_next_ptr (hw_loops W (tp_loops ?P ! tp_next ?P))\<rparr>]"
    using Cons.prems(3) by (auto simp: isLoopThread_def)
  have "pool_ok (hw_pool W1)" "0 < tp_maxn (hw_pool W1)"
    using pool_ok_next [OF Cons.prems(1)] Cons.prems(2) p by simp_all
  from Cons.IH [OF this t] obtain W' new where
    ih: "accept_all env junk tid fds W1 = Inr W'" "hw_data W' = hw_data W1 @ new" "map hd_fd new = fds"
      "map hd_loop new = map (\<lambda>i. tp_loops ?P ! (((tp_next ?P + 1) mod tp_maxn ?P + i) mod tp_maxn ?P)) [0..<length fds]"
    using p by auto
  have e: "((tp_next ?P + 1) mod tp_maxn ?P + i) mod tp_maxn ?P = (tp_next ?P + Suc i) mod tp_maxn ?P" for i
    by (simp add: mod_add_left_eq)
  have "tp_next ?P mod tp_maxn ?P = tp_next ?P" using Cons.prems by (auto simp: pool_ok_def)
  with ih h d show ?case unfolding e by (simp add: map_upt_Suc del: upt_Suc)
qed

text \<open>
  The connections a running server accepts, in any number, are all kept, in order, and
  handed to the loops of the pool in turn.
\<close>

theorem http_round_robin:
  assumes "pool_ok (hw_pool W)" "0 < tp_maxn (hw_pool W)" "isLoopThread tid (hw_loops W (hw_main W))"
  shows "\<exists>W' new. accept_all env junk tid fds W = Inr W' \<and> hw_data W' = hw_data W @ new \<and> map hd_fd new = fds \<and>
     map hd_loop new =
       map (\<lambda>i. tp_loops (hw_pool W) ! ((tp_next (hw_pool W) + i) mod tp_maxn (hw_pool W))) [0..<length fds]"
  using accept_all_run [OF assms] by blast

definition idle_loop :: "nat \<Rightarrow> epoller http_loop" where
  "idle_loop tid = \<lparr>el_running = True, el_calling_pending = False, el_thread_id = tid,
     el_poller = \<lparr>channels = Map.empty, wakeup_channel = 0, epollfd = 3\<rparr>,
     el_heap = (\<lambda>_. Channel_ctor 0 5 False), el_next_ptr = 1, el_pending = [],
     el_timers = Map.empty, el_wakeups = 0\<rparr>"

definition http_demo_env :: "epoller http_env" where
  "http_demo_env = \<lparr>vt_update = epoll_upd (\<lambda>_. 0) 0, vt_remove = epoll_rem (\<lambda>_. 0),
                    tm_handler = (\<lambda>_. AcceptH), tm_junk = 0\<rparr>"

text \<open>Three threads with loops 1, 2 and 3, the main loop being loop 0.\<close>

definition http_demo :: "epoller http_world" where
  "http_demo = \<lparr>hw_loops = idle_loop, hw_main = 0,
     hw_pool = (ThreadPool_ctor 0 3)\<lparr>tp_loops := [1, 2, 3], tp_started := True\<rparr>,
     hw_started = True, hw_accept = None, hw_port = 80, hw_listen_fd = 4, hw_data = []\<rparr>"

theorem http_round_robin_witness:
  "\<exists>W'. accept_all http_demo_env 0 0 [11, 12, 13, 14] http_demo = Inr W' \<and>
     map hd_fd (hw_data W') = [11, 12, 13, 14] \<and> map hd_loop (hw_data W') = [1, 2, 3, 1]"
proof -
  have "pool_ok (hw_pool http_demo)" "0 < tp_maxn (hw_pool http_demo)"
    "isLoopThread 0 (hw_loops http_demo (hw_main http_demo))"
    by (simp_all add: http_demo_def ThreadPool_ctor_def pool_ok_def isLoopThread_def idle_loop_def)
  from http_round_robin [OF this, of http_demo_env 0 "[11, 12, 13, 14]"] show ?thesis
    by (auto simp: http_demo_def ThreadPool_ctor_def upt_rec)
qed

text \<open>
  A connection accepted for the loop of another thread: \<open>handNewConn\<close> allocates its channel
  with both handlers bound to it, asks for reading, and leaves its registration to that
  loop, which it wakes; the poller is not touched. A failed \<open>accept\<close> goes the same way.
\<close>

theorem handNewConn_behaviour:
  assumes "getNextLoop (isLoopThread tid (hw_loops W (hw_main W))) (hw_pool W) = Inr (l, P)"
    and "\<not> isLoopThread tid (hw_loops W l)"
  shows "\<exists>W' L'. handNewConn env junk tid fd W = Inr W' \<and> hw_pool W' = P \<and>
     hw_loops W' = (hw_loops W)(l := L') \<and>
     (let L = hw_loops W l; c = el_next_ptr L; ch = el_heap L' c in
      hw_data W' = hw_data W @ [\<lparr>hd_loop = l, hd_fd = fd, hd_channel = c\<rparr>] \<and>
      ch_fd ch = fd \<and> ch_events ch = CHANNEL_READ \<and>
      ch_readHandler ch = Some (HttpReadH (length (hw_data W))) \<and>
      ch_writeHandler ch = Some (HttpWriteH (length (hw_data W))) \<and>
      el_pending L' = el_pending L @ [UpdateFn c] \<and> el_wakeups L' = Suc (el_wakeups L) \<and>
      el_poller L' = el_poller L)"
  using handNewConn_eq [OF assms(1), of env junk fd] assms(2)
  by (intro exI [of _ "connected_loop env junk tid (length (hw_data W)) fd (hw_loops W l)"] exI conjI)
    (auto simp: connected_loop_def set_and_update_Inr isLoopThread_def queueInLoop_def loop_wakeup_def
      data_channel_def channel_ops Channel_ctor_def Let_def new_channel_def)

theorem handNewConn_behaviour_witness:
  "\<exists>W'. handNewConn http_demo_env 7 0 (-1) http_demo = Inr W' \<and>
     el_pending (hw_loops W' 1) = [UpdateFn 1] \<and> ch_fd (el_heap (hw_loops W' 1) 1) = -1"
proof -
  have g: "getNextLoop (isLoopThread 0 (hw_loops http_demo (hw_main http_demo))) (hw_pool http_demo) =
      Inr (1, (hw_pool http_demo)\<lparr>tp_next := 1\<rparr>)"
    by (simp add: http_demo_def ThreadPool_ctor_def isLoopThread_def idle_loop_def getNextLoop_def)
  have "\<not> isLoopThread 0 (hw_loops http_demo 1)"
    by (simp add: http_demo_def isLoopThread_def idle_loop_def)
  from handNewConn_behaviour [OF g this, of http_demo_env 7 "-1"] show ?thesis
    by (auto simp: http_demo_def idle_loop_def Let_def)
qed

section \<open>Requests and responses\<close>

text \<open>A complete request: an empty line after the first line.\<close>

definition request_complete :: "char list \<Rightarrow> bool" where
  "request_complete inp \<longleftrightarrow> crlf \<in> set (tl (split_lines inp))"

lemma http_handleRead_spec:
  assumes "clean s" "all_bytes s \<noteq> []" "\<not> is_crlf junk2"
  shows "\<exists>s1. http_handleRead env tid junk junk2 rp0 i s W =
     (if request_complete (all_bytes s)
      then bindE (set_data_events env tid i (CHANNEL_READ OR CHANNEL_WRITE) W) (\<lambda>W1. Inr (W1, s1))
      else Inr (W, s1))"
proof -
  let ?rp = "rio_init (hd_fd (hw_data W ! i)) rp0"
  have inp: "rio_pending ?rp @ avail s = all_bytes s" using clean_avail [OF assms(1)] by simp
  obtain r out rp1 s1 where rd: "rio_readlineb MAXLINE ?rp s = (r, out, rp1, s1)" "rio_ok rp1" "clean s1"
    and rest: "rio_pending rp1 @ avail s1 = drop (length (cut_line (MAXLINE - 1) (all_bytes s))) (all_bytes s)"
    and "if all_bytes s = [] then r = 0 \<and> out = []
      else r \<noteq> 0 \<and> out = cut_line (MAXLINE - 1) (all_bytes s) @ [CHR 0x00]"
    using readline_clean [OF rio_init_ok(1) assms(1), of "hd_fd (hw_data W ! i)" rp0]
    unfolding inp by blast
  then have out: "out = cut_line (MAXLINE - 1) (all_bytes s) @ [CHR 0x00]" using assms(2) by simp
  have "tl (split_lines (all_bytes s)) = split_lines (rio_pending rp1 @ avail s1)"
    using split_lines_simps(2) [OF assms(2)] rest by simp
  then obtain rp2 s2 where "read_requesthdrs junk2 rp1 s1 =
      Inr (if request_complete (all_bytes s) then 0 else 1, rp2, s2)"
    using read_requesthdrs_post [OF rd(2,3) assms(3)] by (auto simp: hdr_post_def request_complete_def)
  moreover have "CHR 0x00 \<in> set (store junk out)" using out by (simp add: store_def)
  ultimately show ?thesis using rd(1)
    by (intro exI [of _ s2]) (simp add: http_handleRead_def)
qed

lemma http_handleWrite_spec:
  assumes "serve_static fuel errs junk home_html (int_of_size n) (Some s) ws = Some (sent, ws1)"
  shows "http_handleWrite env tid fuel errs junk (Some n) (Some s) ws i W =
     Some (bindE (set_data_events env tid i CHANNEL_READ W) (\<lambda>W1. Inr (W1, sent)))"
  using assms by (simp add: http_handleWrite_def)

text \<open>What changing the events of a connection does on the loop's thread, over the Linux poller.\<close>

lemma set_data_events_here:
  assumes "vt_update env = epoll_upd sys junk" "\<And>call. 0 \<le> sys call"
    and "isLoopThread tid (hw_loops W (hd_loop (hw_data W ! i)))"
  obtains W' where "set_data_events env tid i e W = Inr W'"
    "hw_data W' = hw_data W"
    "let L = hw_loops W' (hd_loop (hw_data W ! i)); c = hd_channel (hw_data W ! i) in
       isLoopThread tid L \<and> ch_events (el_heap L c) = e \<and>
       ch_fd (el_heap L c) = ch_fd (el_heap (hw_loops W (hd_loop (hw_data W ! i))) c) \<and>
       channels (el_poller L) (ch_fd (el_heap L c)) = Some c"
proof -
  have sys: "\<not> sys call < 0" "sys call \<noteq> -1" for call using assms(2) [of call] by auto
  show thesis
    by (rule that [of "W\<lparr>hw_loops := (hw_loops W)(hd_loop (hw_data W ! i) := do_update env (hd_channel (hw_data W ! i))
          ((hw_loops W (hd_loop (hw_data W ! i)))\<lparr>el_heap := on_chan (hd_channel (hw_data W ! i)) (setEvent e)
             (el_heap (hw_loops W (hd_loop (hw_data W ! i))))\<rparr>))\<rparr>"])
      (use assms(3) in \<open>simp_all add: set_data_events_def on_loop_def set_and_update_Inr isLoopThread_def
          do_update_def assms(1) epoll_upd_def epoll_update_def sys Let_def updateEvent_def setEvent_def\<close>)
qed



text \<open>
  When the peer has closed the connection, \<open>handleRead\<close> changes nothing: the channel stays
  registered for reading and the descriptor open, so that the level-triggered poller
  reports it for ever. Before that it prints the buffer it has not read anything
  into, which without a zero in it is an access out of bounds.
\<close>

theorem http_peer_close:
  assumes "clean s" "all_bytes s = []" "\<not> is_crlf junk2"
  shows "if CHR 0x00 \<in> set junk
     then \<exists>s1. http_handleRead env tid junk junk2 rp0 i s W = Inr (W, s1)
     else http_handleRead env tid junk junk2 rp0 i s W = Inl OutOfBounds"
proof -
  let ?rp = "rio_init (hd_fd (hw_data W ! i)) rp0"
  have inp: "rio_pending ?rp @ avail s = []" using clean_avail [OF assms(1)] assms(2) by simp
  obtain r out rp1 s1 where rd: "rio_readlineb MAXLINE ?rp s = (r, out, rp1, s1)" "rio_ok rp1" "clean s1"
    and rest: "rio_pending rp1 @ avail s1 = drop (length (cut_line (MAXLINE - 1) [])) []"
    and "if ([] :: char list) = [] then r = 0 \<and> out = []
      else r \<noteq> 0 \<and> out = cut_line (MAXLINE - 1) [] @ [CHR 0x00]"
    using readline_clean [OF rio_init_ok(1) assms(1), of "hd_fd (hw_data W ! i)" rp0]
    unfolding inp by blast
  then have out: "out = []" by simp
  obtain rp2 s2 where "read_requesthdrs junk2 rp1 s1 = Inr (1, rp2, s2)"
    using read_requesthdrs_post [OF rd(2,3) assms(3)] rest by (auto simp: hdr_post_def split_lines_simps(1))
  then show ?thesis using rd(1) out by (auto simp: http_handleRead_def store_def)
qed

theorem http_peer_close_witness:
  "\<exists>s1. http_handleRead http_demo_env 1 [CHR 0x00] ''xxx'' (rio_init 0 \<lparr>rio_fd = 0, rio_cnt = 0, rio_bufptr = 0, rio_buf = []\<rparr>)
     0 [Interrupted] http_demo = Inr (http_demo, s1)"
proof -
  have "\<not> is_crlf ''xxx''" by (simp add: is_crlf_def crlf_def)
  from http_peer_close [OF _ _ this, of "[Interrupted]" "[CHR 0x00]"] show ?thesis
    by (simp add: clean_def)
qed

section \<open>Starting, and the invariant of the loops\<close>

text \<open>
  A server whose port cannot be opened (\<open>socket\<close>, \<open>setsockopt\<close>, \<open>bind\<close> or \<open>listen\<close> fails) only logs
  it; \<open>start\<close> then dereferences the null pointer of the accept channel.
\<close>

theorem http_start_null:
  assumes "sys SCreate < 0 \<or> sys (SReuseAddr (sys SCreate) True) < 0 \<or>
      sys (SBind (sys SCreate) (nat (port mod 65536))) < 0 \<or> sys (SListen (sys SCreate)) < 0"
    and "isLoopThread tid (loops l)"
  shows "\<exists>W. HttpServer_ctor sys junk l n port loops = Inr W \<and> HttpServer_start env new tid W = Inl NullDeref"
  using assms
  by (auto simp: HttpServer_ctor_def open_listenfd_def HttpServer_start_def ThreadPool_start_def Let_def)

theorem http_start_null_witness:
  "\<exists>W. HttpServer_ctor (\<lambda>c. case c of SBind _ _ \<Rightarrow> -1 | _ \<Rightarrow> 3) 0 0 2 80 idle_loop = Inr W \<and>
     HttpServer_start http_demo_env (\<lambda>i. Suc i) 0 W = Inl NullDeref"
  by (rule http_start_null) (simp_all add: isLoopThread_def idle_loop_def)

text \<open>
  The steps of a running server: the calls above, and a loop executing its pending
  functors. Every loop keeps its invariant and every channel of a connection is allocated.
\<close>

definition http_ok :: "('p \<Rightarrow> int \<rightharpoonup> chan_ptr) \<Rightarrow> 'p http_world \<Rightarrow> bool" where
  "http_ok chans W \<longleftrightarrow>
     (\<forall>l. loop_ok chans (hw_loops W l)) \<and>
     (\<forall>d\<in>set (hw_data W). hd_channel d < el_next_ptr (hw_loops W (hd_loop d))) \<and>
     (\<forall>c. hw_accept W = Some c \<longrightarrow> c < el_next_ptr (hw_loops W (hw_main W)))"

inductive http_step :: "'p http_env \<Rightarrow> 'p http_world \<Rightarrow> 'p http_world \<Rightarrow> bool" for env where
  start: "HttpServer_start env new tid W = Inr W' \<Longrightarrow> http_step env W W'"
| accept: "handNewConn env junk tid fd W = Inr W' \<Longrightarrow> http_step env W W'"
| request: "i < length (hw_data W) \<Longrightarrow> http_handleRead env tid junk junk2 rp0 i s W = Inr (W', s') \<Longrightarrow>
    http_step env W W'"
| respond: "i < length (hw_data W) \<Longrightarrow>
    http_handleWrite env tid fuel errs junk st_size src ws i W = Some (Inr (W', sent)) \<Longrightarrow> http_step env W W'"
| functors: "on_loop l (doPendingFunctors (exec_fn env (\<lambda>_. Inr))) W = Inr W' \<Longrightarrow> http_step env W W'"

inductive_cases http_stepE: "http_step env W W'"

lemma http_okD:
  assumes "http_ok chans W"
  shows "loop_ok chans (hw_loops W l)"
    and "d \<in> set (hw_data W) \<Longrightarrow> hd_channel d < el_next_ptr (hw_loops W (hd_loop d))"
    and "hw_accept W = Some c \<Longrightarrow> c < el_next_ptr (hw_loops W (hw_main W))"
  using assms by (auto simp: http_ok_def)

lemma http_ok_upd:
  assumes "http_ok chans W" "loop_ok chans L" "el_next_ptr (hw_loops W l) \<le> el_next_ptr L"
  shows "http_ok chans (W\<lparr>hw_loops := (hw_loops W)(l := L)\<rparr>)"
  using assms by (force simp: http_ok_def)

lemma http_handleRead_world:
  "http_handleRead env tid junk junk2 rp0 i s W = Inr (W', s') \<Longrightarrow>
     W' = W \<or> set_data_events env tid i (CHANNEL_READ OR CHANNEL_WRITE) W = Inr W'"
  by (auto simp: http_handleRead_def split: prod.splits if_splits)

lemma http_handleWrite_world:
  "http_handleWrite env tid fuel errs junk st_size src ws i W = Some (Inr (W', sent)) \<Longrightarrow>
     W' = W \<or> set_data_events env tid i CHANNEL_READ W = Inr W'"
  by (auto simp: http_handleWrite_def split: option.splits)

text \<open>The interface of the poller at the handlers of this server.\<close>

locale http_poller = poller_iface upd rem chans
  for upd :: "'p \<Rightarrow> http_handler heap \<Rightarrow> chan_ptr \<Rightarrow> 'p \<times> http_handler heap"
    and rem :: "'p \<Rightarrow> http_handler heap \<Rightarrow> chan_ptr \<Rightarrow> 'p"
    and chans :: "'p \<Rightarrow> int \<rightharpoonup> chan_ptr"
begin

lemma set_and_update_ok:
  assumes "vt_update env = upd" "loop_ok chans L" "c < el_next_ptr L" "set_and_update env tid c e L = Inr L'"
  shows "loop_ok chans L'"
proof -
  let ?L = "L\<lparr>el_heap := on_chan c (setEvent e) (el_heap L)\<rparr>"
  have "ch_fd (on_chan c (setEvent e) (el_heap L) d) = ch_fd (el_heap L d)" for d
    by (cases "c = d") (auto simp: setEvent_def)
  then have ok: "loop_ok chans ?L" using assms(2) by (auto simp: loop_ok_def reg_ok_def)
  show ?thesis
  proof (cases "isLoopThread tid L")
    case True
    then show ?thesis using do_update_ok [OF assms(1) ok, of c] assms(3,4) by (simp add: set_and_update_Inr)
  next
    case False
    moreover have "fn_ok (el_next_ptr L) (UpdateFn c)" using assms(3) by (simp add: fn_ok_def)
    ultimately show ?thesis using ok assms(4)
      by (auto simp: set_and_update_Inr loop_ok_def)
  qed
qed

lemma set_data_events_ok:
  assumes "vt_update env = upd" "http_ok chans W" "i < length (hw_data W)"
    and "set_data_events env tid i e W = Inr W'"
  shows "http_ok chans W'"
proof -
  let ?d = "hw_data W ! i"
  obtain L where L: "set_and_update env tid (hd_channel ?d) e (hw_loops W (hd_loop ?d)) = Inr L"
    "W' = W\<lparr>hw_loops := (hw_loops W)(hd_loop ?d := L)\<rparr>"
    using assms(4) by (auto simp: set_data_events_def on_loop_eq_Inr Let_def)
  have "loop_ok chans L"
    using set_and_update_ok [OF assms(1) http_okD(1) [OF assms(2)] _ L(1)] http_okD(2) [OF assms(2)] assms(3)
    by simp
  then show ?thesis
    using http_ok_upd [OF assms(2)] L set_and_update_frame(2) [OF L(1)] by simp
qed

lemma connected_loop_ok:
  assumes "vt_update env = upd" "loop_ok chans L"
  shows "loop_ok chans (connected_loop env junk tid i fd L)"
proof -
  obtain L' where s: "set_and_update env tid (el_next_ptr L) CHANNEL_READ (new_channel (data_channel junk i fd) L) = Inr L'"
    by (simp add: set_and_update_Inr)
  have "loop_ok chans (new_channel (data_channel junk i fd) L)"
    using fresh_heap_ok [OF assms(2)] by (simp add: new_channel_def)
  from set_and_update_ok [OF assms(1) this _ s] s show ?thesis by (simp add: connected_loop_def)
qed

lemma handNewConn_ok:
  assumes "vt_update env = upd" "http_ok chans W" "handNewConn env junk tid fd W = Inr W'"
  shows "http_ok chans W'"
proof -
  obtain l P where g: "getNextLoop (isLoopThread tid (hw_loops W (hw_main W))) (hw_pool W) = Inr (l, P)"
    using assms(3) by (auto simp: handNewConn_def)
  have "loop_ok chans (connected_loop env junk tid (length (hw_data W)) fd (hw_loops W l))"
    by (rule connected_loop_ok [OF assms(1) http_okD(1) [OF assms(2)]])
  then show ?thesis
    using handNewConn_eq [OF g, of env junk fd] assms(2,3)
    by (auto simp: http_ok_def less_SucI)
qed

lemma HttpServer_start_ok:
  assumes "vt_update env = upd" "http_ok chans W" "HttpServer_start env new tid W = Inr W'"
  shows "http_ok chans W'"
proof -
  obtain P where P: "ThreadPool_start (isLoopThread tid (hw_loops W (hw_main W))) new (hw_pool W) = Inr P"
    using assms(3) by (simp add: HttpServer_start_def) blast
  obtain c where c: "hw_accept W = Some c"
    using assms(3) P by (cases "hw_accept W") (simp_all add: HttpServer_start_def)
  obtain L where L: "set_and_update env tid c CHANNEL_CONN ((hw_loops W (hw_main W))\<lparr>el_heap :=
        on_chan c (setReadHandler AcceptH) (el_heap (hw_loops W (hw_main W)))\<rparr>) = Inr L"
    by (simp add: set_and_update_Inr)
  have W': "W' = W\<lparr>hw_pool := P, hw_loops := (hw_loops W)(hw_main W := L), hw_started := True\<rparr>"
    using assms(3) P c L by (simp add: HttpServer_start_def on_loop_def)
  let ?L = "(hw_loops W (hw_main W))\<lparr>el_heap := on_chan c (setReadHandler AcceptH) (el_heap (hw_loops W (hw_main W)))\<rparr>"
  have "ch_fd (on_chan c (setReadHandler AcceptH) h d) = ch_fd (h d)" for h d
    by (cases "c = d") (auto simp: setReadHandler_def)
  then have "loop_ok chans ?L"
    using http_okD(1) [OF assms(2), of "hw_main W"] by (auto simp: loop_ok_def reg_ok_def)
  from set_and_update_ok [OF assms(1) this _ L] http_okD(3) [OF assms(2) c]
  have "loop_ok chans L" by simp
  from http_ok_upd [OF assms(2) this, of "hw_main W"] set_and_update_frame(2) [OF L]
  have "http_ok chans (W\<lparr>hw_loops := (hw_loops W)(hw_main W := L)\<rparr>)" by simp
  then show ?thesis using W' by (simp add: http_ok_def)
qed

lemma http_step_ok:
  assumes env: "vt_update env = upd" "vt_remove env = rem"
  shows "http_step env W W' \<Longrightarrow> http_ok chans W \<Longrightarrow> http_ok chans W'"
proof (induction rule: http_step.induct)
  case (start new tid W W')
  from HttpServer_start_ok [OF env(1) start(2,1)] show ?case .
next
  case (accept junk tid fd W W')
  from handNewConn_ok [OF env(1) accept(2,1)] show ?case .
next
  case (request i W tid junk junk2 rp0 s W' s')
  from http_handleRead_world [OF request(2)] show ?case
    using set_data_events_ok [OF env(1) request(3,1)] request(3) by blast
next
  case (respond i W tid fuel errs junk st_size src ws W' sent)
  from http_handleWrite_world [OF respond(2)] show ?case
    using set_data_events_ok [OF env(1) respond(3,1)] respond(3) by blast
next
  case (functors l W W')
  then obtain L where L: "doPendingFunctors (exec_fn env (\<lambda>_. Inr)) (hw_loops W l) = Inr L"
    "W' = W\<lparr>hw_loops := (hw_loops W)(l := L)\<rparr>" by (auto simp: on_loop_eq_Inr)
  have "loop_ok chans L \<and> el_next_ptr (hw_loops W l) \<le> el_next_ptr L"
    using doPendingFunctors_ok [OF env _ http_okD(1) [OF functors(2)] L(1)] by (simp add: keeps_loop_def)
  then show ?case using http_ok_upd [OF functors(2)] L(2) by simp
qed

lemma http_run_ok:
  assumes "vt_update env = upd" "vt_remove env = rem" "(http_step env)\<^sup>*\<^sup>* W W'" "http_ok chans W"
  shows "http_ok chans W'"
  using assms(3,4)
proof (induction rule: rtranclp_induct)
  case (step W1 W2)
  from http_step_ok [OF assms(1,2) step(2) step(3) [OF step(4)]] show ?case .
qed

end

interpretation eph: http_poller "epoll_upd sys junk" "epoll_rem sys" channels
  for sys junk
  by unfold_locales

interpretation kqh: http_poller kq_upd kq_rem channels
  by unfold_locales

text \<open>
  Through any run of the server over the Linux poller, whatever the system calls
  return: in every loop each registered channel sits under its own descriptor and every
  channel named by the poller, a timer or a queued functor is allocated, and so
  is the channel of every connection.
\<close>

theorem http_server_invariant:
  assumes "vt_update env = epoll_upd sys junk" "vt_remove env = epoll_rem sys"
    and "(http_step env)\<^sup>*\<^sup>* W W'" "http_ok channels W"
  shows "http_ok channels W'"
  by (rule eph.http_run_ok [OF assms])

theorem http_server_invariant_witness:
  "\<exists>W'. (http_step http_demo_env)\<^sup>*\<^sup>* http_demo W' \<and> length (hw_data W') = 1 \<and> http_ok channels W'"
proof -
  have g: "getNextLoop (isLoopThread 0 (hw_loops http_demo (hw_main http_demo))) (hw_pool http_demo) =
      Inr (1, (hw_pool http_demo)\<lparr>tp_next := 1\<rparr>)"
    by (simp add: http_demo_def ThreadPool_ctor_def isLoopThread_def idle_loop_def getNextLoop_def)
  from handNewConn_eq [OF g, of http_demo_env 0 9] obtain W' where
    W': "handNewConn http_demo_env 0 0 9 http_demo = Inr W'" "length (hw_data W') = 1"
    by (simp add: http_demo_def)
  have run: "(http_step http_demo_env)\<^sup>*\<^sup>* http_demo W'"
    using http_step.accept [OF W'(1)] by (rule r_into_rtranclp)
  have ok: "http_ok channels http_demo"
    by (simp add: http_ok_def http_demo_def idle_loop_def loop_ok_def reg_ok_def)
  have env: "vt_update http_demo_env = epoll_upd (\<lambda>_. 0) 0" "vt_remove http_demo_env = epoll_rem (\<lambda>_. 0)"
    by (simp_all add: http_demo_env_def)
  show ?thesis using http_server_invariant [OF env run ok] run W'(2) by blast
qed

end
