(* ===== verification/HttpWaits.thy ===== *)
theory HttpWaits
  imports HttpServer
begin

text \<open>
  The descriptors of the HTTP connections stay as \<open>accept\<close> returns them (src/net/http_server.cpp, \<open>handNewConn\<close>), and so
  they are blocking: a \<open>read\<close> that finds nothing, on a connection its peer keeps open, does not return. Here are the tests
  whether one of the calls of \<open>read\<close> in \<open>rio_read\<close>, \<open>rio_readlineb\<close> (src/base/rio.cpp), \<open>read_requesthdrs\<close> and
  \<open>HttpData::handleRead\<close> (src/net/http_data.cpp) finds that. Each follows the calls of the function it is about, and a script is here
  all that the client ever sends.
\<close>

section \<open>When a call waits\<close>

text \<open>\<open>rio_read\<close> has no unread bytes, and calls of \<open>read\<close> are only interrupted.\<close>

definition rio_waits :: "rio_t \<Rightarrow> read_ev list \<Rightarrow> bool" where
  "rio_waits rp s \<longleftrightarrow> rio_cnt rp \<le> 0 \<and> (\<forall>ev\<in>set s. ev = Interrupted)"

function readline_waits :: "nat \<Rightarrow> nat \<Rightarrow> rio_t \<Rightarrow> read_ev list \<Rightarrow> bool" where
  "readline_waits maxlen n rp s =
     (if n < maxlen \<and> \<not> rio_waits rp s then
        case rio_read 1 rp s of (rc, bs, rp1, s1) \<Rightarrow>
          if rc = 1 \<and> bs \<noteq> [CHR 0x0A] then readline_waits maxlen (Suc n) rp1 s1 else False
      else n < maxlen)"
  by pat_completeness auto

termination readline_waits
  by (relation "measure (\<lambda>(maxlen, n, rp, s). maxlen - n)") auto

declare readline_waits.simps [simp del]

function hdr_waits :: "char list \<Rightarrow> rio_t \<Rightarrow> read_ev list \<Rightarrow> bool" where
  "hdr_waits buf rp s =
     (if is_crlf buf then False
      else if readline_waits MAXLINE 1 rp s then True
      else case rio_readlineb MAXLINE rp s of (r, out, rp1, s1) \<Rightarrow>
        if r \<noteq> 0 \<and> CHR 0x00 \<in> set (store buf out) then hdr_waits (store buf out) rp1 s1 else False)"
  by pat_completeness auto

termination hdr_waits
  by (relation "measure (\<lambda>(buf, rp, s). rio_work rp s)")
    (auto simp: MAXLINE_def intro: rio_readlineb_work(2) [OF sym])

declare hdr_waits.simps [simp del]

definition requesthdrs_wait :: "char list \<Rightarrow> rio_t \<Rightarrow> read_ev list \<Rightarrow> bool" where
  "requesthdrs_wait junk rp s \<longleftrightarrow>
     readline_waits MAXLINE 1 rp s \<or>
     (case rio_readlineb MAXLINE rp s of (_, out, rp1, s1) \<Rightarrow> hdr_waits (store junk out) rp1 s1)"

text \<open>\<open>handleRead\<close> of a connection with descriptor \<open>fd\<close>; the other arguments are those of \<open>http_handleRead\<close>.\<close>

definition handleRead_waits :: "char list \<Rightarrow> char list \<Rightarrow> rio_t \<Rightarrow> int \<Rightarrow> read_ev list \<Rightarrow> bool" where
  "handleRead_waits junk junk2 rp0 fd s \<longleftrightarrow>
     readline_waits MAXLINE 1 (rio_init fd rp0) s \<or>
     (case rio_readlineb MAXLINE (rio_init fd rp0) s of (_, out, rp1, s1) \<Rightarrow>
        CHR 0x00 \<in> set (store junk out) \<and> requesthdrs_wait junk2 rp1 s1)"

section \<open>A client that stops in its request\<close>

lemma clean_interrupted: "clean s \<Longrightarrow> (\<forall>ev\<in>set s. ev = Interrupted) \<longleftrightarrow> avail s = []"
  by (induction s rule: avail.induct) (auto simp: clean_def)

lemma rio_waits_iff: "rio_ok rp \<Longrightarrow> clean s \<Longrightarrow> rio_waits rp s \<longleftrightarrow> rio_content (rp, s) = []"
  by (auto simp: rio_waits_def clean_interrupted rio_content_def rio_pending_def rio_ok_def)

lemma readline_waits_iff:
  "rio_ok rp \<Longrightarrow> clean s \<Longrightarrow> n + k = max n maxlen \<Longrightarrow>
     readline_waits maxlen n rp s \<longleftrightarrow>
       \<not> ends_line (cut_line k (rio_content (rp, s))) \<and> length (cut_line k (rio_content (rp, s))) \<noteq> k"
proof (induction k arbitrary: n rp s)
  case 0
  then show ?case by (subst readline_waits.simps) auto
next
  case (Suc k)
  then have n: "n < maxlen" by auto
  show ?case
  proof (cases "rio_content (rp, s)")
    case Nil
    then show ?thesis using n rio_waits_iff [OF Suc.prems(1,2)] by (subst readline_waits.simps) simp
  next
    case (Cons c cs)
    from Cons obtain rp1 s1 where rd: "rio_rd 1 (rp, s) = (Bytes [c], rp1, s1)" and
      st: "rio_content (rp1, s1) = cs" "rio_ok rp1"
      using lib.one_byte [of "(rp, s)" c cs] Suc.prems(1) by (metis old.prod.exhaust split_conv)
    have read: "rio_read 1 rp s = (1, [c], rp1, s1)" using rio_rd_read(1) [OF rd Suc.prems(1)] .
    have cl: "clean s1" using rio_read_cases [OF Suc.prems(1) _ read] Suc.prems(2) by simp
    have "readline_waits maxlen n rp s \<longleftrightarrow> c \<noteq> CHR 0x0A \<and> readline_waits maxlen (Suc n) rp1 s1"
      using n read Cons rio_waits_iff [OF Suc.prems(1,2)] by (subst readline_waits.simps) simp
    moreover have "readline_waits maxlen (Suc n) rp1 s1 \<longleftrightarrow> \<not> ends_line (cut_line k cs) \<and> length (cut_line k cs) \<noteq> k"
      using Suc.IH [OF st(2) cl, of "Suc n"] st(1) Suc.prems(3) n by auto
    ultimately show ?thesis using Cons by (cases "cut_line k cs = []") auto
  qed
qed

lemma line_waits_iff:
  assumes "rio_ok rp" "clean s"
  defines "l \<equiv> cut_line (MAXLINE - 1) (rio_pending rp @ avail s)"
  shows "readline_waits MAXLINE 1 rp s \<longleftrightarrow> \<not> ends_line l \<and> length l \<noteq> MAXLINE - 1"
  using readline_waits_iff [OF assms(1,2), of 1 "MAXLINE - 1" MAXLINE]
  by (simp add: l_def rio_content_def MAXLINE_def)

lemma empty_line: "\<not> ends_line (cut_line (MAXLINE - 1) [])" "length (cut_line (MAXLINE - 1) []) \<noteq> MAXLINE - 1"
  using cut_line_take [of "MAXLINE - 1" "[]"] by (simp_all add: MAXLINE_def)

text \<open>A line that waits for its end is the last piece of the text, and not an empty line.\<close>

lemma waiting_last:
  assumes "l = cut_line (MAXLINE - 1) inp" "\<not> ends_line l" "length l \<noteq> MAXLINE - 1"
  shows "crlf \<notin> set (split_lines inp)"
proof -
  have l: "l = inp"
    using cut_line_all [of "MAXLINE - 1" inp] cut_line_length [of "MAXLINE - 1" inp] assms by auto
  then have "set (split_lines inp) \<subseteq> {inp}"
    using split_lines_simps assms(1) by (cases "inp = []") simp_all
  moreover have "inp \<noteq> crlf" using assms(2) l by (auto simp: crlf_def)
  ultimately show ?thesis by auto
qed

lemma hdr_waits_iff:
  "rio_ok rp \<Longrightarrow> clean s \<Longrightarrow> \<not> is_crlf buf \<Longrightarrow>
     hdr_waits buf rp s \<longleftrightarrow> crlf \<notin> set (split_lines (rio_pending rp @ avail s))"
proof (induction buf rp s rule: hdr_waits.induct)
  case (1 buf rp s)
  define inp where "inp = rio_pending rp @ avail s"
  define l where "l = cut_line (MAXLINE - 1) inp"
  obtain r out rp1 s1 where rd: "rio_readlineb MAXLINE rp s = (r, out, rp1, s1)"
    and st: "rio_ok rp1" "clean s1" "rio_pending rp1 @ avail s1 = drop (length l) inp"
    and out: "if inp = [] then r = 0 \<and> out = [] else r \<noteq> 0 \<and> out = l @ [CHR 0x00]"
    using readline_clean [OF 1(2,3)] unfolding inp_def l_def by blast
  have wait: "readline_waits MAXLINE 1 rp s \<longleftrightarrow> \<not> ends_line l \<and> length l \<noteq> MAXLINE - 1"
    using line_waits_iff [OF 1(2,3)] by (simp add: l_def inp_def)
  show ?case
  proof (cases "\<not> ends_line l \<and> length l \<noteq> MAXLINE - 1")
    case True
    then have "crlf \<notin> set (split_lines inp)" using waiting_last [OF l_def] by blast
    with True wait 1(4) show ?thesis by (subst hdr_waits.simps) (simp add: inp_def [symmetric])
  next
    case False
    with wait have nw: "\<not> readline_waits MAXLINE 1 rp s" by blast
    from False have ne: "inp \<noteq> []" using empty_line by (auto simp: l_def)
    then have r: "r \<noteq> 0" "out = l @ [CHR 0x00]" and nul: "CHR 0x00 \<in> set (store buf out)"
      using out by (auto simp: store_def)
    have step: "hdr_waits buf rp s \<longleftrightarrow> hdr_waits (store buf out) rp1 s1"
      using 1(4) rd r(1) nul nw by (subst hdr_waits.simps) simp
    have split: "split_lines inp = l # split_lines (rio_pending rp1 @ avail s1)"
      using split_lines_simps(2) [OF ne] st(3) by (simp add: l_def)
    have iff: "is_crlf (store buf out) \<longleftrightarrow> l = crlf" using is_crlf_line [OF l_def] r(2) by simp
    show ?thesis
    proof (cases "l = crlf")
      case True
      then have "\<not> hdr_waits (store buf out) rp1 s1" using iff by (subst hdr_waits.simps) simp
      then show ?thesis using step split True by (simp add: inp_def [symmetric])
    next
      case False
      have "hdr_waits (store buf out) rp1 s1 \<longleftrightarrow> crlf \<notin> set (split_lines (rio_pending rp1 @ avail s1))"
        using 1(1) [OF 1(4) nw rd [symmetric] refl refl _ st(1,2)] r(1) nul iff False by simp
      then show ?thesis using step split False by (auto simp: inp_def [symmetric])
    qed
  qed
qed

lemma requesthdrs_wait_iff:
  assumes "rio_ok rp" "clean s" "\<not> is_crlf junk"
  shows "requesthdrs_wait junk rp s \<longleftrightarrow> crlf \<notin> set (split_lines (rio_pending rp @ avail s))"
proof -
  define inp where "inp = rio_pending rp @ avail s"
  define l where "l = cut_line (MAXLINE - 1) inp"
  obtain r out rp1 s1 where rd: "rio_readlineb MAXLINE rp s = (r, out, rp1, s1)"
    and st: "rio_ok rp1" "clean s1" "rio_pending rp1 @ avail s1 = drop (length l) inp"
    and out: "if inp = [] then r = 0 \<and> out = [] else r \<noteq> 0 \<and> out = l @ [CHR 0x00]"
    using readline_clean [OF assms(1,2)] unfolding inp_def l_def by blast
  have wait: "readline_waits MAXLINE 1 rp s \<longleftrightarrow> \<not> ends_line l \<and> length l \<noteq> MAXLINE - 1"
    using line_waits_iff [OF assms(1,2)] by (simp add: l_def inp_def)
  show ?thesis
  proof (cases "\<not> ends_line l \<and> length l \<noteq> MAXLINE - 1")
    case True
    with wait waiting_last [OF l_def] show ?thesis by (simp add: requesthdrs_wait_def inp_def [symmetric])
  next
    case False
    with wait have nw: "\<not> readline_waits MAXLINE 1 rp s" by blast
    from False have ne: "inp \<noteq> []" using empty_line by (auto simp: l_def)
    have split: "split_lines inp = l # split_lines (rio_pending rp1 @ avail s1)"
      using split_lines_simps(2) [OF ne] st(3) by (simp add: l_def)
    have iff: "is_crlf (store junk out) \<longleftrightarrow> l = crlf" using is_crlf_line [OF l_def] out ne by simp
    have step: "requesthdrs_wait junk rp s \<longleftrightarrow> hdr_waits (store junk out) rp1 s1"
      using nw rd by (simp add: requesthdrs_wait_def)
    show ?thesis
    proof (cases "l = crlf")
      case True
      then have "\<not> hdr_waits (store junk out) rp1 s1" using iff by (subst hdr_waits.simps) simp
      then show ?thesis using step split True by (simp add: inp_def [symmetric])
    next
      case ne: False
      with hdr_waits_iff [OF st(1,2), of "store junk out"] iff step split show ?thesis
        by (auto simp: inp_def [symmetric])
    qed
  qed
qed

text \<open>
  On a connection that stays open \<open>handleRead\<close> returns exactly when a complete request comes: with less, one of its
  reads waits for ever, and with it the loop of the connection.
\<close>

theorem handleRead_waits_iff:
  assumes "clean s" "\<not> is_crlf junk2"
  shows "handleRead_waits junk junk2 rp0 fd s \<longleftrightarrow> \<not> request_complete (all_bytes s)"
proof -
  let ?rp = "rio_init fd rp0"
  define inp where "inp = all_bytes s"
  define l where "l = cut_line (MAXLINE - 1) inp"
  have inp: "rio_pending ?rp @ avail s = inp" using clean_avail [OF assms(1)] by (simp add: inp_def)
  obtain r out rp1 s1 where rd: "rio_readlineb MAXLINE ?rp s = (r, out, rp1, s1)"
    and st: "rio_ok rp1" "clean s1" "rio_pending rp1 @ avail s1 = drop (length l) inp"
    and out: "if inp = [] then r = 0 \<and> out = [] else r \<noteq> 0 \<and> out = l @ [CHR 0x00]"
    using readline_clean [OF rio_init_ok(1) assms(1), of fd rp0] unfolding inp l_def by blast
  have wait: "readline_waits MAXLINE 1 ?rp s \<longleftrightarrow> \<not> ends_line l \<and> length l \<noteq> MAXLINE - 1"
    using line_waits_iff [OF rio_init_ok(1) assms(1), of fd rp0] unfolding inp by (simp add: l_def)
  show ?thesis
  proof (cases "\<not> ends_line l \<and> length l \<noteq> MAXLINE - 1")
    case True
    then have "l = inp"
      using cut_line_all [of "MAXLINE - 1" inp] cut_line_length [of "MAXLINE - 1" inp] by (auto simp: l_def)
    then have "tl (split_lines inp) = []"
      using split_lines_simps l_def by (cases "inp = []") simp_all
    with True wait show ?thesis by (simp add: handleRead_waits_def request_complete_def inp_def [symmetric])
  next
    case False
    with wait have nw: "\<not> readline_waits MAXLINE 1 ?rp s" by blast
    from False have ne: "inp \<noteq> []" using empty_line by (auto simp: l_def)
    have "tl (split_lines inp) = split_lines (rio_pending rp1 @ avail s1)"
      using split_lines_simps(2) [OF ne] st(3) by (simp add: l_def)
    moreover have "CHR 0x00 \<in> set (store junk out)" using out ne by (simp add: store_def)
    ultimately show ?thesis
      using nw rd requesthdrs_wait_iff [OF st(1,2) assms(2)]
      by (simp add: handleRead_waits_def request_complete_def inp_def [symmetric])
  qed
qed

end
