(* ===== verification/HttpProgram.thy ===== *)
theory HttpProgram
  imports HttpWaits
begin

text \<open>
  The program of src/test/test.cpp: a main loop, an \<open>HttpServer\<close> with a pool of threads (the program asks for one),
  \<open>start\<close>, and then the loops of all threads, interleaved, over the Linux poller. Loop \<open>l\<close> belongs to thread \<open>l\<close>,
  loop 0 is the main loop.
\<close>

section \<open>The loops\<close>

text \<open>
  What the kernel and the uninitialised memory are in one step: the reports of \<open>epoll_wait\<close>, the result of \<open>accept\<close>,
  what the descriptor of each connection delivers, the file with its size as \<open>stat\<close> tells it, how writes to the socket go.
  After its script a connection is at its end, unless the peer keeps it open (\<open>io_open\<close>): then nothing comes any more.
\<close>

record http_io =
  io_reports :: "(int \<times> 32 word) list"
  io_accept :: int
  io_junk :: "32 word"
  io_line :: "char list"
  io_hdr :: "char list"
  io_rio :: rio_t
  io_script :: "nat \<Rightarrow> read_ev list"
  io_open :: "nat \<Rightarrow> bool"
  io_stat :: "nat option"
  io_file :: "read_ev list option"
  io_block :: "char list"
  io_errs :: "nat \<Rightarrow> bool"
  io_takes :: "write_ev list"
  io_fuel :: nat

text \<open>A thread is before its poll, or has active channels left to handle.\<close>

datatype turn_pc = AtPoll | Handling "chan_ptr list"

text \<open>\<open>hp_asked\<close> counts the complete requests read from a connection, \<open>hp_sent\<close> holds the responses sent to it.\<close>

record http_prog =
  hp_world :: "epoller http_world"
  hp_pc :: "loop_id \<Rightarrow> turn_pc"
  hp_asked :: "nat \<Rightarrow> nat"
  hp_sent :: "nat \<Rightarrow> char list list"

text \<open>Calling a handler in thread \<open>tid\<close>. It is None when it does not return, as \<open>serve_static\<close> may do, and
  \<open>handleRead\<close> when it waits for a client that sends no more.\<close>

definition http_call :: "epoller http_env \<Rightarrow> http_io \<Rightarrow> nat \<Rightarrow> http_handler \<Rightarrow> http_prog \<Rightarrow> http_prog res option" where
  "http_call env io tid h P =
     (case h of
        WakeH \<Rightarrow> Some (Inr P)
      | AcceptH \<Rightarrow>
          Some (bindE (handNewConn env (io_junk io) tid (io_accept io) (hp_world P)) (\<lambda>W. Inr (P\<lparr>hp_world := W\<rparr>)))
      | HttpReadH i \<Rightarrow>
          if io_open io i \<and>
             handleRead_waits (io_line io) (io_hdr io) (io_rio io) (hd_fd (hw_data (hp_world P) ! i)) (io_script io i)
          then None
          else Some (bindE (http_handleRead env tid (io_line io) (io_hdr io) (io_rio io) i (io_script io i) (hp_world P))
            (\<lambda>(W, s). Inr (P\<lparr>hp_world := W,
               hp_asked := (hp_asked P)(i := hp_asked P i + (if request_complete (all_bytes (io_script io i)) then 1 else 0))\<rparr>)))
      | HttpWriteH i \<Rightarrow>
          map_option (\<lambda>r. bindE r (\<lambda>(W, sent). Inr (P\<lparr>hp_world := W, hp_sent := (hp_sent P)(i := hp_sent P i @ [sent])\<rparr>)))
            (http_handleWrite env tid (io_fuel io) (io_errs io) (io_block io) (io_stat io) (io_file io) (io_takes io) i (hp_world P)))"

text \<open>
  One step of thread \<open>l\<close> in \<open>EventLoop::loop\<close>: the poll, or the dispatch of the next active channel, or, when
  none is left, the pending functors.
\<close>

definition http_turn :: "epoller http_env \<Rightarrow> http_io \<Rightarrow> loop_id \<Rightarrow> http_prog \<Rightarrow> http_prog res option" where
  "http_turn env io l P =
     (let W = hp_world P; L = hw_loops W l in
      case hp_pc P l of
        AtPoll \<Rightarrow>
          (case epoll_poll (io_reports io) (el_poller L) (el_heap L) of (h, cs, calls) \<Rightarrow>
             Some (Inr (P\<lparr>hp_world := W\<lparr>hw_loops := (hw_loops W)(l := L\<lparr>el_heap := h\<rparr>)\<rparr>, hp_pc := (hp_pc P)(l := Handling cs)\<rparr>)))
      | Handling [] \<Rightarrow>
          Some (bindE (on_loop l (doPendingFunctors (exec_fn env (\<lambda>_. Inr))) W)
            (\<lambda>W1. Inr (P\<lparr>hp_world := W1, hp_pc := (hp_pc P)(l := AtPoll)\<rparr>)))
      | Handling (c # cs) \<Rightarrow>
          (let P1 = P\<lparr>hp_pc := (hp_pc P)(l := Handling cs)\<rparr> in
           case handleEvent (el_heap L c) of
             Inl e \<Rightarrow> Some (Inl e)
           | Inr None \<Rightarrow> Some (Inr P1)
           | Inr (Some h) \<Rightarrow> http_call env io l h P1))"

fun http_turns :: "epoller http_env \<Rightarrow> loop_id \<Rightarrow> http_io list \<Rightarrow> http_prog \<Rightarrow> http_prog res option" where
  "http_turns env l [] P = Some (Inr P)"
| "http_turns env l (io # ios) P =
     (case http_turn env io l P of
        None \<Rightarrow> None
      | Some (Inl e) \<Rightarrow> Some (Inl e)
      | Some (Inr P1) \<Rightarrow> http_turns env l ios P1)"

section \<open>The program\<close>

definition http_env_of :: "(sys_call \<Rightarrow> int) \<Rightarrow> 32 word \<Rightarrow> epoller http_env" where
  "http_env_of sys junk =
     \<lparr>vt_update = epoll_upd sys junk, vt_remove = epoll_rem sys, tm_handler = (\<lambda>_. AcceptH), tm_junk = junk\<rparr>"

definition new_loop :: "(sys_call \<Rightarrow> int) \<Rightarrow> 32 word \<Rightarrow> nat \<Rightarrow> int \<Rightarrow> int \<Rightarrow> epoller http_loop res" where
  "new_loop sys junk tid epfd efd =
     bindE (Epoller_ctor sys junk epfd efd 0 WakeH (\<lambda>_. Channel_default_ctor junk)) (\<lambda>(p, h, calls).
     EventLoop_ctor False tid p h 1)"

text \<open>The threads of the pool each make their loop.\<close>

fun new_loops :: "(loop_id \<Rightarrow> epoller http_loop res) \<Rightarrow> nat \<Rightarrow> (loop_id \<Rightarrow> epoller http_loop) \<Rightarrow>
    (loop_id \<Rightarrow> epoller http_loop) res" where
  "new_loops mk 0 Ls = Inr Ls"
| "new_loops mk (Suc k) Ls = bindE (new_loops mk k Ls) (\<lambda>Ls1. bindE (mk (Suc k)) (\<lambda>L. Inr (Ls1(Suc k := L))))"

text \<open>
  \<open>main\<close>, up to where all threads are in their loops; \<open>epfd l\<close> and \<open>efd l\<close> are the descriptors the poller of loop \<open>l\<close>
  gets. A loop that does not exist yet holds the value of the main loop.
\<close>

definition http_main :: "(sys_call \<Rightarrow> int) \<Rightarrow> (sock_call \<Rightarrow> int) \<Rightarrow> 32 word \<Rightarrow> (loop_id \<Rightarrow> int) \<Rightarrow> (loop_id \<Rightarrow> int) \<Rightarrow>
    nat \<Rightarrow> int \<Rightarrow> http_prog res" where
  "http_main sys ssys junk epfd efd threads port =
     bindE (new_loop sys junk 0 (epfd 0) (efd 0)) (\<lambda>L.
     bindE (HttpServer_ctor ssys junk 0 (int threads) port (\<lambda>_. L)) (\<lambda>W.
     bindE (new_loops (\<lambda>l. new_loop sys junk l (epfd l) (efd l)) threads (hw_loops W)) (\<lambda>Ls.
     bindE (HttpServer_start (http_env_of sys junk) Suc 0 (W\<lparr>hw_loops := Ls\<rparr>)) (\<lambda>W1.
       Inr \<lparr>hp_world = W1\<lparr>hw_loops := \<lambda>l. (hw_loops W1 l)\<lparr>el_running := True\<rparr>\<rparr>, hp_pc = \<lambda>_. AtPoll,
            hp_asked = \<lambda>_. 0, hp_sent = \<lambda>_. []\<rparr>))))"

section \<open>What is assumed of the kernel\<close>

text \<open>
  A connection is read without errors, it has been closed or sends a complete request, and the arrays of \<open>handleRead\<close> and
  \<open>read_requesthdrs\<close> happen to hold a zero and not to hold an empty line.
\<close>

definition reads_ok :: "http_io \<Rightarrow> bool" where
  "reads_ok io \<longleftrightarrow> CHR 0x00 \<in> set (io_line io) \<and> \<not> is_crlf (io_hdr io) \<and> (\<forall>i. clean (io_script io i)) \<and>
     (\<forall>i. io_open io i \<longrightarrow> request_complete (all_bytes (io_script io i)))"

text \<open>The file holds \<open>page\<close>, \<open>stat\<close> tells its size and it can be opened and read, and writes to a connection take something.\<close>

definition serves_ok :: "char list \<Rightarrow> http_io \<Rightarrow> bool" where
  "serves_ok page io \<longleftrightarrow>
     io_stat io = Some (length page) \<and> (\<exists>f. io_file io = Some f \<and> clean f \<and> all_bytes f = page) \<and>
     takes_all (io_takes io) \<and> length (io_block io) = MAXLINE \<and> length page < io_fuel io"

definition io_ok :: "char list \<Rightarrow> http_io \<Rightarrow> bool" where
  "io_ok page io \<longleftrightarrow> reads_ok io \<and> serves_ok page io"

text \<open>
  \<open>epoll_wait\<close> reports a descriptor once, and writability alone only where it has been asked for; \<open>accept\<close> returns a
  descriptor that is not in use.
\<close>

definition reports_asked :: "32 word \<Rightarrow> (int \<times> 32 word) list \<Rightarrow> epoller http_loop \<Rightarrow> bool" where
  "reports_asked junk evs L \<longleftrightarrow>
     distinct (map fst evs) \<and>
     (\<forall>(fd, r)\<in>set evs. \<forall>c. channels (el_poller L) fd = Some c \<longrightarrow> r = EPOLLOUT \<longrightarrow>
        has (epoll_mask junk (ch_last (el_heap L c))) EPOLLOUT)"

definition fresh_fd :: "(loop_id \<Rightarrow> int) \<Rightarrow> nat \<Rightarrow> epoller http_world \<Rightarrow> int \<Rightarrow> bool" where
  "fresh_fd efd threads W fd \<longleftrightarrow> fd \<notin> hd_fd ` set (hw_data W) \<and> (\<forall>k\<le>threads. fd \<noteq> efd k)"

definition kernel_ok :: "32 word \<Rightarrow> (loop_id \<Rightarrow> int) \<Rightarrow> nat \<Rightarrow> http_prog \<Rightarrow> loop_id \<Rightarrow> http_io \<Rightarrow> bool" where
  "kernel_ok junk efd threads P l io \<longleftrightarrow>
     reports_asked junk (io_reports io) (hw_loops (hp_world P) l) \<and> fresh_fd efd threads (hp_world P) (io_accept io)"

inductive http_reach :: "epoller http_env \<Rightarrow> char list \<Rightarrow> 32 word \<Rightarrow> (loop_id \<Rightarrow> int) \<Rightarrow> nat \<Rightarrow> http_prog \<Rightarrow> http_prog \<Rightarrow> bool"
  for env page junk efd threads P0 where
  init: "http_reach env page junk efd threads P0 P0"
| step: "http_reach env page junk efd threads P0 P \<Longrightarrow> l \<le> threads \<Longrightarrow> io_ok page io \<Longrightarrow>
    kernel_ok junk efd threads P l io \<Longrightarrow> http_turn env io l P = Some (Inr P') \<Longrightarrow>
    http_reach env page junk efd threads P0 P'"

section \<open>The invariant\<close>

text \<open>The channel of connection \<open>i\<close>.\<close>

definition conn_chan_ok :: "nat \<Rightarrow> int \<Rightarrow> http_handler channel \<Rightarrow> bool" where
  "conn_chan_ok i fd ch \<longleftrightarrow> ch_fd ch = fd \<and> \<not> ch_isListen ch \<and> ch_readHandler ch = Some (HttpReadH i) \<and>
     ch_writeHandler ch = Some (HttpWriteH i) \<and>
     (ch_events ch = CHANNEL_READ \<or> ch_events ch = CHANNEL_READ OR CHANNEL_WRITE)"

definition wake_ok :: "int \<Rightarrow> http_handler channel \<Rightarrow> bool" where
  "wake_ok efd ch \<longleftrightarrow> ch_fd ch = efd \<and> \<not> ch_isListen ch \<and> ch_events ch = CHANNEL_READ \<and> ch_last ch = CHANNEL_READ \<and>
     ch_readHandler ch = Some WakeH"

text \<open>A connection on loop \<open>L\<close>, registered or with its registration among the functors \<open>Q\<close>.\<close>

definition member_ok :: "int \<Rightarrow> unit loop_fn list \<Rightarrow> nat \<Rightarrow> http_data \<Rightarrow> epoller http_loop \<Rightarrow> bool" where
  "member_ok efd Q i d L \<longleftrightarrow>
     (let c = hd_channel d; ch = el_heap L c in
      0 < c \<and> c < el_next_ptr L \<and> hd_fd d \<noteq> efd \<and> conn_chan_ok i (hd_fd d) ch \<and>
      (channels (el_poller L) (hd_fd d) = Some c \<and> ch_last ch = ch_events ch \<or>
       channels (el_poller L) (hd_fd d) = None \<and> UpdateFn c \<in> set Q))"

text \<open>Loop \<open>l\<close> of the pool, where \<open>D\<close> are all connections.\<close>

definition worker_ok :: "int \<Rightarrow> http_data list \<Rightarrow> loop_id \<Rightarrow> unit loop_fn list \<Rightarrow> epoller http_loop \<Rightarrow> bool" where
  "worker_ok efd D l Q L \<longleftrightarrow>
     el_thread_id L = l \<and> 0 < el_next_ptr L \<and> wake_ok efd (el_heap L 0) \<and>
     (\<forall>i<length D. hd_loop (D ! i) = l \<longrightarrow> member_ok efd Q i (D ! i) L) \<and>
     (\<forall>fd c. channels (el_poller L) fd = Some c \<longrightarrow>
        c = 0 \<and> fd = efd \<or> (\<exists>i<length D. hd_loop (D ! i) = l \<and> hd_channel (D ! i) = c \<and> hd_fd (D ! i) = fd)) \<and>
     (\<forall>f\<in>set Q. \<exists>i<length D. hd_loop (D ! i) = l \<and> f = UpdateFn (hd_channel (D ! i)))"

definition main_ok :: "int \<Rightarrow> int \<Rightarrow> epoller http_loop \<Rightarrow> bool" where
  "main_ok efd lfd L \<longleftrightarrow>
     el_thread_id L = 0 \<and> el_pending L = [] \<and> wake_ok efd (el_heap L 0) \<and>
     (let ch = el_heap L 1 in \<not> ch_isListen ch \<and> ch_events ch = CHANNEL_CONN \<and> ch_last ch = CHANNEL_CONN \<and>
        ch_readHandler ch = Some AcceptH) \<and>
     channels (el_poller L) lfd = Some 1 \<and>
     (\<forall>fd c. channels (el_poller L) fd = Some c \<longrightarrow> c = 0 \<or> c = 1) \<and> reg_ok (channels (el_poller L)) (el_heap L)"

text \<open>An active channel left to handle: if it is active for writing only, it waits for that.\<close>

definition active_ok :: "http_handler channel \<Rightarrow> bool" where
  "active_ok ch \<longleftrightarrow> ch_active ch = 0 \<or> ch_active ch = CHANNEL_READ \<or>
     ch_active ch = CHANNEL_WRITE \<and> has (ch_events ch) CHANNEL_WRITE"

definition handling_ok :: "turn_pc \<Rightarrow> epoller http_loop \<Rightarrow> bool" where
  "handling_ok pc L \<longleftrightarrow>
     (\<forall>cs. pc = Handling cs \<longrightarrow> distinct cs \<and>
        (\<forall>c\<in>set cs. c \<in> ran (channels (el_poller L)) \<and> active_ok (el_heap L c)))"

definition wants_write :: "epoller http_world \<Rightarrow> nat \<Rightarrow> bool" where
  "wants_write W i \<longleftrightarrow> i < length (hw_data W) \<and>
     has (ch_events (el_heap (hw_loops W (hd_loop (hw_data W ! i))) (hd_channel (hw_data W ! i)))) CHANNEL_WRITE"

text \<open>A response: the head, and the file filled up to blocks of 1024 bytes.\<close>

definition response :: "char list \<Rightarrow> char list \<Rightarrow> bool" where
  "response page r \<longleftrightarrow>
     (\<exists>body. r = response_head ''text/html'' (int (length page)) @ body \<and> take (length page) body = page \<and>
        length body = 1024 * ((length page + 1023) div 1024))"

definition answers_ok :: "char list \<Rightarrow> http_prog \<Rightarrow> bool" where
  "answers_ok page P \<longleftrightarrow>
     (\<forall>i. length (hp_sent P i) + (if wants_write (hp_world P) i then 1 else 0) \<le> hp_asked P i \<and>
        (\<forall>r\<in>set (hp_sent P i). response page r) \<and> (length (hw_data (hp_world P)) \<le> i \<longrightarrow> hp_sent P i = []))"

definition http_inv :: "char list \<Rightarrow> (loop_id \<Rightarrow> int) \<Rightarrow> nat \<Rightarrow> http_prog \<Rightarrow> bool" where
  "http_inv page efd threads P \<longleftrightarrow>
     (let W = hp_world P; D = hw_data W in
      hw_main W = 0 \<and> 0 < threads \<and> tp_maxn (hw_pool W) = threads \<and> tp_loops (hw_pool W) = map Suc [0..<threads] \<and>
      tp_next (hw_pool W) = length D mod threads \<and>
      main_ok (efd 0) (hw_listen_fd W) (hw_loops W 0) \<and>
      (\<forall>l\<in>{1..threads}. worker_ok (efd l) D l (el_pending (hw_loops W l)) (hw_loops W l)) \<and>
      distinct (map hd_fd D) \<and> (\<forall>i<length D. hd_loop (D ! i) = Suc (i mod threads)) \<and>
      (\<forall>l\<le>threads. handling_ok (hp_pc P l) (hw_loops W l)) \<and> answers_ok page P)"

section \<open>Registering and changing events\<close>

lemma update_run:
  assumes "\<forall>call. 0 \<le> sys call"
  shows "do_update (http_env_of sys junk) c L =
    L\<lparr>el_poller := (el_poller L)\<lparr>channels := (channels (el_poller L))(ch_fd (el_heap L c) \<mapsto> c)\<rparr>,
      el_heap := on_chan c updateEvent (el_heap L)\<rparr>"
proof -
  have s: "\<not> sys call < 0" "sys call \<noteq> -1" for call using spec [OF assms, of call] by auto
  show ?thesis by (simp add: do_update_def http_env_of_def epoll_upd_def epoll_update_def Let_def s)
qed

text \<open>Events of a connection changed on its own loop.\<close>

definition with_events :: "chan_ptr \<Rightarrow> 32 word \<Rightarrow> epoller http_loop \<Rightarrow> epoller http_loop" where
  "with_events c e L =
     L\<lparr>el_poller := (el_poller L)\<lparr>channels := (channels (el_poller L))(ch_fd (el_heap L c) \<mapsto> c)\<rparr>,
       el_heap := on_chan c (\<lambda>ch. updateEvent (setEvent e ch)) (el_heap L)\<rparr>"

lemma update_with_events:
  assumes "\<forall>call. 0 \<le> sys call"
  shows "do_update (http_env_of sys junk) c (L\<lparr>el_heap := on_chan c (setEvent e) (el_heap L)\<rparr>) = with_events c e L"
    and "do_update (http_env_of sys junk) c L = with_events c (ch_events (el_heap L c)) L"
  unfolding update_run [OF assms] with_events_def
  by (simp_all add: on_chan_def setEvent_def updateEvent_def)

lemma with_events_frame [simp]:
  "el_thread_id (with_events c e L) = el_thread_id L" "el_next_ptr (with_events c e L) = el_next_ptr L"
  "el_pending (with_events c e L) = el_pending L" "el_running (with_events c e L) = el_running L"
  "d \<noteq> c \<Longrightarrow> el_heap (with_events c e L) d = el_heap L d"
  "el_heap (with_events c e L) c = updateEvent (setEvent e (el_heap L c))"
  "channels (el_poller (with_events c e L)) = (channels (el_poller L))(ch_fd (el_heap L c) \<mapsto> c)"
  by (simp_all add: with_events_def)

lemma member_okD:
  assumes "member_ok efd Q i d L"
  shows "0 < hd_channel d" "hd_channel d < el_next_ptr L" "hd_fd d \<noteq> efd" "conn_chan_ok i (hd_fd d) (el_heap L (hd_channel d))"
  using assms by (simp_all add: member_ok_def Let_def)

lemma worker_okD:
  assumes "worker_ok efd D l Q L"
  shows "el_thread_id L = l" "0 < el_next_ptr L" "wake_ok efd (el_heap L 0)"
    "i < length D \<Longrightarrow> hd_loop (D ! i) = l \<Longrightarrow> member_ok efd Q i (D ! i) L"
    "channels (el_poller L) fd = Some c \<Longrightarrow>
       c = 0 \<and> fd = efd \<or> (\<exists>i<length D. hd_loop (D ! i) = l \<and> hd_channel (D ! i) = c \<and> hd_fd (D ! i) = fd)"
    "f \<in> set Q \<Longrightarrow> \<exists>i<length D. hd_loop (D ! i) = l \<and> f = UpdateFn (hd_channel (D ! i))"
  using assms by (auto simp: worker_ok_def)

text \<open>A channel belongs to one connection, and so does a descriptor.\<close>

lemma channel_of:
  assumes "worker_ok efd D l Q L" "i < length D" "hd_loop (D ! i) = l" "j < length D" "hd_loop (D ! j) = l"
    and "hd_channel (D ! i) = hd_channel (D ! j)"
  shows "i = j"
  using member_okD(4) [OF worker_okD(4) [OF assms(1-3)]] member_okD(4) [OF worker_okD(4) [OF assms(1,4,5)]] assms(6)
  by (simp add: conn_chan_ok_def)

lemma fd_of: "distinct (map hd_fd D) \<Longrightarrow> i < length D \<Longrightarrow> j < length D \<Longrightarrow> hd_fd (D ! i) = hd_fd (D ! j) \<Longrightarrow> i = j"
  by (metis distinct_conv_nth length_map nth_map)

lemma worker_update:
  assumes ok: "worker_ok efd D l Q L" and D: "distinct (map hd_fd D)" and i: "i < length D" "hd_loop (D ! i) = l"
    and e: "e = CHANNEL_READ \<or> e = CHANNEL_READ OR CHANNEL_WRITE"
    and Q: "set Q \<subseteq> insert (UpdateFn (hd_channel (D ! i))) (set Q')" "set Q' \<subseteq> set Q"
  shows "worker_ok efd D l Q' (with_events (hd_channel (D ! i)) e L)"
proof -
  let ?c = "hd_channel (D ! i)" let ?L = "with_events ?c e L"
  note mi = member_okD [OF worker_okD(4) [OF ok i]]
  have fd: "ch_fd (el_heap L ?c) = hd_fd (D ! i)" using mi(4) by (simp add: conn_chan_ok_def)
  have "member_ok efd Q' j (D ! j) ?L" if j: "j < length D" "hd_loop (D ! j) = l" for j
  proof (cases "j = i")
    case True
    with mi e fd show ?thesis by (auto simp: member_ok_def conn_chan_ok_def Let_def updateEvent_def setEvent_def)
  next
    case False
    have c: "hd_channel (D ! j) \<noteq> ?c" using channel_of [OF ok j i] False by blast
    have f: "hd_fd (D ! j) \<noteq> hd_fd (D ! i)" using fd_of [OF D j(1) i(1)] False by blast
    have "member_ok efd Q j (D ! j) L" using worker_okD(4) [OF ok j] .
    with c f fd Q(1) show ?thesis by (auto simp: member_ok_def Let_def)
  qed
  moreover have "c = 0 \<and> f = efd \<or> (\<exists>j<length D. hd_loop (D ! j) = l \<and> hd_channel (D ! j) = c \<and> hd_fd (D ! j) = f)"
    if "channels (el_poller ?L) f = Some c" for f c
    using that worker_okD(5) [OF ok, of f c] i fd by (auto split: if_splits)
  moreover have "wake_ok efd (el_heap ?L 0)" using worker_okD(3) [OF ok] mi(1) by simp
  ultimately show ?thesis
    using worker_okD(1,2) [OF ok] worker_okD(6) [OF ok] Q(2) unfolding worker_ok_def by auto
qed

text \<open>The channels that are left to handle stay registered, and those of other connections untouched.\<close>

lemma with_events_channels:
  assumes ok: "worker_ok efd D l Q L" and D: "distinct (map hd_fd D)" and i: "i < length D" "hd_loop (D ! i) = l"
  shows "ran (channels (el_poller L)) \<subseteq> ran (channels (el_poller (with_events (hd_channel (D ! i)) e L)))"
proof
  fix c assume "c \<in> ran (channels (el_poller L))"
  then obtain f where f: "channels (el_poller L) f = Some c" by (auto simp: ran_def)
  note mi = member_okD [OF worker_okD(4) [OF ok i]]
  have fd: "ch_fd (el_heap L (hd_channel (D ! i))) = hd_fd (D ! i)" using mi(4) by (simp add: conn_chan_ok_def)
  have "c = hd_channel (D ! i)" if "f = hd_fd (D ! i)"
    using worker_okD(5) [OF ok f] that mi(3) fd_of [OF D _ i(1)] by blast
  with f fd show "c \<in> ran (channels (el_poller (with_events (hd_channel (D ! i)) e L)))"
    by (cases "f = hd_fd (D ! i)") (auto simp: ran_def)
qed

lemma worker_functors:
  assumes "\<forall>call. 0 \<le> sys call" and D: "distinct (map hd_fd D)"
  shows "worker_ok efd D l fs L \<Longrightarrow>
    \<exists>L'. run_functors (exec_fn (http_env_of sys junk) (\<lambda>_. Inr)) fs L = Inr L' \<and> worker_ok efd D l [] L' \<and>
      el_pending L' = el_pending L \<and> (\<forall>c. ch_events (el_heap L' c) = ch_events (el_heap L c))"
proof (induction fs arbitrary: L)
  case Nil
  then show ?case by simp
next
  case (Cons f fs)
  obtain i where i: "i < length D" "hd_loop (D ! i) = l" "f = UpdateFn (hd_channel (D ! i))"
    using worker_okD(6) [OF Cons.prems, of f] by auto
  let ?c = "hd_channel (D ! i)" let ?L = "with_events ?c (ch_events (el_heap L ?c)) L"
  have "ch_events (el_heap L ?c) = CHANNEL_READ \<or> ch_events (el_heap L ?c) = CHANNEL_READ OR CHANNEL_WRITE"
    using member_okD(4) [OF worker_okD(4) [OF Cons.prems i(1,2)]] by (simp add: conn_chan_ok_def)
  then have "worker_ok efd D l fs ?L"
    using worker_update [OF Cons.prems D i(1,2), of _ fs] i(3) by auto
  from Cons.IH [OF this] obtain L' where L': "run_functors (exec_fn (http_env_of sys junk) (\<lambda>_. Inr)) fs ?L = Inr L'"
    "worker_ok efd D l [] L'" "el_pending L' = el_pending ?L" "\<forall>c. ch_events (el_heap L' c) = ch_events (el_heap ?L c)" by blast
  have "ch_events (el_heap ?L c) = ch_events (el_heap L c)" for c
    by (cases "c = ?c") (simp_all add: updateEvent_def setEvent_def)
  moreover have "exec_fn (http_env_of sys junk) (\<lambda>_. Inr) f L = Inr ?L"
    using i(3) by (simp add: exec_fn_def update_with_events(2) [OF assms(1)])
  ultimately show ?case using L' by simp
qed

section \<open>Polling\<close>

definition loop_fine :: "epoller http_loop \<Rightarrow> bool" where
  "loop_fine L \<longleftrightarrow> reg_ok (channels (el_poller L)) (el_heap L) \<and>
     (\<forall>c\<in>ran (channels (el_poller L)). ch_last (el_heap L c) = ch_events (el_heap L c))"

lemma worker_fine:
  assumes "worker_ok efd D l Q L"
  shows "loop_fine L"
proof -
  have "ch_fd (el_heap L c) = fd \<and> ch_last (el_heap L c) = ch_events (el_heap L c)"
    if c: "channels (el_poller L) fd = Some c" for fd c
    using worker_okD(5) [OF assms c]
  proof (elim disjE exE conjE)
    assume "c = 0" "fd = efd"
    then show ?thesis using worker_okD(3) [OF assms] by (simp add: wake_ok_def)
  next
    fix i assume i: "i < length D" "hd_loop (D ! i) = l" "hd_channel (D ! i) = c" "hd_fd (D ! i) = fd"
    with worker_okD(4) [OF assms i(1,2)] c show ?thesis by (auto simp: member_ok_def conn_chan_ok_def Let_def)
  qed
  then show ?thesis by (auto simp: loop_fine_def reg_ok_def ran_def)
qed

lemma main_fine: "main_ok efd lfd L \<Longrightarrow> loop_fine L"
  by (fastforce simp: main_ok_def loop_fine_def wake_ok_def ran_def Let_def)

lemma mask_write: "has (epoll_mask junk evt) EPOLLOUT \<Longrightarrow> \<not> has junk EPOLLOUT \<Longrightarrow> has evt CHANNEL_WRITE"
  by (auto simp: epoll_mask_def Let_def has_or split: if_splits) (simp_all add: has_def EPOLLIN_def EPOLLOUT_def)

lemma polled_handling:
  assumes fine: "loop_fine L" and poll: "epoll_poll (io_reports io) (el_poller L) (el_heap L) = (h, cs, calls)"
    and junk: "\<not> has junk EPOLLOUT" and k: "reports_asked junk (io_reports io) L"
  shows "handling_ok (Handling cs) (L\<lparr>el_heap := h\<rparr>)"
proof -
  have reg: "reg_ok (channels (el_poller L)) (el_heap L)" using fine by (simp add: loop_fine_def)
  have "c \<in> ran (channels (el_poller L)) \<and> active_ok (h c)" if c: "c \<in> set cs" for c
  proof -
    obtain fd where fd: "channels (el_poller L) fd = Some c" using c epoll_poll_returned [OF poll] by auto
    then have at: "channels (el_poller L) (ch_fd (el_heap L c)) = Some c" and ran: "c \<in> ran (channels (el_poller L))"
      using reg_okD [OF reg] by (auto simp: ran_def)
    obtain r where r: "(ch_fd (el_heap L c), r) \<in> set (io_reports io)" "ch_active (h c) = epoll_active r (el_heap L c)"
      using epoll_poll_translates [OF poll reg] c by blast
    have ev: "ch_events (h c) = ch_events (el_heap L c)" using epoll_poll_other [OF poll] by blast
    have "r = EPOLLOUT \<Longrightarrow> has (ch_last (el_heap L c)) CHANNEL_WRITE"
      using k r(1) at mask_write [OF _ junk] by (fastforce simp: reports_asked_def)
    then have "active_ok (h c)"
      using epoll_active_values [of r "el_heap L c"] r(2) ev ran fine by (auto simp: active_ok_def loop_fine_def)
    with ran show ?thesis by blast
  qed
  then show ?thesis using epoll_poll_distinct [OF poll reg] k by (simp add: handling_ok_def reports_asked_def)
qed

lemma polled_fields:
  assumes "epoll_poll evs p h = (h', cs, calls)"
  shows "ch_fd (h' c) = ch_fd (h c)" "ch_isListen (h' c) = ch_isListen (h c)" "ch_events (h' c) = ch_events (h c)"
    "ch_last (h' c) = ch_last (h c)" "ch_readHandler (h' c) = ch_readHandler (h c)"
    "ch_writeHandler (h' c) = ch_writeHandler (h c)"
  using epoll_poll_active_only [OF assms, of c] by auto

lemma worker_polled:
  assumes "epoll_poll evs (el_poller L) (el_heap L) = (h, cs, calls)"
  shows "worker_ok efd D l Q (L\<lparr>el_heap := h\<rparr>) = worker_ok efd D l Q L"
  by (simp add: worker_ok_def wake_ok_def member_ok_def conn_chan_ok_def Let_def polled_fields [OF assms])

lemma main_polled:
  assumes "epoll_poll evs (el_poller L) (el_heap L) = (h, cs, calls)"
  shows "main_ok efd lfd (L\<lparr>el_heap := h\<rparr>) = main_ok efd lfd L"
  by (simp add: main_ok_def wake_ok_def reg_ok_def Let_def polled_fields [OF assms])

section \<open>The invariant through the steps\<close>

lemma http_invD:
  assumes "http_inv page efd n P"
  shows "hw_main (hp_world P) = 0" "pool_ok (hw_pool (hp_world P))" "tp_maxn (hw_pool (hp_world P)) = n"
    "tp_loops (hw_pool (hp_world P)) = map Suc [0..<n]" "main_ok (efd 0) (hw_listen_fd (hp_world P)) (hw_loops (hp_world P) 0)"
    "l \<in> {1..n} \<Longrightarrow> worker_ok (efd l) (hw_data (hp_world P)) l (el_pending (hw_loops (hp_world P) l)) (hw_loops (hp_world P) l)"
    "distinct (map hd_fd (hw_data (hp_world P)))" "i < length (hw_data (hp_world P)) \<Longrightarrow> hd_loop (hw_data (hp_world P) ! i) \<in> {1..n}"
    "l \<le> n \<Longrightarrow> handling_ok (hp_pc P l) (hw_loops (hp_world P) l)" "answers_ok page P" "0 < n" "tp_next (hw_pool (hp_world P)) = length (hw_data (hp_world P)) mod n"
    "i < length (hw_data (hp_world P)) \<Longrightarrow> hd_loop (hw_data (hp_world P) ! i) = Suc (i mod n)"
proof -
  show lp: "i < length (hw_data (hp_world P)) \<Longrightarrow> hd_loop (hw_data (hp_world P) ! i) = Suc (i mod n)"
    and n: "0 < n" using assms by (simp_all add: http_inv_def Let_def)
  show "i < length (hw_data (hp_world P)) \<Longrightarrow> hd_loop (hw_data (hp_world P) ! i) \<in> {1..n}"
    using lp n by (simp add: Suc_le_eq)
  show "pool_ok (hw_pool (hp_world P))" using assms by (simp add: http_inv_def pool_ok_def Let_def)
qed (use assms in \<open>simp_all add: http_inv_def Let_def\<close>)

text \<open>A step that changes one loop and leaves the connections and the pool.\<close>

lemma http_inv_upd:
  assumes inv: "http_inv page efd n P"
    and P': "hp_world P' = (hp_world P)\<lparr>hw_loops := (hw_loops (hp_world P))(l := L)\<rparr>"
    and pc: "\<forall>k. k \<noteq> l \<longrightarrow> hp_pc P' k = hp_pc P k"
    and L: "l = 0 \<longrightarrow> main_ok (efd 0) (hw_listen_fd (hp_world P)) L" "l \<in> {1..n} \<longrightarrow> worker_ok (efd l) (hw_data (hp_world P)) l (el_pending L) L"
      "handling_ok (hp_pc P' l) L" "answers_ok page P'"
  shows "http_inv page efd n P'"
  using inv L pc unfolding http_inv_def P' Let_def by (cases "l = 0") auto

lemma waiting_same:
  assumes "\<forall>c. ch_events (el_heap L c) = ch_events (el_heap (hw_loops W l) c)"
  shows "wants_write (W\<lparr>hw_loops := (hw_loops W)(l := L)\<rparr>) i = wants_write W i"
  using assms by (simp add: wants_write_def)

lemma answers_same:
  assumes "answers_ok page P" "hp_asked P' = hp_asked P" "hp_sent P' = hp_sent P"
    and "hp_world P' = (hp_world P)\<lparr>hw_loops := (hw_loops (hp_world P))(l := L)\<rparr>"
    and "\<forall>c. ch_events (el_heap L c) = ch_events (el_heap (hw_loops (hp_world P) l) c)"
  shows "answers_ok page P'"
  using assms(1) unfolding answers_ok_def assms(2-4) waiting_same [OF assms(5)] by simp

lemma turn_poll:
  assumes inv: "http_inv page efd n P" and l: "l \<le> n" and junk: "\<not> has junk EPOLLOUT"
    and k: "reports_asked junk (io_reports io) (hw_loops (hp_world P) l)" and pc: "hp_pc P l = AtPoll"
    and poll: "epoll_poll (io_reports io) (el_poller (hw_loops (hp_world P) l)) (el_heap (hw_loops (hp_world P) l)) = (h, cs, calls)"
    and P': "P' = P\<lparr>hp_world := (hp_world P)\<lparr>hw_loops := (hw_loops (hp_world P))(l := (hw_loops (hp_world P) l)\<lparr>el_heap := h\<rparr>)\<rparr>,
      hp_pc := (hp_pc P)(l := Handling cs)\<rparr>"
  shows "http_turn env io l P = Some (Inr P') \<and> http_inv page efd n P'"
proof -
  let ?W = "hp_world P" let ?L = "hw_loops ?W l"
  have "loop_fine ?L"
    using worker_fine [OF http_invD(6) [OF inv]] main_fine [OF http_invD(5) [OF inv]] l by (cases "l = 0") auto
  from polled_handling [OF this poll junk k] have "handling_ok (Handling cs) (?L\<lparr>el_heap := h\<rparr>)" .
  moreover have "answers_ok page P'"
    by (rule answers_same [OF http_invD(10) [OF inv], where l = l and L = "?L\<lparr>el_heap := h\<rparr>"])
      (simp_all add: P' polled_fields(3) [OF poll])
  moreover have "l = 0 \<longrightarrow> main_ok (efd 0) (hw_listen_fd (hp_world P)) (?L\<lparr>el_heap := h\<rparr>)"
    using main_polled [OF poll] http_invD(5) [OF inv] by auto
  ultimately have "http_inv page efd n P'"
    by (intro http_inv_upd [OF inv, of _ l "?L\<lparr>el_heap := h\<rparr>"])
      (use http_invD(6) [OF inv] in \<open>simp_all add: P' worker_polled [OF poll]\<close>)
  moreover have "http_turn env io l P = Some (Inr P')" by (simp add: http_turn_def pc poll Let_def P')
  ultimately show ?thesis by blast
qed

lemma worker_flags [simp]:
  "worker_ok efd D l Q (L\<lparr>el_calling_pending := b\<rparr>) = worker_ok efd D l Q L"
  "worker_ok efd D l Q (L\<lparr>el_pending := fs\<rparr>) = worker_ok efd D l Q L"
  by (simp_all add: worker_ok_def member_ok_def)

lemma turn_functors:
  assumes inv: "http_inv page efd n P" and l: "l \<le> n" and sys: "\<forall>call. 0 \<le> sys call" and pc: "hp_pc P l = Handling []"
  shows "\<exists>P' L. http_turn (http_env_of sys junk) io l P = Some (Inr P') \<and> http_inv page efd n P' \<and>
    hp_world P' = (hp_world P)\<lparr>hw_loops := (hw_loops (hp_world P))(l := L)\<rparr> \<and> el_pending L = [] \<and>
    (\<forall>c. ch_events (el_heap L c) = ch_events (el_heap (hw_loops (hp_world P) l) c)) \<and>
    hp_pc P' = (hp_pc P)(l := AtPoll) \<and> hp_asked P' = hp_asked P \<and> hp_sent P' = hp_sent P"
proof -
  let ?W = "hp_world P" let ?L = "hw_loops ?W l" let ?exec = "exec_fn (http_env_of sys junk) (\<lambda>_. Inr)"
  obtain L where L: "doPendingFunctors ?exec ?L = Inr L" "el_pending L = []"
    "l = 0 \<longrightarrow> main_ok (efd 0) (hw_listen_fd (hp_world P)) L" "l \<in> {1..n} \<longrightarrow> worker_ok (efd l) (hw_data ?W) l [] L"
    "\<forall>c. ch_events (el_heap L c) = ch_events (el_heap ?L c)"
  proof (cases "l = 0")
    case True
    then have "main_ok (efd 0) (hw_listen_fd (hp_world P)) ?L" using http_invD(5) [OF inv] by simp
    with True show ?thesis
      by (intro that [of "?L\<lparr>el_calling_pending := False, el_pending := []\<rparr>"]) (simp_all add: doPendingFunctors_def main_ok_def Let_def)
  next
    case False
    let ?L1 = "?L\<lparr>el_calling_pending := True, el_pending := []\<rparr>"
    have "worker_ok (efd l) (hw_data ?W) l (el_pending ?L) ?L1" using False l http_invD(6) [OF inv] by simp
    from worker_functors [OF sys http_invD(7) [OF inv] this] obtain L1 where L1: "run_functors ?exec (el_pending ?L) ?L1 = Inr L1"
      "worker_ok (efd l) (hw_data ?W) l [] L1" "el_pending L1 = []" "\<forall>c. ch_events (el_heap L1 c) = ch_events (el_heap ?L c)"
      by auto
    with False show ?thesis
      by (intro that [of "L1\<lparr>el_calling_pending := False\<rparr>"]) (simp_all add: doPendingFunctors_def Let_def)
  qed
  let ?P = "P\<lparr>hp_world := ?W\<lparr>hw_loops := (hw_loops ?W)(l := L)\<rparr>, hp_pc := (hp_pc P)(l := AtPoll)\<rparr>"
  have "answers_ok page ?P" by (rule answers_same [OF http_invD(10) [OF inv], where l = l and L = L]) (simp_all add: L(5))
  then have "http_inv page efd n ?P"
    by (intro http_inv_upd [OF inv, of _ l L]) (use L in \<open>simp_all add: handling_ok_def\<close>)
  moreover have "http_turn (http_env_of sys junk) io l P = Some (Inr ?P)" by (simp add: http_turn_def pc on_loop_def L(1) Let_def)
  ultimately show ?thesis using L(2,5) by (intro exI [of _ ?P] exI [of _ L]) simp
qed

text \<open>A handler that changes nothing.\<close>

lemma next_inv:
  assumes inv: "http_inv page efd n P" and l: "l \<le> n" and pc: "hp_pc P l = Handling (c # cs)"
  shows "http_inv page efd n (P\<lparr>hp_pc := (hp_pc P)(l := Handling cs)\<rparr>)"
proof (rule http_inv_upd [OF inv, where L = "hw_loops (hp_world P) l" and l = l])
  show "l = 0 \<longrightarrow> main_ok (efd 0) (hw_listen_fd (hp_world P)) (hw_loops (hp_world P) l)" using http_invD(5) [OF inv] by simp
  show "handling_ok (hp_pc (P\<lparr>hp_pc := (hp_pc P)(l := Handling cs)\<rparr>) l) (hw_loops (hp_world P) l)"
    using http_invD(9) [OF inv l] pc by (simp add: handling_ok_def)
  show "answers_ok page (P\<lparr>hp_pc := (hp_pc P)(l := Handling cs)\<rparr>)" using http_invD(10) [OF inv] by (simp add: answers_ok_def)
qed (use http_invD(6) [OF inv] in simp_all)

subsection \<open>A connection\<close>

lemma data_events:
  assumes inv: "http_inv page efd n P" and i: "i < length (hw_data (hp_world P))" and sys: "\<forall>call. 0 \<le> sys call"
  shows "let d = hw_data (hp_world P) ! i; l = hd_loop d in
    set_data_events (http_env_of sys junk) l i e (hp_world P) =
      Inr ((hp_world P)\<lparr>hw_loops := (hw_loops (hp_world P))(l := with_events (hd_channel d) e (hw_loops (hp_world P) l))\<rparr>)"
proof -
  let ?l = "hd_loop (hw_data (hp_world P) ! i)"
  have "el_thread_id (hw_loops (hp_world P) ?l) = ?l"
    using worker_okD(1) [OF http_invD(6) [OF inv http_invD(8) [OF inv i]]] .
  then show ?thesis
    by (simp add: set_data_events_def on_loop_def set_and_update_Inr isLoopThread_def Let_def update_with_events(1) [OF sys])
qed

lemma waiting_events:
  assumes inv: "http_inv page efd n P" and i: "i < length (hw_data (hp_world P))"
  shows "let W = hp_world P; d = hw_data W ! i; l = hd_loop d in
    wants_write (W\<lparr>hw_loops := (hw_loops W)(l := with_events (hd_channel d) e (hw_loops W l))\<rparr>) j =
      (if j = i then has e CHANNEL_WRITE else wants_write W j)"
proof -
  let ?W = "hp_world P" let ?D = "hw_data ?W" let ?l = "hd_loop (?D ! i)"
  have ok: "worker_ok (efd ?l) ?D ?l (el_pending (hw_loops ?W ?l)) (hw_loops ?W ?l)"
    using http_invD(6) [OF inv http_invD(8) [OF inv i]] .
  have "hd_channel (?D ! j) \<noteq> hd_channel (?D ! i)" if "j < length ?D" "hd_loop (?D ! j) = ?l" "j \<noteq> i"
    using channel_of [OF ok that(1,2) i refl] that(3) by blast
  then show ?thesis using i
    by (cases "hd_loop (?D ! j) = ?l") (auto simp: wants_write_def Let_def updateEvent_def setEvent_def)
qed

text \<open>The handler of a connection has changed its events.\<close>

lemma events_inv:
  assumes inv: "http_inv page efd n P" and i: "i < length (hw_data (hp_world P))"
    and l: "l = hd_loop (hw_data (hp_world P) ! i)" and c: "c = hd_channel (hw_data (hp_world P) ! i)"
    and pc: "hp_pc P l = Handling (c # cs)" "hp_pc P' = (hp_pc P)(l := Handling cs)"
    and e: "e = CHANNEL_READ \<or> e = CHANNEL_READ OR CHANNEL_WRITE"
    and P': "hp_world P' = (hp_world P)\<lparr>hw_loops := (hw_loops (hp_world P))(l := with_events c e (hw_loops (hp_world P) l))\<rparr>"
    and ans: "answers_ok page P'"
  shows "http_inv page efd n P'"
proof (rule http_inv_upd [OF inv P' _ _ _ _ ans])
  let ?L = "hw_loops (hp_world P) l"
  have l1: "l \<in> {1..n}" using http_invD(8) [OF inv i] l by simp
  have ok: "worker_ok (efd l) (hw_data (hp_world P)) l (el_pending ?L) ?L" using http_invD(6) [OF inv l1] .
  show "\<forall>k. k \<noteq> l \<longrightarrow> hp_pc P' k = hp_pc P k" using pc(2) by simp
  show "l = 0 \<longrightarrow> main_ok (efd 0) (hw_listen_fd (hp_world P)) (with_events c e ?L)" using l1 by simp
  have "worker_ok (efd l) (hw_data (hp_world P)) l (el_pending ?L) (with_events c e ?L)"
    using worker_update [OF ok http_invD(7) [OF inv] i l [symmetric] e] c by auto
  then show "l \<in> {1..n} \<longrightarrow>
      worker_ok (efd l) (hw_data (hp_world P)) l (el_pending (with_events c e ?L)) (with_events c e ?L)" by simp
  have "handling_ok (Handling (c # cs)) ?L" using http_invD(9) [OF inv, of l] pc(1) l1 by simp
  then show "handling_ok (hp_pc P' l) (with_events c e ?L)"
    using with_events_channels [OF ok http_invD(7) [OF inv] i l [symmetric], of e] pc(2) c
    by (auto simp: handling_ok_def) (metis with_events_frame(5))
qed

lemma turn_read:
  assumes inv: "http_inv page efd n P" and i: "i < length (hw_data (hp_world P))" and sys: "\<forall>call. 0 \<le> sys call"
    and l: "l = hd_loop (hw_data (hp_world P) ! i)" and c: "c = hd_channel (hw_data (hp_world P) ! i)"
    and pc: "hp_pc P l = Handling (c # cs)" and io: "reads_ok io"
    and P1: "P1 = P\<lparr>hp_pc := (hp_pc P)(l := Handling cs)\<rparr>"
  shows "\<exists>P'. http_call (http_env_of sys junk) io l (HttpReadH i) P1 = Some (Inr P') \<and> http_inv page efd n P' \<and>
    hp_pc P' = hp_pc P1 \<and> hp_sent P' = hp_sent P \<and>
    (request_complete (all_bytes (io_script io i)) \<longrightarrow> hp_world P' = (hp_world P)\<lparr>hw_loops :=
       (hw_loops (hp_world P))(l := with_events c (CHANNEL_READ OR CHANNEL_WRITE) (hw_loops (hp_world P) l))\<rparr>)"
proof -
  let ?W = "hp_world P" let ?s = "io_script io i" let ?e = "CHANNEL_READ OR CHANNEL_WRITE"
  let ?W1 = "?W\<lparr>hw_loops := (hw_loops ?W)(l := with_events c ?e (hw_loops ?W l))\<rparr>"
  have io': "clean ?s" "\<not> is_crlf (io_hdr io)" "CHR 0x00 \<in> set (io_line io)" using io by (simp_all add: reads_ok_def)
  have "io_open io i \<longrightarrow> request_complete (all_bytes ?s)" using io by (simp add: reads_ok_def)
  then have nw: "\<not> (io_open io i \<and> handleRead_waits (io_line io) (io_hdr io) (io_rio io) (hd_fd (hw_data ?W ! i)) ?s)"
    using handleRead_waits_iff [OF io'(1,2), of "io_line io" "io_rio io" "hd_fd (hw_data ?W ! i)"] by blast
  have set1: "set_data_events (http_env_of sys junk) l i ?e ?W = Inr ?W1"
    using data_events [OF inv i sys, of junk ?e] l c by (simp add: Let_def)
  have ans: "answers_ok page P" using http_invD(10) [OF inv] .
  let ?asked = "(hp_asked P)(i := hp_asked P i + (if request_complete (all_bytes ?s) then 1 else 0))"
  show ?thesis
  proof (cases "request_complete (all_bytes ?s)")
    case True
    then have ne: "all_bytes ?s \<noteq> []" by (auto simp: request_complete_def split_lines_simps(1))
    obtain s1 where r: "http_handleRead (http_env_of sys junk) l (io_line io) (io_hdr io) (io_rio io) i ?s ?W = Inr (?W1, s1)"
      using http_handleRead_spec [OF io'(1) ne io'(2), of "http_env_of sys junk" l "io_line io" "io_rio io" i ?W] True set1 by auto
    let ?P = "P1\<lparr>hp_world := ?W1, hp_asked := ?asked\<rparr>"
    have "wants_write ?W1 j = (j = i \<or> wants_write ?W j)" for j
      using waiting_events [OF inv i, of ?e j] l c by (simp add: Let_def has_def channel_masks)
    moreover have "length (hp_sent P i) \<le> hp_asked P i" using ans by (metis add_leD1 answers_ok_def)
    ultimately have "answers_ok page ?P" using ans P1 True by (auto simp: answers_ok_def le_SucI)
    then have "http_inv page efd n ?P" by (intro events_inv [OF inv i l c pc, of ?P ?e]) (simp_all add: P1)
    moreover have "http_call (http_env_of sys junk) io l (HttpReadH i) P1 = Some (Inr ?P)" using nw by (simp add: http_call_def P1 r)
    ultimately show ?thesis by (intro exI [of _ ?P]) (simp add: P1)
  next
    case False
    obtain s1 where r: "http_handleRead (http_env_of sys junk) l (io_line io) (io_hdr io) (io_rio io) i ?s ?W = Inr (?W, s1)"
      using http_handleRead_spec [OF io'(1) _ io'(2), of "http_env_of sys junk" l "io_line io" "io_rio io" i ?W]
        http_peer_close [OF io'(1) _ io'(2), of "io_line io" "http_env_of sys junk" l "io_rio io" i ?W] False io'(3)
      by (cases "all_bytes ?s = []") auto
    let ?P = "P1\<lparr>hp_world := ?W, hp_asked := ?asked\<rparr>"
    have P: "?P = P1" using False by (simp add: P1)
    have "l \<le> n" using http_invD(8) [OF inv i] l by simp
    from next_inv [OF inv this pc] have "http_inv page efd n P1" unfolding P1 .
    moreover have "http_call (http_env_of sys junk) io l (HttpReadH i) P1 = Some (Inr ?P)" using nw by (simp add: http_call_def P1 r)
    ultimately show ?thesis using False P by (intro exI [of _ ?P]) (simp add: P1)
  qed
qed

lemma page_type: "get_filetype home_html = ''text/html''"
  by (simp add: get_filetype_def home_html_def strstr_def std_search_Cons)

lemma turn_write:
  assumes inv: "http_inv page efd n P" and i: "i < length (hw_data (hp_world P))" and sys: "\<forall>call. 0 \<le> sys call"
    and l: "l = hd_loop (hw_data (hp_world P) ! i)" and c: "c = hd_channel (hw_data (hp_world P) ! i)"
    and pc: "hp_pc P l = Handling (c # cs)" and io: "serves_ok page io" and small: "length page < 2 ^ 31"
    and w: "has (ch_events (el_heap (hw_loops (hp_world P) l) c)) CHANNEL_WRITE"
    and P1: "P1 = P\<lparr>hp_pc := (hp_pc P)(l := Handling cs)\<rparr>"
  shows "\<exists>P' r. http_call (http_env_of sys junk) io l (HttpWriteH i) P1 = Some (Inr P') \<and> http_inv page efd n P' \<and>
    hp_sent P' = (hp_sent P)(i := hp_sent P i @ [r]) \<and> response page r"
proof -
  let ?W = "hp_world P" let ?W1 = "?W\<lparr>hw_loops := (hw_loops ?W)(l := with_events c CHANNEL_READ (hw_loops ?W l))\<rparr>"
  obtain f where f: "io_file io = Some f" "clean f" "all_bytes f = page" using io by (auto simp: serves_ok_def)
  have io': "takes_all (io_takes io)" "length (io_block io) = MAXLINE" "length page < io_fuel io" "io_stat io = Some (length page)"
    using io by (simp_all add: serves_ok_def)
  have size: "int_of_size (length page) = int (length page)" "-(2 ^ 31) \<le> int (length page)" "int (length page) < 2 ^ 31"
    using small by (simp_all add: int_of_size_small)
  obtain body ws1 where body: "serve_static (io_fuel io) (io_errs io) (io_block io) home_html (int (length page)) (Some f) (io_takes io) =
       Some (response_head ''text/html'' (int (length page)) @ body, ws1)" "take (length page) body = page"
     "length body = 1024 * ((length page + 1023) div 1024)"
    using serve_static_effect [OF f(2) io'(1,2) size(2,3), of "io_fuel io" "io_errs io" home_html] io'(3) f(3) page_type by auto
  let ?r = "response_head ''text/html'' (int (length page)) @ body"
  have r: "response page ?r" using body(2,3) by (auto simp: response_def)
  have "set_data_events (http_env_of sys junk) l i CHANNEL_READ ?W = Inr ?W1"
    using data_events [OF inv i sys, of junk CHANNEL_READ] l c by (simp add: Let_def)
  then have run: "http_handleWrite (http_env_of sys junk) l (io_fuel io) (io_errs io) (io_block io) (io_stat io) (io_file io) (io_takes io) i ?W =
      Some (Inr (?W1, ?r))"
    using http_handleWrite_spec [of "io_fuel io" "io_errs io" "io_block io" "length page" f "io_takes io", unfolded size(1), OF body(1),
        of "http_env_of sys junk" l i ?W] f(1) io'(4) by simp
  let ?P = "P1\<lparr>hp_world := ?W1, hp_sent := (hp_sent P)(i := hp_sent P i @ [?r])\<rparr>"
  have wait: "wants_write ?W1 j = (j \<noteq> i \<and> wants_write ?W j)" for j
    using waiting_events [OF inv i, of CHANNEL_READ j] l c by (simp add: Let_def has_def channel_masks)
  have ans: "answers_ok page P" using http_invD(10) [OF inv] .
  moreover have "wants_write ?W i" using i w l c by (simp add: wants_write_def)
  ultimately have "Suc (length (hp_sent P i)) \<le> hp_asked P i" by (metis Suc_eq_plus1 answers_ok_def)
  then have "answers_ok page ?P" using ans r wait i P1 by (auto simp: answers_ok_def)
  then have "http_inv page efd n ?P" by (intro events_inv [OF inv i l c pc, of ?P CHANNEL_READ]) (simp_all add: P1)
  moreover have "http_call (http_env_of sys junk) io l (HttpWriteH i) P1 = Some (Inr ?P)" by (simp add: http_call_def P1 run)
  ultimately show ?thesis using r by (intro exI [of _ ?P] exI [of _ ?r]) simp
qed

subsection \<open>A new connection\<close>

text \<open>What \<open>handNewConn\<close> in the main thread does to the loop it chooses.\<close>

definition conn_added :: "32 word \<Rightarrow> nat \<Rightarrow> int \<Rightarrow> epoller http_loop \<Rightarrow> epoller http_loop" where
  "conn_added junk i fd L =
     L\<lparr>el_heap := (el_heap L)(el_next_ptr L := setEvent CHANNEL_READ (data_channel junk i fd)),
       el_next_ptr := Suc (el_next_ptr L), el_pending := el_pending L @ [UpdateFn (el_next_ptr L)],
       el_wakeups := Suc (el_wakeups L)\<rparr>"

lemma connected_loop_elsewhere: "el_thread_id L \<noteq> 0 \<Longrightarrow> connected_loop env junk 0 i fd L = conn_added junk i fd L"
  by (simp add: connected_loop_def conn_added_def set_and_update_Inr isLoopThread_def queueInLoop_def loop_wakeup_def Let_def
      new_channel_def on_chan_def)

lemma conn_added_frame [simp]:
  "el_thread_id (conn_added junk i fd L) = el_thread_id L" "el_next_ptr (conn_added junk i fd L) = Suc (el_next_ptr L)"
  "el_poller (conn_added junk i fd L) = el_poller L" "el_pending (conn_added junk i fd L) = el_pending L @ [UpdateFn (el_next_ptr L)]"
  "c \<noteq> el_next_ptr L \<Longrightarrow> el_heap (conn_added junk i fd L) c = el_heap L c"
  "el_heap (conn_added junk i fd L) (el_next_ptr L) = setEvent CHANNEL_READ (data_channel junk i fd)"
  by (simp_all add: conn_added_def)

lemma worker_other:
  assumes "worker_ok efd D l Q L" "hd_loop d \<noteq> l"
  shows "worker_ok efd (D @ [d]) l Q L"
  using assms by (auto simp: worker_ok_def nth_append less_Suc_eq)

lemma worker_connected:
  assumes ok: "worker_ok efd D l (el_pending L) L" and fd: "fd \<notin> hd_fd ` set D" "fd \<noteq> efd"
    and d: "d = \<lparr>hd_loop = l, hd_fd = fd, hd_channel = el_next_ptr L\<rparr>" and L': "L' = conn_added junk (length D) fd L"
  shows "worker_ok efd (D @ [d]) l (el_pending L') L'"
proof -
  let ?Q = "el_pending L @ [UpdateFn (el_next_ptr L)]"
  have new: "channels (el_poller L) fd = None"
  proof (rule ccontr)
    assume "channels (el_poller L) fd \<noteq> None"
    then obtain c where "channels (el_poller L) fd = Some c" by blast
    from worker_okD(5) [OF ok this] show False using fd nth_mem by (metis imageI)
  qed
  have "member_ok efd ?Q j ((D @ [d]) ! j) L'" if j: "j < length (D @ [d])" "hd_loop ((D @ [d]) ! j) = l" for j
  proof (cases "j < length D")
    case True
    with j worker_okD(4) [OF ok True] have "member_ok efd (el_pending L) j (D ! j) L" by (simp add: nth_append)
    with True show ?thesis unfolding L' by (auto simp: member_ok_def Let_def nth_append)
  next
    case False
    then have "j = length D" using j(1) by simp
    then show ?thesis using new fd worker_okD(2) [OF ok] unfolding L' d
      by (simp add: member_ok_def conn_chan_ok_def data_channel_def channel_ops Channel_ctor_def Let_def)
  qed
  moreover have "wake_ok efd (el_heap L' 0)" using worker_okD(2,3) [OF ok] L' by simp
  moreover have "\<exists>j<length (D @ [d]). hd_loop ((D @ [d]) ! j) = l \<and> f = UpdateFn (hd_channel ((D @ [d]) ! j))"
    if "f \<in> set ?Q" for f
  proof (cases "f \<in> set (el_pending L)")
    case True
    from worker_okD(6) [OF ok this] show ?thesis by (auto simp: nth_append less_SucI)
  next
    case False
    with that d show ?thesis by (intro exI [of _ "length D"]) simp
  qed
  moreover have "c = 0 \<and> g = efd \<or> (\<exists>j<length (D @ [d]). hd_loop ((D @ [d]) ! j) = l \<and> hd_channel ((D @ [d]) ! j) = c \<and> hd_fd ((D @ [d]) ! j) = g)"
    if "channels (el_poller L) g = Some c" for g c
    using worker_okD(5) [OF ok that] by (auto simp: nth_append less_SucI)
  ultimately show ?thesis using worker_okD(1) [OF ok] L' unfolding worker_ok_def by simp
qed

lemma turn_accept:
  assumes inv: "http_inv page efd n P" and k: "fresh_fd efd n (hp_world P) (io_accept io)"
    and pc: "hp_pc P 0 = Handling (1 # cs)" and P1: "P1 = P\<lparr>hp_pc := (hp_pc P)(0 := Handling cs)\<rparr>"
  shows "\<exists>P' d. http_call env io 0 AcceptH P1 = Some (Inr P') \<and> http_inv page efd n P' \<and> hp_pc P' = hp_pc P1 \<and>
    hw_data (hp_world P') = hw_data (hp_world P) @ [d] \<and> hd_fd d = io_accept io \<and>
    hd_loop d = Suc (length (hw_data (hp_world P)) mod n)"
proof -
  let ?W = "hp_world P" let ?D = "hw_data ?W" let ?p = "hw_pool ?W" let ?fd = "io_accept io"
  let ?p1 = "?p\<lparr>tp_next := (tp_next ?p + 1) mod tp_maxn ?p\<rparr>" let ?l = "tp_loops ?p ! tp_next ?p"
  note D = http_invD [OF inv]
  have n: "0 < n" using D(11) .
  have gl: "getNextLoop (isLoopThread 0 (hw_loops ?W (hw_main ?W))) ?p = Inr (?l, ?p1)"
    using getNextLoop_ok [OF D(2)] D(1,3,5) n by (simp add: isLoopThread_def main_ok_def)
  have lS: "?l = Suc (length ?D mod n)" using D(4,12) n by simp
  then have l: "?l \<in> {1..n}" using n by (simp add: Suc_le_eq)
  let ?L = "hw_loops ?W ?l" let ?L1 = "conn_added (io_junk io) (length ?D) ?fd ?L"
  define d where "d = \<lparr>hd_loop = ?l, hd_fd = ?fd, hd_channel = el_next_ptr ?L\<rparr>"
  let ?W1 = "?W\<lparr>hw_pool := ?p1, hw_loops := (hw_loops ?W)(?l := ?L1), hw_data := ?D @ [d]\<rparr>"
  have okl: "worker_ok (efd ?l) ?D ?l (el_pending ?L) ?L" using D(6) [OF l] .
  have "el_thread_id ?L \<noteq> 0" using worker_okD(1) [OF okl] l by simp
  then have run: "handNewConn env (io_junk io) 0 ?fd ?W = Inr ?W1"
    using handNewConn_eq [OF gl, of env "io_junk io" ?fd] connected_loop_elsewhere by (simp add: d_def)
  let ?P = "P1\<lparr>hp_world := ?W1\<rparr>"
  have fresh: "?fd \<notin> hd_fd ` set ?D" "?fd \<noteq> efd ?l" using k l by (simp_all add: fresh_fd_def)
  have workers: "worker_ok (efd m) (?D @ [d]) m (el_pending (hw_loops ?W1 m)) (hw_loops ?W1 m)" if m: "m \<in> {1..n}" for m
  proof (cases "m = ?l")
    case True
    then show ?thesis using worker_connected [OF okl fresh d_def refl] by simp
  next
    case False
    then show ?thesis using worker_other [OF D(6) [OF m], of d] by (simp add: d_def)
  qed
  have below: "c < el_next_ptr ?L" if c: "c \<in> ran (channels (el_poller ?L))" for c
  proof -
    obtain f where "channels (el_poller ?L) f = Some c" using c by (auto simp: ran_def)
    from worker_okD(5) [OF okl this] show ?thesis
      using worker_okD(2) [OF okl] member_okD(2) [OF worker_okD(4) [OF okl]] by blast
  qed
  have handling: "handling_ok (hp_pc ?P m) (hw_loops ?W1 m)" if m: "m \<le> n" for m
  proof (cases "m = ?l")
    case True
    then have "handling_ok (hp_pc P m) ?L" "hp_pc ?P m = hp_pc P m" using D(9) [OF m] l P1 by auto
    with True below show ?thesis by (fastforce simp: handling_ok_def)
  next
    case False
    have "handling_ok (hp_pc ?P m) (hw_loops ?W m)" using D(9) [OF m] pc P1 by (cases "m = 0") (auto simp: handling_ok_def)
    with False show ?thesis by simp
  qed
  have wait: "wants_write ?W1 j = wants_write ?W j" for j
  proof (cases "j < length ?D")
    case True
    have "hd_channel (?D ! j) < el_next_ptr ?L" if "hd_loop (?D ! j) = ?l"
      using member_okD(2) [OF worker_okD(4) [OF okl True that]] .
    with True show ?thesis by (auto simp: wants_write_def nth_append)
  next
    case False
    then show ?thesis
      by (auto simp: wants_write_def nth_append d_def setEvent_def has_def channel_masks less_Suc_eq)
  qed
  have "answers_ok page ?P"
    using D(10) unfolding answers_ok_def wait [symmetric] by (simp add: P1)
  moreover have "main_ok (efd 0) (hw_listen_fd (hp_world P)) (hw_loops ?W1 0)" using D(5) l by auto
  moreover have "distinct (map hd_fd (?D @ [d]))" using D(7) fresh by (simp add: d_def)
  moreover have "\<forall>i<length (?D @ [d]). hd_loop ((?D @ [d]) ! i) = Suc (i mod n)"
    using D(13) lS by (auto simp: nth_append d_def less_Suc_eq)
  moreover have "tp_next ?p1 = length (?D @ [d]) mod n" using D(3,12) by (simp add: mod_Suc_eq)
  ultimately have "http_inv page efd n ?P"
    using workers handling D(1,3,4,11) unfolding http_inv_def Let_def by (simp del: fun_upd_apply)
  moreover have "http_call env io 0 AcceptH P1 = Some (Inr ?P)" by (simp add: http_call_def P1 run)
  ultimately show ?thesis by (intro exI [of _ ?P] exI [of _ d]) (simp add: d_def lS)
qed

section \<open>No step fails\<close>

lemma http_turn_ok:
  assumes inv: "http_inv page efd n P" and n: "l \<le> n" and sys: "\<forall>call. 0 \<le> sys call" and junk: "\<not> has junk EPOLLOUT"
    and small: "length page < 2 ^ 31" and io: "io_ok page io" "kernel_ok junk efd n P l io"
  shows "\<exists>P'. http_turn (http_env_of sys junk) io l P = Some (Inr P') \<and> http_inv page efd n P'"
proof -
  let ?L = "hw_loops (hp_world P) l"
  consider "hp_pc P l = AtPoll" | "hp_pc P l = Handling []" | c cs where "hp_pc P l = Handling (c # cs)"
    by (metis list.exhaust turn_pc.exhaust)
  then show ?thesis
  proof cases
    case 1
    obtain h cs calls where poll: "epoll_poll (io_reports io) (el_poller ?L) (el_heap ?L) = (h, cs, calls)" by (metis prod_cases3)
    have "reports_asked junk (io_reports io) ?L" using io(2) by (simp add: kernel_ok_def)
    from turn_poll [OF inv n junk this 1 poll refl] show ?thesis by blast
  next
    case 2
    with turn_functors [OF inv n sys] show ?thesis by blast
  next
    case (3 c cs)
    let ?P1 = "P\<lparr>hp_pc := (hp_pc P)(l := Handling cs)\<rparr>"
    have c: "c \<in> ran (channels (el_poller ?L))" "active_ok (el_heap ?L c)"
      using http_invD(9) [OF inv n] 3 by (simp_all add: handling_ok_def)
    have next1: "http_inv page efd n ?P1" using next_inv [OF inv n 3] .
    have turn: "http_turn (http_env_of sys junk) io l P =
      (case handleEvent (el_heap ?L c) of Inl e \<Rightarrow> Some (Inl e) | Inr None \<Rightarrow> Some (Inr ?P1)
       | Inr (Some h) \<Rightarrow> http_call (http_env_of sys junk) io l h ?P1)"
      by (simp add: http_turn_def 3 Let_def)
    have idle: ?thesis if "\<not> ch_isListen (el_heap ?L c)" "ch_active (el_heap ?L c) = 0"
      using turn next1 handleEvent_inactive [OF that] by simp
    have wake: ?thesis if w: "wake_ok e (el_heap ?L c)" for e
    proof (cases "ch_active (el_heap ?L c) = CHANNEL_READ")
      case True
      with w turn next1 show ?thesis by (simp add: handleEvent_def call_handler_def wake_ok_def http_call_def has_def channel_masks)
    next
      case False
      with c(2) w idle show ?thesis by (auto simp: active_ok_def wake_ok_def has_def channel_masks)
    qed
    show ?thesis
    proof (cases "l = 0")
      case True
      have m: "main_ok (efd 0) (hw_listen_fd (hp_world P)) ?L" using http_invD(5) [OF inv] True by simp
      then have "c = 0 \<or> c = 1" using c(1) by (auto simp: main_ok_def ran_def)
      then show ?thesis
      proof
        assume "c = 0"
        then have "wake_ok (efd 0) (el_heap ?L c)" using m by (simp add: main_ok_def)
        then show ?thesis by (rule wake)
      next
        assume c1: "c = 1"
        show ?thesis
        proof (cases "ch_active (el_heap ?L c) = CHANNEL_READ")
          case True
          then have "handleEvent (el_heap ?L c) = Inr (Some AcceptH)"
            using m c1 by (simp add: main_ok_def handleEvent_def call_handler_def has_def channel_masks Let_def)
          moreover obtain P' where "http_call (http_env_of sys junk) io 0 AcceptH ?P1 = Some (Inr P')" "http_inv page efd n P'"
            using turn_accept [OF inv, of io cs ?P1] io(2) 3 c1 \<open>l = 0\<close> by (auto simp: kernel_ok_def)
          ultimately show ?thesis using turn \<open>l = 0\<close> by simp
        next
          case False
          with c(2) m c1 idle show ?thesis by (auto simp: active_ok_def main_ok_def has_def channel_masks Let_def)
        qed
      qed
    next
      case False
      then have okl: "worker_ok (efd l) (hw_data (hp_world P)) l (el_pending ?L) ?L" using http_invD(6) [OF inv] n by simp
      obtain fd where "channels (el_poller ?L) fd = Some c" using c(1) by (auto simp: ran_def)
      from worker_okD(5) [OF okl this] show ?thesis
      proof (elim disjE exE conjE)
        assume "c = 0"
        with wake worker_okD(3) [OF okl] show ?thesis by simp
      next
        fix i assume i: "i < length (hw_data (hp_world P))" "hd_loop (hw_data (hp_world P) ! i) = l"
          "hd_channel (hw_data (hp_world P) ! i) = c"
        then have ch: "conn_chan_ok i (hd_fd (hw_data (hp_world P) ! i)) (el_heap ?L c)"
          using member_okD(4) [OF worker_okD(4) [OF okl i(1,2)]] by simp
        note here = inv i(1) sys i(2) [symmetric] i(3) [symmetric] 3
        have ok: "reads_ok io" "serves_ok page io" using io(1) by (simp_all add: io_ok_def)
        consider "ch_active (el_heap ?L c) = 0" | "ch_active (el_heap ?L c) = CHANNEL_READ"
          | "ch_active (el_heap ?L c) = CHANNEL_WRITE" "has (ch_events (el_heap ?L c)) CHANNEL_WRITE"
          using c(2) by (auto simp: active_ok_def)
        then show ?thesis
        proof cases
          case 1
          with ch idle show ?thesis by (simp add: conn_chan_ok_def)
        next
          case 2
          with ch have "handleEvent (el_heap ?L c) = Inr (Some (HttpReadH i))"
            by (intro handleEvent_read) (simp_all add: conn_chan_ok_def has_def channel_masks)
          with turn turn_read [OF here ok(1) refl] show ?thesis by auto
        next
          case 3
          with ch have "handleEvent (el_heap ?L c) = Inr (Some (HttpWriteH i))"
            by (intro handleEvent_write) (simp_all add: conn_chan_ok_def)
          with turn turn_write [OF here ok(2) small 3(2) refl] show ?thesis by auto
        qed
      qed
    qed
  qed
qed

section \<open>A client is served\<close>

lemma io_ok_reports [simp]:
  "io_ok page (io\<lparr>io_reports := evs\<rparr>) = io_ok page io" "reads_ok (io\<lparr>io_reports := evs\<rparr>) = reads_ok io"
  "serves_ok page (io\<lparr>io_reports := evs\<rparr>) = serves_ok page io"
  by (simp_all add: io_ok_def reads_ok_def serves_ok_def)

lemma http_turns_append:
  "http_turns env l (xs @ ys) P =
     (case http_turns env l xs P of None \<Rightarrow> None | Some (Inl e) \<Rightarrow> Some (Inl e) | Some (Inr P1) \<Rightarrow> http_turns env l ys P1)"
  by (induction xs arbitrary: P) (simp_all split: option.splits sum.splits)

lemma poll_one:
  assumes "channels p fd = Some c" "ch_events (h c) = CHANNEL_READ \<or> ch_events (h c) = CHANNEL_READ OR CHANNEL_WRITE"
  shows "epoll_poll [(fd, EPOLLIN)] p h = (on_chan c (setActiveEvent CHANNEL_READ) h, [c], [])"
    and "epoll_poll [(fd, EPOLLOUT)] p h = (on_chan c (setActiveEvent CHANNEL_WRITE) h, [c], [])"
  using assms by (auto simp: epoll_active_def has_def channel_masks EPOLLIN_def EPOLLOUT_def Let_def)

text \<open>The thread of connection \<open>i\<close> before its poll, with no functor left.\<close>

definition at_poll :: "nat \<Rightarrow> http_prog \<Rightarrow> bool" where
  "at_poll i P \<longleftrightarrow> (let W = hp_world P; l = hd_loop (hw_data W ! i) in
     i < length (hw_data W) \<and> hp_pc P l = AtPoll \<and> el_pending (hw_loops W l) = [])"

lemma ready_registered:
  assumes inv: "http_inv page efd n P" and r: "at_poll i P"
  shows "let W = hp_world P; d = hw_data W ! i; L = hw_loops W (hd_loop d); ch = el_heap L (hd_channel d) in
    channels (el_poller L) (hd_fd d) = Some (hd_channel d) \<and> ch_last ch = ch_events ch \<and>
    (ch_events ch = CHANNEL_READ \<or> ch_events ch = CHANNEL_READ OR CHANNEL_WRITE)"
proof -
  let ?D = "hw_data (hp_world P)"
  have i: "i < length ?D" using r by (simp add: at_poll_def Let_def)
  note ok = worker_okD(4) [OF http_invD(6) [OF inv http_invD(8) [OF inv i]] i refl]
  with r show ?thesis by (simp add: member_ok_def at_poll_def conn_chan_ok_def Let_def)
qed

text \<open>A round of the loop in which only the descriptor of the connection is reported, up to the handler.\<close>

lemma report_one:
  assumes inv: "http_inv page efd n P" and r: "at_poll i P" and junk: "\<not> has junk EPOLLOUT"
    and l: "l = hd_loop (hw_data (hp_world P) ! i)" and c: "c = hd_channel (hw_data (hp_world P) ! i)"
    and ev: "(rv, a, H) \<in> {(EPOLLIN, CHANNEL_READ, HttpReadH), (EPOLLOUT, CHANNEL_WRITE, HttpWriteH)}"
    and w: "rv = EPOLLOUT \<longrightarrow> has (ch_events (el_heap (hw_loops (hp_world P) l) c)) CHANNEL_WRITE"
    and io: "io = io0\<lparr>io_reports := [(hd_fd (hw_data (hp_world P) ! i), rv)]\<rparr>"
  shows "\<exists>P1. http_turn env io l P = Some (Inr P1) \<and> http_inv page efd n P1 \<and> hp_pc P1 l = Handling [c] \<and>
    http_turn env io l P1 = http_call env io l (H i) (P1\<lparr>hp_pc := (hp_pc P1)(l := Handling [])\<rparr>) \<and>
    hw_data (hp_world P1) = hw_data (hp_world P) \<and> hp_sent P1 = hp_sent P \<and>
    el_pending (hw_loops (hp_world P1) l) = [] \<and>
    ch_events (el_heap (hw_loops (hp_world P1) l) c) = ch_events (el_heap (hw_loops (hp_world P) l) c)"
proof -
  let ?W = "hp_world P" let ?d = "hw_data ?W ! i" let ?L = "hw_loops ?W l" let ?h = "on_chan c (setActiveEvent a) (el_heap ?L)"
  have i: "i < length (hw_data ?W)" and pc: "hp_pc P l = AtPoll" and p: "el_pending ?L = []"
    using r l by (simp_all add: at_poll_def Let_def)
  have ch: "channels (el_poller ?L) (hd_fd ?d) = Some c" "ch_last (el_heap ?L c) = ch_events (el_heap ?L c)"
    "ch_events (el_heap ?L c) = CHANNEL_READ \<or> ch_events (el_heap ?L c) = CHANNEL_READ OR CHANNEL_WRITE"
    using ready_registered [OF inv r] l c by (simp_all add: Let_def)
  have ln: "l \<in> {1..n}" using http_invD(8) [OF inv i] l by simp
  have cok: "conn_chan_ok i (hd_fd ?d) (el_heap ?L c)"
    using member_okD(4) [OF worker_okD(4) [OF http_invD(6) [OF inv ln] i l [symmetric]]] c by simp
  have poll: "epoll_poll (io_reports io) (el_poller ?L) (el_heap ?L) = (?h, [c], [])"
    using poll_one [of "el_poller ?L" "hd_fd ?d" c "el_heap ?L", OF ch(1,3)] ev io by auto
  have "rv = EPOLLOUT \<Longrightarrow> has (epoll_mask junk (ch_last (el_heap ?L c))) EPOLLOUT"
    using w ch(2,3) by (auto simp: epoll_mask_def Let_def has_or) (simp_all add: has_def channel_masks EPOLLOUT_def)
  then have asked: "reports_asked junk (io_reports io) ?L" using ch(1) io by (simp add: reports_asked_def)
  let ?P = "P\<lparr>hp_world := ?W\<lparr>hw_loops := (hw_loops ?W)(l := ?L\<lparr>el_heap := ?h\<rparr>)\<rparr>, hp_pc := (hp_pc P)(l := Handling [c])\<rparr>"
  have "handleEvent (?h c) = Inr (Some (H i))"
    using cok ev by (auto simp: handleEvent_def call_handler_def conn_chan_ok_def setActiveEvent_def has_def channel_masks)
  then have "http_turn env io l ?P = http_call env io l (H i) (?P\<lparr>hp_pc := (hp_pc ?P)(l := Handling [])\<rparr>)"
    by (simp add: http_turn_def Let_def)
  moreover have "l \<le> n" using ln by simp
  note turn_poll [OF inv this junk asked pc poll refl, of env]
  ultimately show ?thesis using p by (intro exI [of _ ?P]) (simp add: setActiveEvent_def)
qed

text \<open>After the handler, the functors.\<close>

lemma back_to_poll:
  assumes inv: "http_inv page efd n P" and i: "i < length (hw_data (hp_world P))" and sys: "\<forall>call. 0 \<le> sys call"
    and l: "l = hd_loop (hw_data (hp_world P) ! i)" and pc: "hp_pc P l = Handling []"
  shows "\<exists>P'. http_turn (http_env_of sys junk) io l P = Some (Inr P') \<and> http_inv page efd n P' \<and> at_poll i P' \<and>
    hw_data (hp_world P') = hw_data (hp_world P) \<and> hp_sent P' = hp_sent P \<and>
    (\<forall>c. ch_events (el_heap (hw_loops (hp_world P') l) c) = ch_events (el_heap (hw_loops (hp_world P) l) c))"
proof -
  have "l \<le> n" using http_invD(8) [OF inv i] l by simp
  from turn_functors [OF inv this sys pc, of junk io] i l show ?thesis by (auto simp: at_poll_def Let_def)
qed

lemma quiet_round:
  assumes inv: "http_inv page efd n P" and i: "i < length (hw_data (hp_world P))" and sys: "\<forall>call. 0 \<le> sys call"
    and junk: "\<not> has junk EPOLLOUT" and l: "l = hd_loop (hw_data (hp_world P) ! i)" and pc: "hp_pc P l = AtPoll"
    and quiet: "quiet = io\<lparr>io_reports := []\<rparr>"
  shows "\<exists>P'. http_turns (http_env_of sys junk) l [quiet, quiet] P = Some (Inr P') \<and> http_inv page efd n P' \<and> at_poll i P' \<and>
    hw_data (hp_world P') = hw_data (hp_world P) \<and> hp_sent P' = hp_sent P"
proof -
  let ?env = "http_env_of sys junk" let ?L = "hw_loops (hp_world P) l"
  have ln: "l \<le> n" using http_invD(8) [OF inv i] l by simp
  have asked: "reports_asked junk (io_reports quiet) ?L" by (simp add: reports_asked_def quiet)
  have "epoll_poll (io_reports quiet) (el_poller ?L) (el_heap ?L) = (el_heap ?L, [], [])" by (simp add: quiet)
  from turn_poll [OF inv ln junk asked pc this refl, of ?env]
  obtain P1 where P1: "http_turn ?env quiet l P = Some (Inr P1)" "http_inv page efd n P1" "hp_pc P1 l = Handling []"
    "hw_data (hp_world P1) = hw_data (hp_world P)" "hp_sent P1 = hp_sent P" by auto
  obtain P2 where "http_turn ?env quiet l P1 = Some (Inr P2)" "http_inv page efd n P2" "at_poll i P2"
    "hw_data (hp_world P2) = hw_data (hp_world P)" "hp_sent P2 = hp_sent P"
    using back_to_poll [OF P1(2) _ sys _ P1(3), of i junk quiet] i l P1(4,5) by auto
  with P1(1) show ?thesis by simp
qed

lemma request_round:
  assumes inv: "http_inv page efd n P" and r: "at_poll i P" and sys: "\<forall>call. 0 \<le> sys call" and junk: "\<not> has junk EPOLLOUT"
    and io: "reads_ok io" and req: "request_complete (all_bytes (io_script io i))"
    and d: "d = hw_data (hp_world P) ! i" and l: "l = hd_loop d" and inp: "inp = io\<lparr>io_reports := [(hd_fd d, EPOLLIN)]\<rparr>"
  shows "\<exists>P'. http_turns (http_env_of sys junk) l [inp, inp, inp] P = Some (Inr P') \<and> http_inv page efd n P' \<and> at_poll i P' \<and>
    hw_data (hp_world P') = hw_data (hp_world P) \<and> hp_sent P' = hp_sent P \<and>
    has (ch_events (el_heap (hw_loops (hp_world P') l) (hd_channel d))) CHANNEL_WRITE"
proof -
  let ?env = "http_env_of sys junk" let ?c = "hd_channel d" let ?e = "CHANNEL_READ OR CHANNEL_WRITE"
  have i: "i < length (hw_data (hp_world P))" using r by (simp add: at_poll_def Let_def)
  obtain P3 where P3: "http_turn ?env inp l P = Some (Inr P3)" "http_inv page efd n P3" "hp_pc P3 l = Handling [?c]"
    "http_turn ?env inp l P3 = http_call ?env inp l (HttpReadH i) (P3\<lparr>hp_pc := (hp_pc P3)(l := Handling [])\<rparr>)"
    "hw_data (hp_world P3) = hw_data (hp_world P)" "hp_sent P3 = hp_sent P"
    using report_one [OF inv r junk, of l ?c EPOLLIN CHANNEL_READ HttpReadH inp io ?env] d l inp
    by (auto simp: EPOLLIN_def EPOLLOUT_def)
  have i3: "i < length (hw_data (hp_world P3))" "l = hd_loop (hw_data (hp_world P3) ! i)" "?c = hd_channel (hw_data (hp_world P3) ! i)"
    using i d l P3(5) by simp_all
  have inp': "reads_ok inp" "request_complete (all_bytes (io_script inp i))" using io req inp by simp_all
  obtain P4 where P4: "http_turn ?env inp l P3 = Some (Inr P4)" "http_inv page efd n P4" "hp_pc P4 l = Handling []" "hp_sent P4 = hp_sent P"
    "hp_world P4 = (hp_world P3)\<lparr>hw_loops := (hw_loops (hp_world P3))(l := with_events ?c ?e (hw_loops (hp_world P3) l))\<rparr>"
    using turn_read [OF P3(2) i3(1) sys i3(2,3) P3(3) inp'(1) refl, of junk] inp'(2) P3(4,6) by auto
  have i4: "i < length (hw_data (hp_world P4))" "l = hd_loop (hw_data (hp_world P4) ! i)" using i3 P4(5) by simp_all
  obtain P5 where P5: "http_turn ?env inp l P4 = Some (Inr P5)" "http_inv page efd n P5" "at_poll i P5"
    "hw_data (hp_world P5) = hw_data (hp_world P)" "hp_sent P5 = hp_sent P"
    "ch_events (el_heap (hw_loops (hp_world P5) l) ?c) = ?e"
    using back_to_poll [OF P4(2) i4(1) sys i4(2) P4(3), of junk inp] P4(4,5) P3(5) by (auto simp: updateEvent_def setEvent_def)
  have "has ?e CHANNEL_WRITE" by (simp add: has_def channel_masks)
  with P3(1) P4(1) P5 show ?thesis by simp
qed

lemma response_round:
  assumes inv: "http_inv page efd n P" and r: "at_poll i P" and sys: "\<forall>call. 0 \<le> sys call" and junk: "\<not> has junk EPOLLOUT"
    and small: "length page < 2 ^ 31" and io: "serves_ok page io" and d: "d = hw_data (hp_world P) ! i" and l: "l = hd_loop d"
    and w: "has (ch_events (el_heap (hw_loops (hp_world P) l) (hd_channel d))) CHANNEL_WRITE"
    and out: "out = io\<lparr>io_reports := [(hd_fd d, EPOLLOUT)]\<rparr>"
  shows "\<exists>P' r. http_turns (http_env_of sys junk) l [out, out] P = Some (Inr P') \<and>
    hp_sent P' i = hp_sent P i @ [r] \<and> response page r"
proof -
  let ?env = "http_env_of sys junk" let ?c = "hd_channel d"
  have i: "i < length (hw_data (hp_world P))" using r by (simp add: at_poll_def Let_def)
  obtain P6 where P6: "http_turn ?env out l P = Some (Inr P6)" "http_inv page efd n P6" "hp_pc P6 l = Handling [?c]"
    "http_turn ?env out l P6 = http_call ?env out l (HttpWriteH i) (P6\<lparr>hp_pc := (hp_pc P6)(l := Handling [])\<rparr>)"
    "hw_data (hp_world P6) = hw_data (hp_world P)" "hp_sent P6 = hp_sent P"
    "has (ch_events (el_heap (hw_loops (hp_world P6) l) ?c)) CHANNEL_WRITE"
    using report_one [OF inv r junk, of l ?c EPOLLOUT CHANNEL_WRITE HttpWriteH out io ?env] d l out w by auto
  have i6: "i < length (hw_data (hp_world P6))" "l = hd_loop (hw_data (hp_world P6) ! i)" "?c = hd_channel (hw_data (hp_world P6) ! i)"
    using i d l P6(5) by simp_all
  have "serves_ok page out" using io out by simp
  then obtain P7 r where "http_turn ?env out l P6 = Some (Inr P7)" "hp_sent P7 i = hp_sent P i @ [r]" "response page r"
    using turn_write [OF P6(2) i6(1) sys i6(2,3) P6(3) _ small P6(7) refl, of out junk] P6(4,6) by auto
  with P6(1) show ?thesis by auto
qed

text \<open>The steps of the thread in which it serves a client: a round without reports, one in which the descriptor is readable
  and one in which it is writable, up to the handler.\<close>

definition client_turns :: "http_io \<Rightarrow> int \<Rightarrow> http_io list" where
  "client_turns io fd =
     (let quiet = io\<lparr>io_reports := []\<rparr>; inp = io\<lparr>io_reports := [(fd, EPOLLIN)]\<rparr>; out = io\<lparr>io_reports := [(fd, EPOLLOUT)]\<rparr>
      in [quiet, quiet] @ [inp, inp, inp] @ [out, out])"

lemma client_served:
  assumes inv: "http_inv page efd n P" and i: "i < length (hw_data (hp_world P))" and sys: "\<forall>call. 0 \<le> sys call"
    and junk: "\<not> has junk EPOLLOUT" and small: "length page < 2 ^ 31" and io: "io_ok page io"
    and req: "request_complete (all_bytes (io_script io i))"
    and d: "d = hw_data (hp_world P) ! i" and l: "l = hd_loop d" and pc: "hp_pc P l = AtPoll"
  shows "\<exists>P' r. http_turns (http_env_of sys junk) l (client_turns io (hd_fd d)) P = Some (Inr P') \<and>
    hp_sent P' i = hp_sent P i @ [r] \<and> response page r"
proof -
  let ?env = "http_env_of sys junk"
  define quiet where "quiet = io\<lparr>io_reports := []\<rparr>"
  define inp where "inp = io\<lparr>io_reports := [(hd_fd d, EPOLLIN)]\<rparr>"
  define out where "out = io\<lparr>io_reports := [(hd_fd d, EPOLLOUT)]\<rparr>"
  have turns: "client_turns io (hd_fd d) = [quiet, quiet] @ [inp, inp, inp] @ [out, out]"
    by (simp add: client_turns_def quiet_def inp_def out_def Let_def)
  have ok: "reads_ok io" "serves_ok page io" using io by (simp_all add: io_ok_def)
  have l': "l = hd_loop (hw_data (hp_world P) ! i)" using l d by simp
  obtain P2 where P2: "http_turns ?env l [quiet, quiet] P = Some (Inr P2)" "http_inv page efd n P2" "at_poll i P2"
    "hw_data (hp_world P2) = hw_data (hp_world P)" "hp_sent P2 = hp_sent P"
    using quiet_round [OF inv i sys junk l' pc quiet_def] by blast
  have d2: "d = hw_data (hp_world P2) ! i" using d P2(4) by simp
  obtain P5 where P5: "http_turns ?env l [inp, inp, inp] P2 = Some (Inr P5)" "http_inv page efd n P5" "at_poll i P5"
    "hw_data (hp_world P5) = hw_data (hp_world P)" "hp_sent P5 = hp_sent P"
    "has (ch_events (el_heap (hw_loops (hp_world P5) l) (hd_channel d))) CHANNEL_WRITE"
    using request_round [OF P2(2,3) sys junk ok(1) req d2 l inp_def] P2(4,5) by auto
  have d5: "d = hw_data (hp_world P5) ! i" using d P5(4) by simp
  show ?thesis
    using response_round [OF P5(2,3) sys junk small ok(2) d5 l P5(6) out_def] P5(5)
    unfolding turns http_turns_append P2(1) P5(1) option.case sum.case by simp
qed

text \<open>
  When the handler does not return or fails on what the client has sent, so do these steps.
\<close>

lemma client_stuck:
  assumes inv: "http_inv page efd n P" and i: "i < length (hw_data (hp_world P))" and sys: "\<forall>call. 0 \<le> sys call"
    and junk: "\<not> has junk EPOLLOUT" and d: "d = hw_data (hp_world P) ! i" and l: "l = hd_loop d" and pc: "hp_pc P l = AtPoll"
    and call: "\<And>P1 evs. http_call (http_env_of sys junk) (io\<lparr>io_reports := evs\<rparr>) l (HttpReadH i) P1 = x"
    and x: "x = None \<or> x = Some (Inl e)"
  shows "http_turns (http_env_of sys junk) l (client_turns io (hd_fd d)) P = x"
proof -
  let ?env = "http_env_of sys junk"
  define quiet where "quiet = io\<lparr>io_reports := []\<rparr>"
  define inp where "inp = io\<lparr>io_reports := [(hd_fd d, EPOLLIN)]\<rparr>"
  have l': "l = hd_loop (hw_data (hp_world P) ! i)" using l d by simp
  obtain P2 where P2: "http_turns ?env l [quiet, quiet] P = Some (Inr P2)" "http_inv page efd n P2" "at_poll i P2"
    "hw_data (hp_world P2) = hw_data (hp_world P)"
    using quiet_round [OF inv i sys junk l' pc quiet_def] by blast
  obtain P3 where P3: "http_turn ?env inp l P2 = Some (Inr P3)" "http_turn ?env inp l P3 = x"
    using report_one [OF P2(2,3) junk, of l "hd_channel d" EPOLLIN CHANNEL_READ HttpReadH inp io ?env] d l P2(4) inp_def call
    by (auto simp: EPOLLIN_def EPOLLOUT_def)
  have "http_turns ?env l ([inp, inp, inp] @ ios) P2 = x" for ios using P3 x by auto
  then show ?thesis
    unfolding client_turns_def Let_def quiet_def [symmetric] inp_def [symmetric] http_turns_append P2(1) option.case sum.case by simp
qed

lemma client_stalls:
  assumes "clean (io_script io i)" "\<not> is_crlf (io_hdr io)" "io_open io i" "\<not> request_complete (all_bytes (io_script io i))"
  shows "http_call env (io\<lparr>io_reports := evs\<rparr>) l (HttpReadH i) P1 = None"
  using handleRead_waits_iff [OF assms(1,2)] assms(3,4) by (simp add: http_call_def)

lemma client_gone:
  assumes "clean (io_script io i)" "\<not> is_crlf (io_hdr io)" "\<not> io_open io i" "all_bytes (io_script io i) = []"
    and "CHR 0x00 \<notin> set (io_line io)"
  shows "http_call env (io\<lparr>io_reports := evs\<rparr>) l (HttpReadH i) P1 = Some (Inl OutOfBounds)"
  using http_peer_close [OF assms(1,4,2), of "io_line io" env l "io_rio io" i "hp_world P1"] assms(3,5)
  by (simp add: http_call_def)

text \<open>Without the file the response never ends.\<close>

lemma client_without_page:
  assumes inv: "http_inv page efd n P" and i: "i < length (hw_data (hp_world P))" and sys: "\<forall>call. 0 \<le> sys call"
    and junk: "\<not> has junk EPOLLOUT" and io: "reads_ok io" "io_stat io \<noteq> None" "io_file io = None"
    and req: "request_complete (all_bytes (io_script io i))"
    and d: "d = hw_data (hp_world P) ! i" and l: "l = hd_loop d" and pc: "hp_pc P l = AtPoll"
  shows "http_turns (http_env_of sys junk) l (client_turns io (hd_fd d)) P = None"
proof -
  let ?env = "http_env_of sys junk"
  define quiet where "quiet = io\<lparr>io_reports := []\<rparr>"
  define inp where "inp = io\<lparr>io_reports := [(hd_fd d, EPOLLIN)]\<rparr>"
  define out where "out = io\<lparr>io_reports := [(hd_fd d, EPOLLOUT)]\<rparr>"
  have turns: "client_turns io (hd_fd d) = [quiet, quiet] @ [inp, inp, inp] @ [out, out]"
    by (simp add: client_turns_def quiet_def inp_def out_def Let_def)
  have l': "l = hd_loop (hw_data (hp_world P) ! i)" using l d by simp
  obtain P2 where P2: "http_turns ?env l [quiet, quiet] P = Some (Inr P2)" "http_inv page efd n P2" "at_poll i P2"
    "hw_data (hp_world P2) = hw_data (hp_world P)"
    using quiet_round [OF inv i sys junk l' pc quiet_def] by blast
  have d2: "d = hw_data (hp_world P2) ! i" using d P2(4) by simp
  obtain P5 where P5: "http_turns ?env l [inp, inp, inp] P2 = Some (Inr P5)" "http_inv page efd n P5" "at_poll i P5"
    "hw_data (hp_world P5) = hw_data (hp_world P2)"
    "has (ch_events (el_heap (hw_loops (hp_world P5) l) (hd_channel d))) CHANNEL_WRITE"
    using request_round [OF P2(2,3) sys junk io(1) req d2 l inp_def] by blast
  have d5: "d = hw_data (hp_world P5) ! i" using d2 P5(4) by simp
  have "http_call ?env out l (HttpWriteH i) P1 = None" for P1
    using io(2,3) by (auto simp: http_call_def http_handleWrite_def out_def serve_static_never_returns)
  then obtain P6 where "http_turn ?env out l P5 = Some (Inr P6)" "http_turn ?env out l P6 = None"
    using report_one [OF P5(2,3) junk, of l "hd_channel d" EPOLLOUT CHANNEL_WRITE HttpWriteH out io ?env] d5 l P5(5) out_def by auto
  then show ?thesis unfolding turns http_turns_append P2(1) P5(1) option.case sum.case by simp
qed

section \<open>A client is accepted\<close>

text \<open>The steps of the main thread in which the listening descriptor is reported.\<close>

definition accept_turns :: "http_io \<Rightarrow> int \<Rightarrow> http_io list" where
  "accept_turns io lfd = replicate 2 (io\<lparr>io_reports := [(lfd, EPOLLIN)]\<rparr>)"

lemma client_accepted:
  assumes inv: "http_inv page efd n P" and fresh: "fresh_fd efd n (hp_world P) (io_accept io)" and junk: "\<not> has junk EPOLLOUT"
    and pc: "hp_pc P 0 = AtPoll"
  shows "\<exists>P' d. http_turns env 0 (accept_turns io (hw_listen_fd (hp_world P))) P = Some (Inr P') \<and> hd_fd d = io_accept io \<and>
    hd_loop d = Suc (length (hw_data (hp_world P)) mod n) \<and> hw_data (hp_world P') = hw_data (hp_world P) @ [d] \<and>
    hp_sent P' = hp_sent P \<and> (\<forall>l. l \<noteq> 0 \<longrightarrow> hp_pc P' l = hp_pc P l) \<and>
    (\<forall>Q. io_ok page io \<longrightarrow> http_reach env page junk efd n Q P \<longrightarrow> http_reach env page junk efd n Q P')"
proof -
  let ?W = "hp_world P" let ?L = "hw_loops ?W 0" let ?h = "on_chan 1 (setActiveEvent CHANNEL_READ) (el_heap ?L)"
  define acc where "acc = io\<lparr>io_reports := [(hw_listen_fd ?W, EPOLLIN)]\<rparr>"
  let ?P = "P\<lparr>hp_world := ?W\<lparr>hw_loops := (hw_loops ?W)(0 := ?L\<lparr>el_heap := ?h\<rparr>)\<rparr>, hp_pc := (hp_pc P)(0 := Handling [1])\<rparr>"
  let ?P1 = "?P\<lparr>hp_pc := (hp_pc ?P)(0 := Handling [])\<rparr>"
  have m: "main_ok (efd 0) (hw_listen_fd ?W) ?L" using http_invD(5) [OF inv] .
  have asked: "reports_asked junk (io_reports acc) ?L" by (simp add: reports_asked_def acc_def EPOLLIN_def EPOLLOUT_def)
  have "epoll_active EPOLLIN (el_heap ?L 1) = CHANNEL_READ"
    using m by (simp add: epoll_active_def main_ok_def has_def channel_masks EPOLLIN_def EPOLLOUT_def Let_def)
  then have poll: "epoll_poll (io_reports acc) (el_poller ?L) (el_heap ?L) = (?h, [1], [])"
    using m by (simp add: acc_def main_ok_def has_def channel_masks Let_def)
  note t1 = turn_poll [OF inv le0 junk asked pc poll refl, of env]
  then have inv1: "http_inv page efd n ?P" and run1: "http_turn env acc 0 P = Some (Inr ?P)" by blast+
  have ev: "handleEvent (?h 1) = Inr (Some AcceptH)"
    using m by (simp add: main_ok_def handleEvent_def call_handler_def setActiveEvent_def has_def channel_masks Let_def)
  have fresh1: "fresh_fd efd n (hp_world ?P) (io_accept acc)" using fresh by (simp add: fresh_fd_def acc_def)
  have pc1: "hp_pc ?P 0 = Handling [1]" by simp
  obtain P' d where P': "http_call env acc 0 AcceptH ?P1 = Some (Inr P')" "hp_pc P' = hp_pc ?P1"
    "hw_data (hp_world P') = hw_data (hp_world ?P) @ [d]" "hd_fd d = io_accept acc" "hd_loop d = Suc (length (hw_data (hp_world ?P)) mod n)"
    using turn_accept [OF inv1 fresh1 pc1 refl, of env] by blast
  have sent: "hp_sent P' = hp_sent P" using P'(1) by (auto simp: http_call_def bindE_def split: sum.splits)
  have run2: "http_turn env acc 0 ?P = Some (Inr P')" using ev P'(1) by (simp add: http_turn_def Let_def)
  have reach: "http_reach env page junk efd n Q P'" if "io_ok page io" "http_reach env page junk efd n Q P" for Q
  proof -
    have ok: "io_ok page acc" using that(1) by (simp add: acc_def)
    have k: "kernel_ok junk efd n P 0 acc" using asked fresh by (simp add: kernel_ok_def acc_def)
    have "reports_asked junk (io_reports acc) (hw_loops (hp_world ?P) 0)"
      by (simp add: reports_asked_def acc_def EPOLLIN_def EPOLLOUT_def)
    then have k1: "kernel_ok junk efd n ?P 0 acc" using fresh1 by (simp add: kernel_ok_def)
    show ?thesis using http_reach.step [OF http_reach.step [OF that(2) le0 ok k run1] le0 ok k1 run2] .
  qed
  have "accept_turns io (hw_listen_fd ?W) = [acc, acc]" by (simp add: accept_turns_def acc_def numeral_2_eq_2)
  with run1 run2 P'(2-5) sent reach show ?thesis
    by (intro exI [of _ P'] exI [of _ d]) (simp add: acc_def)
qed

section \<open>Starting\<close>

lemma new_loop_run:
  assumes "\<forall>call. 0 \<le> sys call" "epfd \<noteq> -1" "0 \<le> efd"
  shows "\<exists>L. new_loop sys junk tid epfd efd = Inr L \<and> el_thread_id L = tid \<and> el_pending L = [] \<and> el_next_ptr L = 1 \<and>
    wake_ok efd (el_heap L 0) \<and> channels (el_poller L) = [efd \<mapsto> 0]"
proof -
  have s: "\<not> sys call < 0" "sys call \<noteq> -1" for call using spec [OF assms(1), of call] by auto
  show ?thesis using assms(2,3)
    by (simp add: new_loop_def Epoller_ctor_def EventLoop_ctor_def epoll_update_def Let_def s wake_ok_def channel_ops Channel_ctor_def)
qed

lemma new_loops_run:
  "\<forall>l\<in>{1..k}. \<exists>L. mk l = Inr L \<Longrightarrow>
   \<exists>Ls'. new_loops mk k Ls = Inr Ls' \<and> (\<forall>l\<in>{1..k}. mk l = Inr (Ls' l)) \<and> Ls' 0 = Ls 0"
proof (induction k)
  case (Suc k)
  then obtain Ls1 where Ls1: "new_loops mk k Ls = Inr Ls1" "\<forall>l\<in>{1..k}. mk l = Inr (Ls1 l)" "Ls1 0 = Ls 0" by auto
  obtain L where L: "mk (Suc k) = Inr L" using Suc.prems by (metis atLeastAtMost_iff le_refl One_nat_def Suc_le_mono zero_le)
  with Ls1 show ?case by (intro exI [of _ "Ls1(Suc k := L)"]) (auto simp: le_Suc_eq)
qed simp

lemma fresh_worker:
  assumes "el_thread_id L = l" "el_pending L = []" "el_next_ptr L = 1" "wake_ok efd (el_heap L 0)" "channels (el_poller L) = [efd \<mapsto> 0]"
  shows "worker_ok efd [] l (el_pending L) L"
  using assms by (simp add: worker_ok_def)

lemma listenfd_opened:
  assumes "\<forall>call. 0 \<le> ssys call"
  shows "fst (open_listenfd ssys port) = ssys SCreate"
proof -
  have s: "\<not> ssys call < 0" for call using spec [OF assms, of call] by simp
  show ?thesis by (simp add: open_listenfd_def Let_def s)
qed

text \<open>The main loop with the listening channel, before and after \<open>start\<close>.\<close>

lemma started_main:
  assumes "el_thread_id L = 0" "el_pending L = []" "el_next_ptr L = 1" "wake_ok efd (el_heap L 0)" "channels (el_poller L) = [efd \<mapsto> 0]"
    and lfd: "lfd \<noteq> efd" and sys: "\<forall>call. 0 \<le> sys call"
    and L1: "L1 = new_channel (setFd lfd (Channel_ctor junk lfd False)) L"
  shows "\<exists>L2. set_and_update (http_env_of sys junk) 0 1 CHANNEL_CONN
      (L1\<lparr>el_heap := on_chan 1 (setReadHandler AcceptH) (el_heap L1)\<rparr>) = Inr L2 \<and> main_ok efd lfd L2"
proof -
  let ?L = "L1\<lparr>el_heap := on_chan 1 (setReadHandler AcceptH) (el_heap L1)\<rparr>"
  have "isLoopThread 0 ?L" using assms(1) L1 by (simp add: isLoopThread_def)
  then have "set_and_update (http_env_of sys junk) 0 1 CHANNEL_CONN ?L = Inr (with_events 1 CHANNEL_CONN ?L)"
    unfolding set_and_update_Inr update_with_events(1) [OF sys] by simp
  moreover have "main_ok efd lfd (with_events 1 CHANNEL_CONN ?L)"
    using assms(1-5) lfd L1
    by (auto simp: main_ok_def Let_def with_events_def new_channel_def channel_ops Channel_ctor_def wake_ok_def reg_ok_def
        isLoopThread_def on_chan_def split: if_splits)
  ultimately show ?thesis by blast
qed

lemma running_worker [simp]: "worker_ok efd D l Q (L\<lparr>el_running := b\<rparr>) = worker_ok efd D l Q L"
  by (simp add: worker_ok_def member_ok_def)

lemma running_main [simp]: "main_ok efd lfd (L\<lparr>el_running := b\<rparr>) = main_ok efd lfd L"
  by (simp add: main_ok_def)

lemma http_main_run:
  assumes sys: "\<forall>call. 0 \<le> sys call" and ssys: "\<forall>call. 0 \<le> ssys call" "0 < ssys SCreate"
    and fds: "\<forall>l\<le>n. epfd l \<noteq> -1 \<and> 0 \<le> efd l" "ssys SCreate \<noteq> efd 0" and n: "0 < n" "n < 2 ^ 31"
  shows "\<exists>P0. http_main sys ssys junk epfd efd n port = Inr P0 \<and> http_inv page efd n P0 \<and> hw_data (hp_world P0) = [] \<and>
    (\<forall>l. hp_pc P0 l = AtPoll) \<and> (\<forall>i. hp_sent P0 i = [])"
proof -
  let ?mk = "\<lambda>l. new_loop sys junk l (epfd l) (efd l)" let ?env = "http_env_of sys junk"
  obtain L where L: "new_loop sys junk 0 (epfd 0) (efd 0) = Inr L" "el_thread_id L = 0" "el_pending L = []" "el_next_ptr L = 1"
    "wake_ok (efd 0) (el_heap L 0)" "channels (el_poller L) = [efd 0 \<mapsto> 0]"
    using new_loop_run [OF sys, of "epfd 0" "efd 0" junk 0] fds(1) by auto
  let ?lfd = "ssys SCreate"
  have "size_of_int (int n) = n" using n(2) by (simp add: size_of_int_nonneg)
  then obtain W where W: "HttpServer_ctor ssys junk 0 (int n) port (\<lambda>_. L) = Inr W" "hw_accept W = Some 1" "hw_main W = 0"
    "hw_pool W = ThreadPool_ctor 0 n" "hw_data W = []" "hw_listen_fd W = ?lfd" "hw_loops W 0 = new_channel (setFd ?lfd (Channel_ctor junk ?lfd False)) L"
    using ssys(2) L(4) by (simp add: HttpServer_ctor_def Let_def on_loop_def listenfd_opened [OF ssys(1)])
  have "\<forall>l\<in>{1..n}. \<exists>L. ?mk l = Inr L" using new_loop_run [OF sys] fds(1) by (meson atLeastAtMost_iff)
  from new_loops_run [OF this, of "hw_loops W"] obtain Ls where Ls: "new_loops ?mk n (hw_loops W) = Inr Ls"
    "\<forall>l\<in>{1..n}. ?mk l = Inr (Ls l)" "Ls 0 = hw_loops W 0" by blast
  have worker: "worker_ok (efd l) [] l (el_pending (Ls l)) (Ls l)" if l: "l \<in> {1..n}" for l
  proof -
    from l fds(1) obtain K where "?mk l = Inr K" "el_thread_id K = l \<and> el_pending K = [] \<and> el_next_ptr K = 1 \<and>
        wake_ok (efd l) (el_heap K 0) \<and> channels (el_poller K) = [efd l \<mapsto> 0]"
      using new_loop_run [OF sys, of "epfd l" "efd l" junk l] by auto
    with Ls(2) l fresh_worker show ?thesis by auto
  qed
  obtain L2 where L2: "set_and_update ?env 0 1 CHANNEL_CONN ((Ls 0)\<lparr>el_heap := on_chan 1 (setReadHandler AcceptH) (el_heap (Ls 0))\<rparr>) = Inr L2"
    "main_ok (efd 0) ?lfd L2"
    using started_main [OF L(2-6) fds(2) sys W(7)] unfolding Ls(3) by blast
  have "isLoopThread 0 (Ls 0)" using L(2) W(7) by (simp add: isLoopThread_def Ls(3))
  then have start: "HttpServer_start ?env Suc 0 (W\<lparr>hw_loops := Ls\<rparr>) =
      Inr (W\<lparr>hw_loops := Ls(0 := L2), hw_pool := (ThreadPool_ctor 0 n)\<lparr>tp_started := True, tp_loops := map Suc [0..<n]\<rparr>, hw_started := True\<rparr>)"
    using W(2-4) L2(1) by (simp add: HttpServer_start_def ThreadPool_start_def ThreadPool_ctor_def on_loop_def)
  let ?W1 = "W\<lparr>hw_loops := \<lambda>l. ((Ls(0 := L2)) l)\<lparr>el_running := True\<rparr>,
      hw_pool := (ThreadPool_ctor 0 n)\<lparr>tp_started := True, tp_loops := map Suc [0..<n]\<rparr>, hw_started := True\<rparr>"
  let ?P = "\<lparr>hp_world = ?W1, hp_pc = \<lambda>_. AtPoll, hp_asked = \<lambda>_. 0, hp_sent = \<lambda>_. []\<rparr>"
  have "http_main sys ssys junk epfd efd n port = Inr ?P" using L(1) W(1) Ls(1) start by (simp add: http_main_def)
  moreover have "http_inv page efd n ?P"
    using worker L2(2) W(3,5,6) n(1)
    by (auto simp: http_inv_def pool_ok_def ThreadPool_ctor_def handling_ok_def answers_ok_def wants_write_def Let_def)
  ultimately show ?thesis using W(5) by simp
qed

section \<open>Properties\<close>

lemma http_reach_inv:
  assumes "http_reach (http_env_of sys junk) page junk efd n P0 P" "http_inv page efd n P0"
    and "\<forall>call. 0 \<le> sys call" "\<not> has junk EPOLLOUT" "length page < 2 ^ 31"
  shows "http_inv page efd n P"
  using assms(1)
proof (induction rule: http_reach.induct)
  case init
  from assms(2) show ?case .
next
  case (step P l io P')
  from http_turn_ok [OF step(6,2) assms(3-5) step(3,4)] step(5) show ?case by auto
qed


text \<open>Two threads, one client.\<close>

definition demo_io :: http_io where
  "demo_io = \<lparr>io_reports = [], io_accept = 9, io_junk = 0, io_line = [CHR 0x00], io_hdr = ''xxx'',
     io_rio = rio_init 0 \<lparr>rio_fd = 0, rio_cnt = 0, rio_bufptr = 0, rio_buf = []\<rparr>,
     io_script = \<lambda>_. [Data (CHR ''G'' # crlf), Data crlf], io_open = \<lambda>_. True, io_stat = Some 2, io_file = Some [Data ''hi''],
     io_block = replicate MAXLINE (CHR ''x''), io_errs = \<lambda>_. False, io_takes = [Wrote 5], io_fuel = 9\<rparr>"

lemma demo_io_ok: "io_ok ''hi'' demo_io" "request_complete (all_bytes (io_script demo_io i))"
  by (simp_all add: io_ok_def reads_ok_def serves_ok_def demo_io_def clean_def takes_all_def is_crlf_def crlf_def request_complete_def split_lines_simps
      MAXLINE_def cut_line_numeral)


end
