(* ===== verification/LogStream.thy ===== *)
theory LogStream
  imports StdLib
begin

text \<open>
  \<open>FixedBuffer\<close>, \<open>LogStream\<close> and the conversions of integers (src/base/log_stream.h,
  src/base/log_stream.cpp). A write is checked against the array: outside of it the model
  reports \<open>OutOfBounds\<close>, where the code would overwrite what lies behind.
\<close>

section \<open>Conversions\<close>

definition digits :: "char list" where
  "digits = ''9876543210123456789''"

text \<open>\<open>zero[lsd]\<close>, where \<open>zero\<close> points at the middle of \<open>digits\<close>.\<close>

definition zero_at :: "int \<Rightarrow> char" where
  "zero_at lsd = digits ! nat (9 + lsd)"

definition digitsHex :: "char list" where
  "digitsHex = ''0123456789ABCDEF''"

function convert_loop :: "int \<Rightarrow> char list" where
  "convert_loop i =
     (let lsd = c_mod i 10; i' = c_div i 10
      in zero_at lsd # (if i' \<noteq> 0 then convert_loop i' else []))"
  by auto
termination
proof (relation "measure (\<lambda>i. nat \<bar>i\<bar>)")
  fix i lsd i' :: int
  assume "i' = c_div i 10" "i' \<noteq> 0"
  then have "\<bar>i'\<bar> = \<bar>i\<bar> div 10" "10 \<le> \<bar>i\<bar>"
    using c_div_abs [of 10 i] c_div_zero_iff [of 10 i] by auto
  then show "(i', i) \<in> measure (\<lambda>i. nat \<bar>i\<bar>)" by (simp, linarith)
qed simp

declare convert_loop.simps [simp del]

definition convert :: "int \<Rightarrow> char list" where
  "convert value = rev (convert_loop value @ (if value < 0 then ''-'' else []))"

fun hex_loop :: "nat \<Rightarrow> char list" where
  "hex_loop i = digitsHex ! (i mod 16) # (if i div 16 \<noteq> 0 then hex_loop (i div 16) else [])"

declare hex_loop.simps [simp del]

definition convertHex :: "64 word \<Rightarrow> char list" where
  "convertHex value = rev (hex_loop (unat value))"

section \<open>The fixed buffer\<close>

record fixed_buffer =
  fb_data :: "char list"
  fb_cur :: nat

definition FixedBuffer_ctor :: "char list \<Rightarrow> fixed_buffer" where
  "FixedBuffer_ctor junk = \<lparr>fb_data = junk, fb_cur = 0\<rparr>"

definition fb_length :: "fixed_buffer \<Rightarrow> int" where
  "fb_length b = int (fb_cur b)"

definition fb_avail :: "fixed_buffer \<Rightarrow> int" where
  "fb_avail b = int (length (fb_data b)) - int (fb_cur b)"

text \<open>Writing bytes from \<open>cur_\<close> on, without moving it.\<close>

definition fb_poke :: "char list \<Rightarrow> fixed_buffer \<Rightarrow> fixed_buffer res" where
  "fb_poke s b =
     (if fb_cur b + length s \<le> length (fb_data b)
      then Inr (b\<lparr>fb_data := take (fb_cur b) (fb_data b) @ s @ drop (fb_cur b + length s) (fb_data b)\<rparr>)
      else Inl OutOfBounds)"

definition fb_add :: "nat \<Rightarrow> fixed_buffer \<Rightarrow> fixed_buffer" where
  "fb_add len b = b\<lparr>fb_cur := fb_cur b + len\<rparr>"

text \<open>\<open>append\<close>: the length is cast to \<open>int\<close> before it is compared.\<close>

definition fb_append :: "char list \<Rightarrow> fixed_buffer \<Rightarrow> fixed_buffer res" where
  "fb_append s b =
     (if int_of_size (length s) < fb_avail b
      then bindE (fb_poke s b) (\<lambda>b1. Inr (fb_add (length s) b1))
      else Inr b)"

definition fb_reset :: "fixed_buffer \<Rightarrow> fixed_buffer" where
  "fb_reset b = b\<lparr>fb_cur := 0\<rparr>"

definition fb_bzero :: "fixed_buffer \<Rightarrow> fixed_buffer" where
  "fb_bzero b = b\<lparr>fb_data := replicate (length (fb_data b)) (CHR 0x00)\<rparr>"

section \<open>The stream\<close>

definition kSmallBuffer :: nat where "kSmallBuffer = 4000"
definition kLargeBuffer :: nat where "kLargeBuffer = 4000 * 1000"
definition kMaxNumericSize :: int where "kMaxNumericSize = 32"

text \<open>\<open>operator<<\<close> on its argument types; all integer types share \<open>formatInteger\<close>. The text of a
  double is what \<open>snprintf("%.12g")\<close> makes of it.\<close>

datatype log_arg =
    LBool bool
  | LInt int
  | LPtr "64 word"
  | LChar char
  | LCStr "char list option"
  | LString "char list"
  | LDouble "char list"

definition formatInteger :: "int \<Rightarrow> fixed_buffer \<Rightarrow> fixed_buffer res" where
  "formatInteger v b =
     (if fb_avail b \<ge> kMaxNumericSize
      then bindE (fb_poke (convert v @ [CHR 0x00]) b) (\<lambda>b1. Inr (fb_add (length (convert v)) b1))
      else Inr b)"

definition formatPointer :: "64 word \<Rightarrow> fixed_buffer \<Rightarrow> fixed_buffer res" where
  "formatPointer p b =
     (if fb_avail b \<ge> kMaxNumericSize
      then bindE (fb_poke (''0x'' @ convertHex p @ [CHR 0x00]) b)
             (\<lambda>b1. Inr (fb_add (length (convertHex p) + 2) b1))
      else Inr b)"

definition formatDouble :: "char list \<Rightarrow> fixed_buffer \<Rightarrow> fixed_buffer res" where
  "formatDouble txt b =
     (if fb_avail b \<ge> kMaxNumericSize
      then bindE (fb_poke (take (nat kMaxNumericSize - 1) txt @ [CHR 0x00]) b)
             (\<lambda>b1. Inr (fb_add (length txt) b1))
      else Inr b)"

fun log_put :: "log_arg \<Rightarrow> fixed_buffer \<Rightarrow> fixed_buffer res" where
  "log_put (LBool v) b = fb_append (if v then ''1'' else ''0'') b"
| "log_put (LInt v) b = formatInteger v b"
| "log_put (LPtr p) b = formatPointer p b"
| "log_put (LChar c) b = fb_append [c] b"
| "log_put (LCStr s) b = fb_append (case s of Some t \<Rightarrow> t | None \<Rightarrow> ''(null)'') b"
| "log_put (LString s) b = fb_append s b"
| "log_put (LDouble t) b = formatDouble t b"

fun log_puts :: "log_arg list \<Rightarrow> fixed_buffer \<Rightarrow> fixed_buffer res" where
  "log_puts [] b = Inr b"
| "log_puts (a # as) b = bindE (log_put a b) (log_puts as)"

section \<open>Lemmas\<close>

lemma zero_at_digit: "\<bar>d\<bar> < 10 \<Longrightarrow> zero_at d = digit_char (nat \<bar>d\<bar>)"
proof -
  assume d: "\<bar>d\<bar> < 10"
  have "\<forall>d\<in>set [-9..9]. zero_at d = digit_char (nat \<bar>d\<bar>)" by code_simp
  moreover have "d \<in> set [-9..9]" unfolding set_upto using d by (simp only: atLeastAtMost_iff) linarith
  ultimately show ?thesis by (rule bspec)
qed

lemma convert_loop_digits: "rev (convert_loop i) = dec_nat (nat \<bar>i\<bar>)"
proof (induction i rule: convert_loop.induct)
  case (1 i)
  have z: "zero_at (c_mod i 10) = digit_char (nat \<bar>i\<bar> mod 10)"
    using zero_at_digit [of "c_mod i 10"] by (simp add: c_mod_abs nat_mod_distrib)
  have d: "nat \<bar>c_div i 10\<bar> = nat \<bar>i\<bar> div 10" by (simp add: c_div_abs nat_div_distrib)
  show ?case
  proof (cases "c_div i 10 = 0")
    case True
    then have "nat \<bar>i\<bar> < 10" using c_div_zero_iff [of 10 i] by simp
    with True z show ?thesis by (subst convert_loop.simps, subst dec_nat.simps) (simp add: Let_def)
  next
    case False
    then have "\<not> nat \<bar>i\<bar> < 10" using c_div_zero_iff [of 10 i] by auto
    with False z d 1 show ?thesis
      by (subst convert_loop.simps, subst dec_nat.simps) (simp add: Let_def)
  qed
qed

lemma convert_decimal: "convert v = decimal v"
  by (simp add: convert_def decimal_def convert_loop_digits)

definition fb_ok :: "fixed_buffer \<Rightarrow> bool" where
  "fb_ok b \<longleftrightarrow> fb_cur b \<le> length (fb_data b) \<and> length (fb_data b) < 2147483648"

definition fb_text :: "fixed_buffer \<Rightarrow> char list" where
  "fb_text b = take (fb_cur b) (fb_data b)"

lemma length_fb_text: "fb_ok b \<Longrightarrow> length (fb_text b) = fb_cur b"
  by (simp add: fb_ok_def fb_text_def)

text \<open>Writing \<open>s\<close> and a terminator, then advancing by the length of \<open>s\<close>.\<close>

lemma fb_poke_ok:
  assumes "fb_ok b" "int (length s) \<le> fb_avail b"
  shows "\<exists>b1. fb_poke s b = Inr b1 \<and> length (fb_data b1) = length (fb_data b) \<and> fb_cur b1 = fb_cur b \<and>
    take (fb_cur b + length s) (fb_data b1) = fb_text b @ s"
  using assms by (auto simp: fb_poke_def fb_avail_def fb_ok_def fb_text_def)

lemma fb_put_ok:
  assumes "fb_ok b" "int (length s + length rest) \<le> fb_avail b"
  shows "\<exists>b1. fb_poke (s @ rest) b = Inr b1 \<and> fb_ok (fb_add (length s) b1) \<and>
    fb_text (fb_add (length s) b1) = fb_text b @ s \<and>
    length (fb_data (fb_add (length s) b1)) = length (fb_data b)"
proof -
  obtain b1 where b1: "fb_poke (s @ rest) b = Inr b1" "length (fb_data b1) = length (fb_data b)"
    "fb_cur b1 = fb_cur b" "take (fb_cur b + length (s @ rest)) (fb_data b1) = fb_text b @ s @ rest"
    using fb_poke_ok [OF assms(1), of "s @ rest"] assms(2) by auto
  have "take (fb_cur b + length s) (fb_data b1) =
      take (fb_cur b + length s) (take (fb_cur b + length (s @ rest)) (fb_data b1))"
    by (simp add: min_def)
  also have "\<dots> = fb_text b @ s" unfolding b1(4) using length_fb_text [OF assms(1)] by simp
  finally show ?thesis
    using b1(1-3) assms by (auto simp: fb_ok_def fb_add_def fb_text_def fb_avail_def)
qed

lemma fb_append_cases:
  assumes "fb_ok b" "length s < 2147483648"
  shows "\<exists>b1. fb_append s b = Inr b1 \<and> fb_ok b1 \<and> length (fb_data b1) = length (fb_data b) \<and>
    fb_text b1 = fb_text b @ (if int (length s) < fb_avail b then s else [])"
proof (cases "int (length s) < fb_avail b")
  case True
  with fb_put_ok [OF assms(1), of s "[]"] show ?thesis
    using assms(2) by (auto simp: fb_append_def int_of_size_small)
next
  case False
  with assms show ?thesis by (simp add: fb_append_def int_of_size_small)
qed

text \<open>Hexadecimal text and its length.\<close>

definition hex_digit_val :: "char \<Rightarrow> nat" where
  "hex_digit_val c = (if ubyte c < 58 then ubyte c - 48 else ubyte c - 55)"

definition hex_value :: "char list \<Rightarrow> nat" where
  "hex_value cs = foldl (\<lambda>v c. 16 * v + hex_digit_val c) 0 cs"

lemma hex_digit: "d < 16 \<Longrightarrow> hex_digit_val (digitsHex ! d) = d"
proof -
  assume d: "d < 16"
  have "\<forall>d\<in>set [0..<16]. hex_digit_val (digitsHex ! d) = d" by code_simp
  with d show ?thesis by simp
qed

lemma hex_value_snoc: "hex_value (xs @ [c]) = 16 * hex_value xs + hex_digit_val c"
  by (simp add: hex_value_def)

lemma hex_loop_value: "hex_value (rev (hex_loop n)) = n"
proof (induction n rule: hex_loop.induct)
  case (1 i)
  then show ?case
    by (subst hex_loop.simps) (auto simp: hex_value_snoc hex_digit, auto simp: hex_value_def hex_digit)
qed

lemma hex_loop_length: "n < 16 ^ Suc k \<Longrightarrow> length (hex_loop n) \<le> Suc k"
proof (induction k arbitrary: n)
  case 0
  then show ?case by (subst hex_loop.simps) simp
next
  case (Suc k)
  have "n div 16 < 16 ^ Suc k" using Suc.prems by (simp add: less_mult_imp_div_less)
  with Suc.IH show ?case by (subst hex_loop.simps) simp
qed

lemma convertHex_length: "length (convertHex p) \<le> 16"
proof -
  have "unat p < 16 ^ Suc 15" using unsigned_less [where 'a = nat, of p] by simp
  from hex_loop_length [OF this] show ?thesis by (simp add: convertHex_def)
qed

text \<open>A 64-bit integer, signed or not, prints in at most twenty characters.\<close>

definition int64_range :: "int \<Rightarrow> bool" where
  "int64_range v \<longleftrightarrow> -(2 ^ 63) \<le> v \<and> v < 2 ^ 64"

lemma convert_length:
  assumes "int64_range v"
  shows "length (convert v) \<le> 20"
proof (cases "v < 0")
  case True
  then have "nat \<bar>v\<bar> < 10 ^ Suc 18" using assms by (simp add: int64_range_def)
  from dec_nat_length [OF this] True show ?thesis by (simp add: convert_decimal decimal_def)
next
  case False
  then have "nat \<bar>v\<bar> < 10 ^ Suc 19" using assms by (simp add: int64_range_def)
  from dec_nat_length [OF this] False show ?thesis by (simp add: convert_decimal decimal_def)
qed

section \<open>The contract of the stream\<close>

text \<open>The text of an argument, the room it asks for, and the arguments C++ can pass: 64-bit
  integers, strings shorter than \<open>2^31\<close>, doubles of at most 31 characters.\<close>

fun log_text :: "log_arg \<Rightarrow> char list" where
  "log_text (LBool v) = (if v then ''1'' else ''0'')"
| "log_text (LInt v) = decimal v"
| "log_text (LPtr p) = ''0x'' @ convertHex p"
| "log_text (LChar c) = [c]"
| "log_text (LCStr s) = (case s of Some t \<Rightarrow> t | None \<Rightarrow> ''(null)'')"
| "log_text (LString s) = s"
| "log_text (LDouble t) = t"

fun log_room :: "log_arg \<Rightarrow> int" where
  "log_room (LInt v) = 32"
| "log_room (LPtr p) = 32"
| "log_room (LDouble t) = 32"
| "log_room a = int (length (log_text a)) + 1"

fun log_arg_ok :: "log_arg \<Rightarrow> bool" where
  "log_arg_ok (LInt v) = int64_range v"
| "log_arg_ok (LDouble t) = (length t \<le> 31)"
| "log_arg_ok a = (length (log_text a) < 2147483648)"

fun log_spec :: "int \<Rightarrow> log_arg list \<Rightarrow> char list" where
  "log_spec avail [] = []"
| "log_spec avail (a # as) =
     (if log_room a \<le> avail
      then log_text a @ log_spec (avail - int (length (log_text a))) as
      else log_spec avail as)"

lemma log_put_cases:
  assumes "fb_ok b" "log_arg_ok a"
  shows "\<exists>b1. log_put a b = Inr b1 \<and> fb_ok b1 \<and> length (fb_data b1) = length (fb_data b) \<and>
    fb_text b1 = fb_text b @ (if log_room a \<le> fb_avail b then log_text a else [])"
proof -
  have plain: ?thesis if "log_put a b = fb_append (log_text a) b" "log_room a = int (length (log_text a)) + 1"
    "length (log_text a) < 2147483648"
    using fb_append_cases [OF assms(1) that(3)] that by (simp add: zless_iff_Suc_zadd add1_zle_eq)
  show ?thesis
  proof (cases a)
    case (LInt v)
    have len: "length (convert v) \<le> 20" using LInt assms(2) convert_length by simp
    show ?thesis
    proof (cases "32 \<le> fb_avail b")
      case True
      with len fb_put_ok [OF assms(1), of "convert v" "[CHR 0x00]"] LInt show ?thesis
        by (auto simp: formatInteger_def kMaxNumericSize_def convert_decimal)
    qed (use LInt assms(1) in \<open>simp add: formatInteger_def kMaxNumericSize_def\<close>)
  next
    case (LPtr p)
    show ?thesis
    proof (cases "32 \<le> fb_avail b")
      case True
      with convertHex_length [of p] fb_put_ok [OF assms(1), of "''0x'' @ convertHex p" "[CHR 0x00]"] LPtr
      show ?thesis by (auto simp: formatPointer_def kMaxNumericSize_def)
    qed (use LPtr assms(1) in \<open>simp add: formatPointer_def kMaxNumericSize_def\<close>)
  next
    case (LDouble t)
    show ?thesis
    proof (cases "32 \<le> fb_avail b")
      case True
      with fb_put_ok [OF assms(1), of t "[CHR 0x00]"] LDouble assms(2) show ?thesis
        by (auto simp: formatDouble_def kMaxNumericSize_def)
    qed (use LDouble assms(1) in \<open>simp add: formatDouble_def kMaxNumericSize_def\<close>)
  next
    case (LBool v)
    then show ?thesis by (intro plain) simp_all
  next
    case (LChar c)
    then show ?thesis by (intro plain) simp_all
  next
    case (LCStr t)
    with assms(2) show ?thesis by (intro plain) simp_all
  next
    case (LString t)
    with assms(2) show ?thesis by (intro plain) simp_all
  qed
qed

lemma fb_avail_text: "fb_ok b \<Longrightarrow> fb_avail b = int (length (fb_data b)) - int (length (fb_text b))"
  by (simp add: fb_avail_def length_fb_text)

lemma log_puts_spec:
  "fb_ok b \<Longrightarrow> \<forall>a\<in>set as. log_arg_ok a \<Longrightarrow>
   \<exists>b1. log_puts as b = Inr b1 \<and> fb_ok b1 \<and> length (fb_data b1) = length (fb_data b) \<and>
     fb_text b1 = fb_text b @ log_spec (fb_avail b) as"
proof (induction as arbitrary: b)
  case (Cons a as)
  obtain b1 where b1: "log_put a b = Inr b1" "fb_ok b1" "length (fb_data b1) = length (fb_data b)"
    "fb_text b1 = fb_text b @ (if log_room a \<le> fb_avail b then log_text a else [])"
    using log_put_cases [OF Cons.prems(1), of a] Cons.prems(2) by auto
  have "fb_avail b1 = fb_avail b - (if log_room a \<le> fb_avail b then int (length (log_text a)) else 0)"
    using b1(3,4) by (simp add: fb_avail_text [OF b1(2)] fb_avail_text [OF Cons.prems(1)])
  with Cons.IH [OF b1(2)] b1 Cons.prems(2) show ?case by auto
qed simp

section \<open>Properties\<close>

text \<open>\<open>convert\<close>, with its mirrored digit table indexed by the signed remainder, is the
  decimal text of its argument for every integer, the most negative ones included, and two
  integers with the same text are equal; \<open>convertHex\<close> is the hexadecimal text of a pointer:
  reading it back gives the pointer.\<close>

theorem convert_correct:
  "convert v = decimal v \<and> (convert v = convert w \<longleftrightarrow> v = w) \<and>
   hex_value (convertHex p) = unat p"
  by (simp add: convert_decimal decimal_inj convertHex_def hex_loop_value)

text \<open>Bounds: a 64-bit integer converts to at most 20 characters and a pointer to at most 16,
  so with the \<open>0x\<close> prefix and the terminator neither conversion writes past the
  \<open>kMaxNumericSize\<close> bytes \<open>formatInteger\<close> checks for.\<close>

theorem convert_bounds:
  assumes "int64_range v"
  shows "int (length (convert v) + 1) \<le> kMaxNumericSize \<and>
         int (length (''0x'' @ convertHex p) + 1) \<le> kMaxNumericSize"
  using convert_length [OF assms] convertHex_length [of p] by (simp add: kMaxNumericSize_def)

theorem convert_bounds_witness:
  "convert (-(2 ^ 63)) = ''-9223372036854775808'' \<and> int (length (convert (-(2 ^ 63))) + 1) \<le> kMaxNumericSize"
proof -
  have "int64_range (-(2 ^ 63))" by (simp add: int64_range_def)
  moreover have "convert (-(2 ^ 63)) = ''-9223372036854775808''" by code_simp
  ultimately show ?thesis using convert_bounds by blast
qed

text \<open>C37. The stream never writes outside of its buffer, whatever is streamed into it: each
  argument goes into the text whole, in order, or, when there is not the room it asks for, is
  dropped whole while later, smaller ones may still fit.\<close>

theorem log_stream_spec:
  assumes "fb_ok b" "\<forall>a\<in>set as. log_arg_ok a"
  shows "\<exists>b1. log_puts as b = Inr b1 \<and> fb_ok b1 \<and> fb_text b1 = fb_text b @ log_spec (fb_avail b) as"
  using log_puts_spec [OF assms] by blast

theorem log_stream_spec_witness:
  "\<exists>b1. log_puts [LString ''port '', LInt (-80), LChar CHR ''!''] (FixedBuffer_ctor (replicate 40 CHR ''?'')) = Inr b1 \<and>
        fb_text b1 = ''port -80!''"
proof -
  let ?b = "FixedBuffer_ctor (replicate 40 CHR ''?'')"
  let ?as = "[LString ''port '', LInt (-80), LChar CHR ''!'']"
  have "fb_ok ?b" by (simp add: fb_ok_def FixedBuffer_ctor_def)
  moreover have "\<forall>a\<in>set ?as. log_arg_ok a" by (simp add: int64_range_def)
  moreover have "fb_text ?b = []" "log_spec (fb_avail ?b) ?as = ''port -80!''" by code_simp+
  ultimately show ?thesis using log_stream_spec [of ?b ?as] by (simp only: append_Nil) blast
qed

end
