(* ===== verification/AsyncLog.thy ===== *)
theory AsyncLog
  imports LogStream
begin

text \<open>
  \<open>AsyncLogging\<close> (src/base/async_logging.h, src/base/async_logging.cpp): producers append to a
  current buffer, a thread of its own swaps the full buffers out and writes them. A step
  is a section of code the mutex protects, or one in which the thread touches only what is
  its own. A \<open>unique_ptr\<close> is an option. \<open>al_out\<close> is the sequence of \<open>output.append\<close> calls of the
  thread, whose effect on the disk is the subject of LogFile; \<open>al_msgs\<close> records what
  was appended and \<open>al_dropped\<close> whether buffers were thrown away.
\<close>

section \<open>State\<close>

datatype async_pc = ACheck | AWaiting | AWriting "fixed_buffer list" | ADone

record async =
  al_running :: bool
  al_current :: "fixed_buffer option"
  al_next :: "fixed_buffer option"
  al_buffers :: "fixed_buffer list"
  al_new1 :: "fixed_buffer option"
  al_new2 :: "fixed_buffer option"
  al_pc :: async_pc
  al_out :: "char list list"
  al_console :: "char list"
  al_msgs :: "char list list"
  al_dropped :: bool

definition fb_bytes :: "fixed_buffer \<Rightarrow> char list" where
  "fb_bytes b = take (nat (fb_length b)) (fb_data b)"

text \<open>\<open>new Buffer\<close>: \<open>junk\<close> is the memory it gets.\<close>

definition new_buffer :: "char list \<Rightarrow> fixed_buffer" where
  "new_buffer junk = FixedBuffer_ctor (take kLargeBuffer (junk @ replicate kLargeBuffer (CHR 0x00)))"

text \<open>The state behind the constructor, \<open>start\<close> and the first lines of \<open>threadFunc\<close>.\<close>

definition async_started :: "char list \<Rightarrow> async" where
  "async_started junk =
     \<lparr>al_running = True, al_current = Some (fb_bzero (new_buffer junk)),
      al_next = Some (fb_bzero (new_buffer junk)), al_buffers = [],
      al_new1 = Some (fb_bzero (new_buffer junk)), al_new2 = Some (fb_bzero (new_buffer junk)),
      al_pc = ACheck, al_out = [], al_console = [], al_msgs = [], al_dropped = False\<rparr>"

section \<open>Operations\<close>

definition deref :: "'a option \<Rightarrow> 'a res" where
  "deref p = (case p of None \<Rightarrow> Inl NullDeref | Some x \<Rightarrow> Inr x)"

text \<open>\<open>append\<close>; every message goes to the console too, \<open>console_log_\<close> being always set.\<close>

definition async_append :: "char list \<Rightarrow> char list \<Rightarrow> async \<Rightarrow> async res" where
  "async_append junk msg S =
     (let S0 = S\<lparr>al_console := al_console S @ msg, al_msgs := al_msgs S @ [msg]\<rparr> in
      bindE (deref (al_current S)) (\<lambda>cur.
        if fb_avail cur > int (length msg)
        then bindE (fb_append msg cur) (\<lambda>b. Inr (S0\<lparr>al_current := Some b\<rparr>))
        else
          let fresh = (case al_next S of Some b \<Rightarrow> b | None \<Rightarrow> new_buffer junk) in
          bindE (fb_append msg fresh) (\<lambda>b.
            Inr (S0\<lparr>al_buffers := al_buffers S @ [cur], al_current := Some b, al_next := None\<rparr>))))"

text \<open>The critical section of the thread, with the asserts around it. The wait for the
  condition variable ends after \<open>flushInterval_\<close> at the latest.\<close>

definition async_collect :: "async \<Rightarrow> async res" where
  "async_collect S =
     bindE (deref (al_new1 S)) (\<lambda>n1. bindE (assertE (fb_length n1 = 0)) (\<lambda>_.
     bindE (deref (al_new2 S)) (\<lambda>n2. bindE (assertE (fb_length n2 = 0)) (\<lambda>_.
     bindE (deref (al_current S)) (\<lambda>cur.
       let toWrite = al_buffers S @ [cur];
           S1 = S\<lparr>al_current := Some n1, al_new1 := None, al_buffers := [], al_pc := AWriting toWrite\<rparr>
       in Inr (if al_next S1 = None then S1\<lparr>al_next := Some n2, al_new2 := None\<rparr> else S1))))))"

definition drop_notice :: "nat \<Rightarrow> char list" where
  "drop_notice n = ''Dropped log messages '' @ decimal (int (n - 2)) @ '' larger buffers'' @ [CHR 0x0A]"

text \<open>\<open>reuse p bs\<close>: a lost spare buffer is replaced by the last of the written ones.\<close>

definition reuse :: "fixed_buffer option \<Rightarrow> fixed_buffer list \<Rightarrow> (fixed_buffer \<times> fixed_buffer list) res" where
  "reuse p bs =
     (case p of
        Some b \<Rightarrow> Inr (b, bs)
      | None \<Rightarrow> bindE (assertE (bs \<noteq> [])) (\<lambda>_. Inr (fb_reset (last bs), butlast bs)))"

definition async_write :: "fixed_buffer list \<Rightarrow> async \<Rightarrow> async res" where
  "async_write toWrite S =
     bindE (assertE (toWrite \<noteq> [])) (\<lambda>_.
     let n = length toWrite;
         kept = (if n > 25 then take 2 toWrite else toWrite);
         out = al_out S @ (if n > 25 then [drop_notice n] else []) @ map fb_bytes kept;
         spare = (if length kept > 2 then take 2 kept else kept)
     in bindE (reuse (al_new1 S) spare) (\<lambda>(n1, spare1).
        bindE (reuse (al_new2 S) spare1) (\<lambda>(n2, spare2).
        Inr (S\<lparr>al_out := out, al_new1 := Some n1, al_new2 := Some n2, al_pc := ACheck,
               al_dropped := al_dropped S \<or> n > 25\<rparr>))))"

definition async_stop :: "async \<Rightarrow> async" where
  "async_stop S = S\<lparr>al_running := False\<rparr>"

text \<open>The test of \<open>running_\<close> and the critical section are separate steps: \<open>stop\<close> may come in between.
  The steps of the producers, of the thread, and of the thread that calls \<open>stop\<close>. A message's
  length is an \<open>int\<close>.\<close>

inductive async_step :: "async \<Rightarrow> async res \<Rightarrow> bool" where
  append: "length msg < 2147483648 \<Longrightarrow> async_step S (async_append junk msg S)"
| enter: "al_pc S = ACheck \<Longrightarrow> al_running S \<Longrightarrow> async_step S (Inr (S\<lparr>al_pc := AWaiting\<rparr>))"
| collect: "al_pc S = AWaiting \<Longrightarrow> async_step S (async_collect S)"
| writes: "al_pc S = AWriting bs \<Longrightarrow> async_step S (async_write bs S)"
| ends: "al_pc S = ACheck \<Longrightarrow> \<not> al_running S \<Longrightarrow> async_step S (Inr (S\<lparr>al_pc := ADone\<rparr>))"
| stop: "async_step S (Inr (async_stop S))"

inductive async_reach :: "async \<Rightarrow> bool" where
  started: "async_reach (async_started junk)"
| step: "async_reach S \<Longrightarrow> async_step S (Inr S') \<Longrightarrow> async_reach S'"

inductive_cases async_stepE: "async_step S r"

section \<open>Invariants\<close>

definition large_ok :: "fixed_buffer \<Rightarrow> bool" where
  "large_ok b \<longleftrightarrow> fb_ok b \<and> length (fb_data b) = kLargeBuffer"

definition empty_ok :: "fixed_buffer \<Rightarrow> bool" where
  "empty_ok b \<longleftrightarrow> large_ok b \<and> fb_cur b = 0"

definition accepted :: "char list list \<Rightarrow> char list" where
  "accepted msgs = concat (filter (\<lambda>m. length m < kLargeBuffer) msgs)"

fun in_writing :: "async_pc \<Rightarrow> fixed_buffer list" where
  "in_writing (AWriting bs) = bs"
| "in_writing _ = []"

definition texts :: "fixed_buffer list \<Rightarrow> char list" where
  "texts bs = concat (map fb_text bs)"

fun next_ok :: "fixed_buffer option \<Rightarrow> fixed_buffer list \<Rightarrow> bool" where
  "next_ok (Some b) bs = empty_ok b"
| "next_ok None bs = (bs \<noteq> [])"

text \<open>The thread's two spare buffers: while it writes it has lost the first one, and the second
  one only when there are two buffers to take their place.\<close>

fun spare_ok :: "fixed_buffer option \<Rightarrow> bool" where
  "spare_ok (Some b) = empty_ok b"
| "spare_ok None = False"

fun spares_ok :: "async_pc \<Rightarrow> fixed_buffer option \<Rightarrow> fixed_buffer option \<Rightarrow> bool" where
  "spares_ok (AWriting bs) n1 n2 =
     (n1 = None \<and> bs \<noteq> [] \<and> (if n2 = None then 2 \<le> length bs else spare_ok n2))"
| "spares_ok _ n1 n2 = (spare_ok n1 \<and> spare_ok n2)"

lemma spare_okE: "spare_ok p \<Longrightarrow> (\<And>b. p = Some b \<Longrightarrow> empty_ok b \<Longrightarrow> thesis) \<Longrightarrow> thesis"
  by (cases p) auto

definition buffers_inv :: "async \<Rightarrow> bool" where
  "buffers_inv S \<longleftrightarrow>
     (\<exists>c. al_current S = Some c \<and> large_ok c) \<and> next_ok (al_next S) (al_buffers S) \<and>
     (\<forall>b\<in>set (al_buffers S) \<union> set (in_writing (al_pc S)). large_ok b)"

definition spares_inv :: "async \<Rightarrow> bool" where
  "spares_inv S \<longleftrightarrow> spares_ok (al_pc S) (al_new1 S) (al_new2 S)"

text \<open>The current buffer's text.\<close>

fun current_text :: "fixed_buffer option \<Rightarrow> char list" where
  "current_text (Some b) = fb_text b"
| "current_text None = []"

definition content_inv :: "async \<Rightarrow> bool" where
  "content_inv S \<longleftrightarrow>
     (\<not> al_dropped S \<longrightarrow>
        concat (al_out S) @ texts (in_writing (al_pc S)) @ texts (al_buffers S) @
          current_text (al_current S) = accepted (al_msgs S))"

definition async_inv :: "async \<Rightarrow> bool" where
  "async_inv S \<longleftrightarrow> buffers_inv S \<and> spares_inv S \<and> content_inv S"

lemma texts_simps [simp]:
  "texts [] = []"
  "texts (b # bs) = fb_text b @ texts bs"
  "texts (bs @ cs) = texts bs @ texts cs"
  by (simp_all add: texts_def)

lemma accepted_snoc: "accepted (msgs @ [m]) = accepted msgs @ (if length m < kLargeBuffer then m else [])"
  by (simp add: accepted_def)

lemma empty_ok_simps:
  "empty_ok b \<Longrightarrow> large_ok b"
  "empty_ok b \<Longrightarrow> fb_text b = []"
  "empty_ok b \<Longrightarrow> fb_length b = 0"
  "empty_ok b \<Longrightarrow> fb_avail b = int kLargeBuffer"
  by (simp_all add: empty_ok_def large_ok_def fb_text_def fb_length_def fb_avail_def)

lemma kLargeBuffer_small: "kLargeBuffer < 2147483648" "0 < kLargeBuffer"
  by (simp_all add: kLargeBuffer_def)

lemma new_buffer_ok: "empty_ok (new_buffer junk)" "empty_ok (fb_bzero (new_buffer junk))"
  using kLargeBuffer_small
  by (auto simp: empty_ok_def large_ok_def fb_ok_def new_buffer_def FixedBuffer_ctor_def fb_bzero_def min_def)

lemma reset_ok: "large_ok b \<Longrightarrow> empty_ok (fb_reset b)"
  by (simp add: empty_ok_def large_ok_def fb_ok_def fb_reset_def)

lemma large_append:
  assumes "large_ok b" "length m < 2147483648"
  obtains b1 where "fb_append m b = Inr b1" "large_ok b1"
    "fb_text b1 = fb_text b @ (if int (length m) < fb_avail b then m else [])"
  using fb_append_cases [of b m] assms by (auto simp: large_ok_def)

lemma fb_bytes_text: "fb_bytes = fb_text"
  by (rule ext) (simp add: fb_bytes_def fb_text_def fb_length_def)

lemma async_started_inv: "async_inv (async_started junk)"
  using new_buffer_ok(2) [of junk] empty_ok_simps [OF new_buffer_ok(2) [of junk]]
  by (simp add: async_inv_def buffers_inv_def spares_inv_def content_inv_def async_started_def accepted_def)

lemma async_append_inv:
  assumes inv: "async_inv S" and len: "length msg < 2147483648"
  shows "\<exists>S'. async_append junk msg S = Inr S' \<and> async_inv S' \<and> al_pc S' = al_pc S \<and>
     al_running S' = al_running S \<and> al_out S' = al_out S"
proof -
  obtain c where c: "al_current S = Some c" "large_ok c"
    using inv by (auto simp: async_inv_def buffers_inv_def)
  have big: "int (length msg) < fb_avail c \<Longrightarrow> length msg < kLargeBuffer"
    using c(2) by (simp add: fb_avail_def large_ok_def)
  show ?thesis
  proof (cases "int (length msg) < fb_avail c")
    case True
    obtain b where b: "fb_append msg c = Inr b" "large_ok b" "fb_text b = fb_text c @ msg"
      using large_append [OF c(2) len] True by auto
    have "async_append junk msg S = Inr (S\<lparr>al_console := al_console S @ msg, al_msgs := al_msgs S @ [msg],
        al_current := Some b\<rparr>)"
      using c(1) b(1) True by (simp add: async_append_def deref_def Let_def)
    moreover have "async_inv (S\<lparr>al_console := al_console S @ msg, al_msgs := al_msgs S @ [msg], al_current := Some b\<rparr>)"
      using inv b(2,3) c(1) big [OF True]
      by (auto simp: async_inv_def buffers_inv_def spares_inv_def content_inv_def accepted_snoc)
    ultimately show ?thesis by simp
  next
    case False
    define fresh where "fresh = (case al_next S of Some b \<Rightarrow> b | None \<Rightarrow> new_buffer junk)"
    have f: "empty_ok fresh"
      using inv new_buffer_ok(1) [of junk]
      by (cases "al_next S") (auto simp: fresh_def async_inv_def buffers_inv_def)
    obtain b where b: "fb_append msg fresh = Inr b" "large_ok b"
      "fb_text b = (if length msg < kLargeBuffer then msg else [])"
      using large_append [OF empty_ok_simps(1) [OF f] len] empty_ok_simps [OF f] by auto
    let ?S = "S\<lparr>al_console := al_console S @ msg, al_msgs := al_msgs S @ [msg],
        al_buffers := al_buffers S @ [c], al_current := Some b, al_next := None\<rparr>"
    have "async_append junk msg S = Inr ?S"
      using c(1) b(1) False by (simp add: async_append_def deref_def Let_def fresh_def [symmetric])
    moreover have "async_inv ?S"
      using inv b(2,3) c
      by (auto simp: async_inv_def buffers_inv_def spares_inv_def content_inv_def accepted_snoc)
    ultimately show ?thesis by simp
  qed
qed

lemma async_collect_inv:
  assumes inv: "async_inv S" and pc: "al_pc S = AWaiting"
  shows "\<exists>S' bs. async_collect S = Inr S' \<and> async_inv S' \<and> al_pc S' = AWriting bs \<and>
     length bs = Suc (length (al_buffers S)) \<and> al_buffers S' = [] \<and>
     (\<exists>n. al_current S' = Some n \<and> empty_ok n) \<and> al_msgs S' = al_msgs S \<and>
     al_dropped S' = al_dropped S \<and> al_running S' = al_running S"
proof -
  obtain c where c: "al_current S = Some c" "large_ok c"
    using inv by (auto simp: async_inv_def buffers_inv_def)
  obtain n1 n2 where n: "al_new1 S = Some n1" "al_new2 S = Some n2" "empty_ok n1" "empty_ok n2"
    using inv pc by (auto simp: async_inv_def spares_inv_def elim!: spare_okE)
  note e = empty_ok_simps [OF n(3)] empty_ok_simps [OF n(4)]
  show ?thesis
    using inv c n e pc
    by (cases "al_next S")
      (auto simp: async_collect_def deref_def Let_def async_inv_def buffers_inv_def spares_inv_def
        content_inv_def Suc_le_eq)
qed

lemma reuse_ok:
  assumes "next_ok p bs" "\<forall>b\<in>set bs. large_ok b"
  shows "\<exists>b cs. reuse p bs = Inr (b, cs) \<and> empty_ok b \<and> set cs \<subseteq> set bs \<and>
     length cs = (if p = None then length bs - 1 else length bs)"
  using assms reset_ok [of "last bs"]
  by (cases p) (auto simp: reuse_def dest: in_set_butlastD)

lemma async_write_inv:
  assumes inv: "async_inv S" and pc: "al_pc S = AWriting bs"
  shows "\<exists>S'. async_write bs S = Inr S' \<and> async_inv S' \<and> al_pc S' = ACheck \<and>
     al_buffers S' = al_buffers S \<and> al_current S' = al_current S \<and> al_msgs S' = al_msgs S \<and>
     al_dropped S' = (al_dropped S \<or> 25 < length bs) \<and> al_running S' = al_running S"
proof -
  define kept where "kept = (if length bs > 25 then take 2 bs else bs)"
  define spare where "spare = (if length kept > 2 then take 2 kept else kept)"
  have n1: "al_new1 S = None" and ne: "bs \<noteq> []" and n2: "al_new2 S = None \<Longrightarrow> 2 \<le> length bs"
    and e2: "al_new2 S = Some b \<Longrightarrow> empty_ok b" for b
    using inv pc by (cases "al_new2 S"; auto simp: async_inv_def spares_inv_def)+
  have sp: "length spare = min 2 (length bs)" "set spare \<subseteq> set bs"
    by (auto simp: spare_def kept_def dest: in_set_takeD)
  have large: "\<forall>b\<in>set spare. large_ok b"
    using inv pc sp(2) by (auto simp: async_inv_def buffers_inv_def)
  have "spare \<noteq> []" using sp(1) ne by (cases bs; cases spare) auto
  then obtain m1 cs where r1: "reuse (al_new1 S) spare = Inr (m1, cs)" "empty_ok m1" "set cs \<subseteq> set spare"
    "length cs = length spare - 1"
    using reuse_ok [of None spare] large n1 by auto
  have "al_new2 S = None \<Longrightarrow> cs \<noteq> []" using r1(4) sp(1) n2 by auto
  then obtain m2 ds where r2: "reuse (al_new2 S) cs = Inr (m2, ds)" "empty_ok m2"
    using reuse_ok [of "al_new2 S" cs] large r1(3) e2 by (cases "al_new2 S") auto
  let ?S = "S\<lparr>al_out := al_out S @ (if length bs > 25 then [drop_notice (length bs)] else []) @ map fb_bytes kept,
      al_new1 := Some m1, al_new2 := Some m2, al_pc := ACheck, al_dropped := al_dropped S \<or> length bs > 25\<rparr>"
  have "async_write bs S = Inr ?S"
    unfolding async_write_def Let_def kept_def [symmetric] spare_def [symmetric]
    using ne r1(1) r2(1) by simp
  moreover have "async_inv ?S"
    using inv pc r1(2) r2(2)
    by (auto simp: async_inv_def buffers_inv_def spares_inv_def content_inv_def kept_def texts_def fb_bytes_text)
  ultimately show ?thesis by simp
qed

lemma async_step_inv:
  assumes "async_step S r" "async_inv S"
  shows "\<exists>S'. r = Inr S' \<and> async_inv S'"
  using assms
proof (cases rule: async_step.cases)
  case (append msg junk)
  then show ?thesis using async_append_inv [OF assms(2)] by blast
next
  case collect
  then show ?thesis using async_collect_inv [OF assms(2)] by blast
next
  case (writes bs)
  then show ?thesis using async_write_inv [OF assms(2)] by blast
qed (use assms(2) in \<open>auto simp: async_inv_def buffers_inv_def spares_inv_def content_inv_def async_stop_def\<close>)

lemma async_reach_inv: "async_reach S \<Longrightarrow> async_inv S"
proof (induction rule: async_reach.induct)
  case (started junk)
  show ?case by (rule async_started_inv)
next
  case (step S S')
  then show ?case using async_step_inv by blast
qed

text \<open>
  The logger never fails: in every interleaving of producers, the writing thread and \<open>stop\<close>
  no step dereferences a null buffer, breaks one of the asserts or writes outside a buffer.
\<close>

theorem async_safe:
  assumes "async_reach S" "async_step S r"
  shows "\<exists>S'. r = Inr S'"
  using async_step_inv [OF assms(2) async_reach_inv [OF assms(1)]] by blast

theorem async_safe_witness:
  "\<exists>S'. async_append [] ''hello'' (async_started []) = Inr S'"
  by (rule async_safe [OF async_reach.started [of "[]"] async_step.append]) simp

text \<open>
  C4. As long as no batch of more than 25 buffers has been thrown away, nothing appended is lost,
  repeated or moved: what the thread wrote, what it is writing, the full buffers and the
  current one are together the messages in the order appended (a message of
  \<open>kLargeBuffer\<close> bytes or more never fits and is dropped).
\<close>

theorem async_no_loss:
  assumes "async_reach S" "\<not> al_dropped S"
  shows "concat (al_out S) @ texts (in_writing (al_pc S)) @ texts (al_buffers S) @
     current_text (al_current S) = accepted (al_msgs S)"
  using async_reach_inv [OF assms(1)] assms(2) by (simp add: async_inv_def content_inv_def)

lemma one_message:
  "length msg < kLargeBuffer \<Longrightarrow> accepted [msg] = msg"
  by (simp add: accepted_def)

theorem async_no_loss_witness:
  "\<exists>S. async_append [] ''hello'' (async_started []) = Inr S \<and> concat (al_out S) @ texts (in_writing (al_pc S)) @
     texts (al_buffers S) @ current_text (al_current S) = ''hello''"
proof -
  obtain S where S: "async_append [] ''hello'' (async_started []) = Inr S"
    using async_append_inv [OF async_started_inv, of "''hello''"] by auto
  have r: "async_reach S"
    using async_reach.step [OF async_reach.started async_step.append [of "''hello''" "async_started []" "[]", unfolded S]]
    by simp
  have "al_msgs S = [''hello''] \<and> \<not> al_dropped S"
    using S by (auto simp: async_append_def async_started_def deref_def Let_def split: if_splits)
  then show ?thesis
    using async_no_loss [OF r] S by (auto simp: accepted_def kLargeBuffer_def)
qed

section \<open>Flushing and stopping\<close>

text \<open>The steps of everybody.\<close>

definition async_next :: "async \<Rightarrow> async \<Rightarrow> bool" where
  "async_next S S' \<longleftrightarrow> async_step S (Inr S')"

text \<open>A turn of the loop of \<open>threadFunc\<close>.\<close>

definition writer_turn :: "async \<Rightarrow> async res" where
  "writer_turn L =
     (case al_pc L of
        ACheck \<Rightarrow> Inr (L\<lparr>al_pc := (if al_running L then AWaiting else ADone)\<rparr>)
      | AWaiting \<Rightarrow> async_collect L
      | AWriting bs \<Rightarrow> async_write bs L
      | ADone \<Rightarrow> Inr L)"

text \<open>The thread alone, for \<open>n\<close> turns.\<close>

fun writer_run :: "nat \<Rightarrow> async \<Rightarrow> async res" where
  "writer_run 0 L = Inr L"
| "writer_run (Suc n) L = bindE (writer_turn L) (writer_run n)"

lemma writer_turn_step:
  assumes "al_pc L \<noteq> ADone"
  shows "async_step L (writer_turn L)"
proof (cases "al_pc L")
  case ACheck
  then show ?thesis
    using async_step.enter [of L] async_step.ends [of L] by (cases "al_running L") (simp_all add: writer_turn_def)
next
  case AWaiting
  with async_step.collect show ?thesis by (simp add: writer_turn_def)
next
  case (AWriting bs)
  with async_step.writes show ?thesis by (simp add: writer_turn_def)
qed (use assms in simp)

text \<open>The thread has written everything: no buffer is full, none is being written and the
  current one is empty.\<close>

definition written_out :: "async \<Rightarrow> bool" where
  "written_out S \<longleftrightarrow> in_writing (al_pc S) = [] \<and> al_buffers S = [] \<and> current_text (al_current S) = []"

text \<open>\<open>n\<close> turns of the thread get everything out.\<close>

definition flushed_in :: "nat \<Rightarrow> async \<Rightarrow> bool" where
  "flushed_in n S \<longleftrightarrow> (\<exists>S'. writer_run n S = Inr S' \<and> al_msgs S' = al_msgs S \<and>
     concat (al_out S') = accepted (al_msgs S) \<and> written_out S' \<and> \<not> al_dropped S')"

lemma flushed_in_Suc:
  "writer_turn S = Inr S1 \<Longrightarrow> al_msgs S1 = al_msgs S \<Longrightarrow> flushed_in n S1 \<Longrightarrow> flushed_in (Suc n) S"
  by (simp add: flushed_in_def)

lemma flush_from_waiting:
  assumes "async_inv S" "al_pc S = AWaiting" "length (al_buffers S) < 25" "\<not> al_dropped S"
  shows "flushed_in 2 S"
proof -
  obtain S1 bs c where c: "async_collect S = Inr S1" "async_inv S1" "al_pc S1 = AWriting bs"
    "length bs = Suc (length (al_buffers S))" "al_buffers S1 = []" "al_current S1 = Some c" "empty_ok c"
    "al_msgs S1 = al_msgs S" "al_dropped S1 = al_dropped S"
    using async_collect_inv [OF assms(1,2)] by blast
  obtain S2 where w: "async_write bs S1 = Inr S2" "async_inv S2" "al_pc S2 = ACheck"
    "al_buffers S2 = []" "al_current S2 = Some c" "al_msgs S2 = al_msgs S" "\<not> al_dropped S2"
    using async_write_inv [OF c(2,3)] c assms(3,4) by auto
  have "written_out S2" using w(3-5) empty_ok_simps(2) [OF c(7)] by (simp add: written_out_def)
  moreover from this have "concat (al_out S2) = accepted (al_msgs S)"
    using w(2,6,7) by (simp add: async_inv_def content_inv_def written_out_def)
  ultimately show ?thesis
    using c(1,3) w(1,6,7) assms(2) by (simp add: flushed_in_def numeral_2_eq_2 writer_turn_def)
qed

lemma flush_from_check:
  assumes "async_inv S" "al_pc S = ACheck" "al_running S" "length (al_buffers S) < 25" "\<not> al_dropped S"
  shows "flushed_in 3 S"
proof -
  have "async_inv (S\<lparr>al_pc := AWaiting\<rparr>)"
    using assms(1,2) by (simp add: async_inv_def buffers_inv_def spares_inv_def content_inv_def)
  then have "flushed_in 2 (S\<lparr>al_pc := AWaiting\<rparr>)" using assms(4,5) by (intro flush_from_waiting) simp_all
  then show ?thesis
    unfolding numeral_3_eq_3 numeral_2_eq_2
    by (rule flushed_in_Suc [rotated 2]) (use assms(2,3) in \<open>simp_all add: writer_turn_def\<close>)
qed

text \<open>
  C36. While the logger runs, or the thread is already past its test of \<open>running_\<close>, the thread gets
  everything appended so far to the log file in at most four turns of its own: it ends the write it is at,
  tests \<open>running_\<close>, swaps the buffers out and writes them. Nobody else has to take a step; the wait for the
  condition variable has a timeout. This needs that the thread has not fallen behind: no more than 25
  buffers in the batch it is writing and fewer than 25 full ones behind it, as longer batches are thrown
  away, which must not have happened before either.
\<close>

theorem async_flushes:
  assumes "async_reach S" "al_pc S = AWaiting \<or> al_running S \<and> al_pc S \<noteq> ADone"
    and "length (in_writing (al_pc S)) \<le> 25" "length (al_buffers S) < 25" "\<not> al_dropped S"
  shows "\<exists>n\<le>4. \<exists>S'. writer_run n S = Inr S' \<and> al_msgs S' = al_msgs S \<and>
     concat (al_out S') = accepted (al_msgs S) \<and> written_out S' \<and> \<not> al_dropped S'"
proof -
  have inv: "async_inv S" using async_reach_inv [OF assms(1)] .
  have "\<exists>n\<le>4. flushed_in n S"
  proof (cases "al_pc S")
    case ACheck
    with flush_from_check [OF inv] assms(2,4,5) show ?thesis by (intro exI [of _ 3]) simp
  next
    case AWaiting
    with flush_from_waiting [OF inv] assms(4,5) show ?thesis by (intro exI [of _ 2]) simp
  next
    case (AWriting bs)
    obtain S1 where S1: "async_write bs S = Inr S1" "async_inv S1" "al_pc S1 = ACheck" "al_buffers S1 = al_buffers S"
      "al_msgs S1 = al_msgs S" "\<not> al_dropped S1" "al_running S1 = al_running S"
      using async_write_inv [OF inv AWriting] assms(3,5) AWriting by auto
    have "flushed_in 3 S1" using S1 assms(2,4) AWriting by (intro flush_from_check) simp_all
    moreover have "writer_turn S = Inr S1" using AWriting S1(1) by (simp add: writer_turn_def)
    ultimately have "flushed_in (Suc 3) S" using S1(5) by (intro flushed_in_Suc)
    then show ?thesis by (intro exI [of _ 4]) simp
  qed (use assms(2) in simp)
  then show ?thesis by (simp add: flushed_in_def)
qed

text \<open>A message is appended, then the thread runs.\<close>

theorem async_flushes_witness:
  "\<exists>n\<le>4. \<exists>S S'. async_append [] ''hello'' (async_started []) = Inr S \<and> writer_run n S = Inr S' \<and>
     concat (al_out S') = ''hello''"
proof -
  have len: "length ''hello'' < 2147483648" by simp
  obtain S where S: "async_append [] ''hello'' (async_started []) = Inr S" "al_pc S = ACheck" "al_running S"
    using async_append_inv [OF async_started_inv len, of "[]" "[]"] by (auto simp: async_started_def)
  have r: "async_reach S"
    using async_reach.step [OF async_reach.started] async_step.append [OF len, of "async_started []" "[]"] S(1) by simp
  have m: "al_msgs S = [''hello''] \<and> \<not> al_dropped S \<and> length (al_buffers S) < 25"
    using S(1) by (auto simp: async_append_def async_started_def deref_def Let_def bindE_def split: sum.splits if_splits)
  have "accepted [''hello''] = ''hello''" by (simp add: accepted_def kLargeBuffer_def)
  with async_flushes [OF r] S m show ?thesis by auto
qed

lemma done_stays: "async_next\<^sup>*\<^sup>* S S' \<Longrightarrow> al_pc S = ADone \<Longrightarrow> async_inv S \<Longrightarrow>
    al_pc S' = ADone \<and> al_out S' = al_out S \<and> async_inv S'"
proof (induction rule: rtranclp_induct)
  case base
  then show ?case by simp
next
  case (step S1 S2)
  then have 1: "al_pc S1 = ADone" "al_out S1 = al_out S" "async_inv S1" by auto
  have "async_step S1 (Inr S2)" using step(2) by (simp add: async_next_def)
  then show ?case
  proof (cases rule: async_step.cases)
    case (append msg junk)
    then show ?thesis using async_append_inv [OF 1(3), of msg junk] 1 by auto
  qed (use 1 in \<open>auto simp: async_stop_def async_inv_def buffers_inv_def spares_inv_def content_inv_def\<close>)
qed

text \<open>
  \<open>stop\<close> loses what is appended during the last write: for every message there is a run in
  which it is accepted before \<open>stop\<close>, the thread ends, and the message is not in the
  log file then or ever after.
\<close>

theorem stop_loses_tail:
  assumes "length msg < kLargeBuffer"
  shows "\<exists>S. async_reach S \<and> al_pc S = ADone \<and> al_msgs S = [msg] \<and> \<not> al_dropped S \<and>
     (\<forall>S'. async_next\<^sup>*\<^sup>* S S' \<longrightarrow> concat (al_out S') = [])"
proof -
  let ?S0 = "async_started []"
  let ?S1 = "?S0\<lparr>al_pc := AWaiting\<rparr>"
  have r1: "async_reach ?S1"
    by (rule async_reach.step [OF async_reach.started async_step.enter]) (simp_all add: async_started_def)
  have p1: "al_pc ?S1 = AWaiting" "al_msgs ?S1 = []" "al_out ?S1 = []" "\<not> al_dropped ?S1" "al_buffers ?S1 = []"
    by (simp_all add: async_started_def)
  obtain S2 bs n where c: "async_collect ?S1 = Inr S2" "al_pc S2 = AWriting bs" "al_msgs S2 = []" "\<not> al_dropped S2"
    "length bs = 1" "async_inv S2" "al_buffers S2 = []" and n: "al_current S2 = Some n" "empty_ok n"
    using async_collect_inv [OF async_reach_inv [OF r1] p1(1)] p1 by auto
  have r2: "async_reach S2"
    using async_reach.step [OF r1] async_step.collect [OF p1(1)] c(1) by simp
  have len: "length msg < 2147483648" using assms kLargeBuffer_small by simp
  obtain S3 where a: "async_append [] msg S2 = Inr S3" "async_inv S3" "al_pc S3 = AWriting bs"
    using async_append_inv [OF c(6) len, of "[]"] c(2) by auto
  obtain b where b: "fb_append msg n = Inr b" "fb_text b = msg"
    using large_append [OF empty_ok_simps(1) [OF n(2)] len] empty_ok_simps [OF n(2)] assms by auto
  have a2: "al_msgs S3 = [msg]" "\<not> al_dropped S3" "al_buffers S3 = []" "al_current S3 = Some b"
    using a(1) c(3,4,7) n(1) b(1) assms empty_ok_simps(4) [OF n(2)]
    by (auto simp: async_append_def deref_def Let_def)
  have r3: "async_reach S3"
    using async_reach.step [OF r2] async_step.append [OF len, of S2 "[]"] a(1) by simp
  obtain S4 where w: "async_write bs S3 = Inr S4" "async_inv S4" "al_pc S4 = ACheck" "al_msgs S4 = [msg]" "\<not> al_dropped S4"
    "al_buffers S4 = []" "al_current S4 = Some b"
    using async_write_inv [OF a(2,3)] a2 c(5) by auto
  have r4: "async_reach S4"
    using async_reach.step [OF r3] async_step.writes [OF a(3)] w(1) by simp
  let ?S5 = "async_stop S4" let ?S6 = "?S5\<lparr>al_pc := ADone\<rparr>"
  have r6: "async_reach ?S6"
    by (rule async_reach.step [OF async_reach.step [OF r4 async_step.stop] async_step.ends])
      (simp_all add: async_stop_def w(3))
  have "concat (al_out S4) = []"
    using w(2-7) b(2) one_message [OF assms] by (simp add: async_inv_def content_inv_def)
  then have "concat (al_out S') = []" if "async_next\<^sup>*\<^sup>* ?S6 S'" for S'
    using done_stays [OF that _ async_reach_inv [OF r6]] by (simp add: async_stop_def)
  with r6 w(4,5) show ?thesis
    by (intro exI [of _ ?S6]) (simp add: async_stop_def)
qed

theorem stop_loses_tail_witness:
  "\<exists>S. async_reach S \<and> al_pc S = ADone \<and> al_msgs S = [''bye''] \<and> concat (al_out S) = []"
proof -
  have "length ''bye'' < kLargeBuffer" by (simp add: kLargeBuffer_def)
  from stop_loses_tail [OF this] show ?thesis by blast
qed

end
