(* ===== verification/AsyncLife.thy ===== *)
theory AsyncLife
  imports AsyncLog Threads
begin

text \<open>
  The life of an \<open>AsyncLogging\<close> (src/base/async_logging.h: \<open>start\<close>, \<open>stop\<close>, the destructor;
  src/base/async_logging.cpp: the constructor and the first lines of \<open>threadFunc\<close>): the owner's
  calls, the new thread and the producers interleaved, over the buffers of AsyncLog and the latch of
  Threads. The owner is thread 0 of the latch.
\<close>

section \<open>State and steps\<close>

datatype owner_call = Start | Stop | Destroy

text \<open>The owner between its calls, in \<open>start\<close> behind the creation of the thread, in \<open>join\<close>; the
  thread before its assert, before \<open>countDown\<close>, in its loop (where \<open>al_pc\<close> says more).\<close>

datatype owner_pc = OIdle | OStarting | OJoining
datatype thread_pc = NoThread | Entering | Announcing | Working

record life =
  li_log :: async
  li_latch :: latch
  li_owner :: owner_pc
  li_calls :: "owner_call list"
  li_thread :: thread_pc
  li_alive :: bool

definition AsyncLogging_ctor :: "char list \<Rightarrow> async" where
  "AsyncLogging_ctor junk =
     \<lparr>al_running = False, al_current = Some (fb_bzero (new_buffer junk)),
      al_next = Some (fb_bzero (new_buffer junk)), al_buffers = [], al_new1 = None, al_new2 = None,
      al_pc = ADone, al_out = [], al_console = [], al_msgs = [], al_dropped = False\<rparr>"

definition life_init :: "char list \<Rightarrow> owner_call list \<Rightarrow> life" where
  "life_init junk cs =
     \<lparr>li_log = AsyncLogging_ctor junk, li_latch = latch_init 1, li_owner = OIdle, li_calls = cs,
      li_thread = NoThread, li_alive = True\<rparr>"

text \<open>What \<open>threadFunc\<close> has when it enters its loop: two empty buffers of its own.\<close>

definition thread_locals :: "char list \<Rightarrow> async \<Rightarrow> async" where
  "thread_locals junk L =
     L\<lparr>al_new1 := Some (fb_bzero (new_buffer junk)), al_new2 := Some (fb_bzero (new_buffer junk)), al_pc := ACheck\<rparr>"

text \<open>One turn of \<open>CountDownLatch::wait\<close> by thread \<open>t\<close>; a waiting thread turns only when woken up.\<close>

definition latch_wait :: "nat \<Rightarrow> latch \<Rightarrow> latch" where
  "latch_wait t L =
     (case lt_pc L t of
        LOutside \<Rightarrow> L\<lparr>lt_pc := (lt_pc L)(t := LTesting)\<rparr>
      | LTesting \<Rightarrow> L\<lparr>lt_pc := (lt_pc L)(t := (if 0 < lt_count L then LWaiting else LPassed))\<rparr>
      | _ \<Rightarrow> L)"

text \<open>\<open>stop\<close> up to its \<open>join\<close>, which throws when there is no thread.\<close>

definition begin_stop :: "life \<Rightarrow> life res" where
  "begin_stop S =
     (if li_thread S = NoThread then Inl SystemError
      else Inr (S\<lparr>li_log := async_stop (li_log S), li_owner := OJoining\<rparr>))"

text \<open>A turn of the owner. \<open>start\<close> assigns to \<open>thread_\<close>, and the destructor destroys it: both
  terminate the program when a thread is still joinable.\<close>

definition owner_turn :: "life \<Rightarrow> life res" where
  "owner_turn S =
     (case li_owner S of
        OIdle \<Rightarrow>
          (case li_calls S of
             [] \<Rightarrow> Inr S
           | Start # cs \<Rightarrow>
               if li_thread S \<noteq> NoThread then Inl FatalAbort
               else Inr (S\<lparr>li_log := (li_log S)\<lparr>al_running := True\<rparr>, li_thread := Entering, li_owner := OStarting, li_calls := cs\<rparr>)
           | Stop # cs \<Rightarrow> begin_stop (S\<lparr>li_calls := cs\<rparr>)
           | Destroy # cs \<Rightarrow>
               let S1 = S\<lparr>li_calls := cs, li_alive := False\<rparr> in
               if al_running (li_log S) then begin_stop S1
               else if li_thread S \<noteq> NoThread then Inl FatalAbort
               else Inr S1)
      | OStarting \<Rightarrow>
          if lt_pc (li_latch S) 0 = LPassed
          then Inr (S\<lparr>li_owner := OIdle, li_latch := (li_latch S)\<lparr>lt_pc := (lt_pc (li_latch S))(0 := LOutside)\<rparr>\<rparr>)
          else Inr (S\<lparr>li_latch := latch_wait 0 (li_latch S)\<rparr>)
      | OJoining \<Rightarrow>
          if li_thread S = Working \<and> al_pc (li_log S) = ADone
          then Inr (S\<lparr>li_owner := OIdle, li_thread := NoThread\<rparr>)
          else Inr S)"

definition thread_turn :: "char list \<Rightarrow> life \<Rightarrow> life res" where
  "thread_turn junk S =
     (case li_thread S of
        NoThread \<Rightarrow> Inr S
      | Entering \<Rightarrow>
          bindE (assertE (al_running (li_log S)))
            (\<lambda>_. Inr (S\<lparr>li_log := thread_locals junk (li_log S), li_thread := Announcing\<rparr>))
      | Announcing \<Rightarrow> Inr (S\<lparr>li_latch := countDown (li_latch S), li_thread := Working\<rparr>)
      | Working \<Rightarrow> bindE (writer_turn (li_log S)) (\<lambda>L. Inr (S\<lparr>li_log := L\<rparr>)))"

text \<open>Producers may call \<open>append\<close> until the destructor begins.\<close>

inductive life_step :: "life \<Rightarrow> life res \<Rightarrow> bool" where
  append: "li_alive S \<Longrightarrow> length msg < 2147483648 \<Longrightarrow>
     life_step S (bindE (async_append junk msg (li_log S)) (\<lambda>L. Inr (S\<lparr>li_log := L\<rparr>)))"
| owner: "life_step S (owner_turn S)"
| thread: "life_step S (thread_turn junk S)"

inductive life_reach :: "owner_call list \<Rightarrow> life \<Rightarrow> bool" for cs where
  init: "life_reach cs (life_init junk cs)"
| step: "life_reach cs S \<Longrightarrow> life_step S (Inr S') \<Longrightarrow> life_reach cs S'"

inductive_cases life_stepE: "life_step S r"

text \<open>A step of the owner or of the thread.\<close>

definition life_next :: "life \<Rightarrow> life \<Rightarrow> bool" where
  "life_next S S' \<longleftrightarrow> owner_turn S = Inr S' \<or> (\<exists>junk. thread_turn junk S = Inr S')"

section \<open>Invariant\<close>

text \<open>The calls of an owner who starts the logger at most once, and what is left of them then. An owner may
  leave the logger running, or leave it undestroyed.\<close>

definition proper :: "owner_call list \<Rightarrow> bool" where
  "proper cs \<longleftrightarrow> cs \<in> {[], [Destroy], [Start], [Start, Stop], [Start, Destroy], [Start, Stop, Destroy]}"

definition to_stop :: "owner_call list \<Rightarrow> bool" where
  "to_stop cs \<longleftrightarrow> cs \<in> {[], [Stop], [Destroy], [Stop, Destroy]}"

definition stopped :: "owner_call list \<Rightarrow> bool" where
  "stopped cs \<longleftrightarrow> cs = [Destroy] \<or> cs = []"

definition at_rest :: "life \<Rightarrow> bool" where
  "at_rest S \<longleftrightarrow> li_owner S = OIdle \<and> li_thread S = NoThread \<and> \<not> al_running (li_log S) \<and> lt_pc (li_latch S) 0 = LOutside \<and>
     (proper (li_calls S) \<and> lt_count (li_latch S) = 1 \<or> stopped (li_calls S))"

definition in_start :: "life \<Rightarrow> bool" where
  "in_start S \<longleftrightarrow> li_owner S = OStarting \<and> li_thread S \<noteq> NoThread \<and> al_running (li_log S) \<and> to_stop (li_calls S) \<and>
     lt_count (li_latch S) = (if li_thread S = Working then 0 else 1) \<and>
     (lt_pc (li_latch S) 0 = LPassed \<longrightarrow> li_thread S = Working) \<and>
     (lt_pc (li_latch S) 0 = LWaiting \<longrightarrow> li_thread S \<noteq> Working)"

definition at_work :: "life \<Rightarrow> bool" where
  "at_work S \<longleftrightarrow> li_owner S = OIdle \<and> li_thread S = Working \<and> al_running (li_log S) \<and> to_stop (li_calls S) \<and>
     lt_pc (li_latch S) 0 = LOutside"

definition in_join :: "life \<Rightarrow> bool" where
  "in_join S \<longleftrightarrow> li_owner S = OJoining \<and> li_thread S = Working \<and> \<not> al_running (li_log S) \<and> stopped (li_calls S) \<and>
     lt_pc (li_latch S) 0 = LOutside"

definition phase_ok :: "life \<Rightarrow> bool" where
  "phase_ok S \<longleftrightarrow> at_rest S \<or> in_start S \<or> at_work S \<or> in_join S"

lemmas phases = at_rest_def in_start_def at_work_def in_join_def proper_def to_stop_def stopped_def

text \<open>The buffers are sound, as soon as the thread has its own.\<close>

definition log_ok :: "life \<Rightarrow> bool" where
  "log_ok S \<longleftrightarrow> (if li_thread S = NoThread \<or> li_thread S = Entering
     then al_pc (li_log S) = ADone \<and> (\<forall>junk. async_inv (thread_locals junk (li_log S))) else async_inv (li_log S))"

lemma thread_locals_inv:
  assumes "async_inv L" "in_writing (al_pc L) = []"
  shows "async_inv (thread_locals junk L)"
  using assms new_buffer_ok(2) [of junk]
  by (simp add: async_inv_def buffers_inv_def spares_inv_def content_inv_def thread_locals_def)

lemma ctor_inv: "async_inv (thread_locals junk2 (AsyncLogging_ctor junk))"
  using new_buffer_ok(2) [of junk] new_buffer_ok(2) [of junk2] empty_ok_simps [OF new_buffer_ok(2) [of junk]]
  by (simp add: async_inv_def buffers_inv_def spares_inv_def content_inv_def thread_locals_def AsyncLogging_ctor_def accepted_def)

lemma append_thread_locals:
  "async_append junk msg (thread_locals j L) =
     bindE (async_append junk msg L) (\<lambda>L'. Inr (thread_locals j L'))"
  by (simp add: async_append_def thread_locals_def deref_def Let_def bindE_def assertE_def
      split: option.split sum.split)

lemma append_frame:
  "async_append junk msg L = Inr L' \<Longrightarrow> al_pc L' = al_pc L \<and> al_running L' = al_running L \<and>
     al_msgs L' = al_msgs L @ [msg] \<and> al_dropped L' = al_dropped L \<and> length (al_buffers L') \<le> Suc (length (al_buffers L))"
  by (auto simp: async_append_def deref_def Let_def bindE_def split: option.splits sum.splits if_splits)

lemma log_ok_content:
  assumes "log_ok S"
  shows "content_inv (li_log S)"
proof (cases "li_thread S = NoThread \<or> li_thread S = Entering")
  case True
  then have "al_pc (li_log S) = ADone" "content_inv (thread_locals [] (li_log S))"
    using assms by (auto simp: log_ok_def async_inv_def)
  then show ?thesis by (simp add: content_inv_def thread_locals_def)
next
  case False
  with assms show ?thesis by (simp add: log_ok_def async_inv_def)
qed

lemma append_log_ok:
  assumes "log_ok S" "length msg < 2147483648"
  shows "\<exists>L. async_append junk msg (li_log S) = Inr L \<and> al_running L = al_running (li_log S) \<and> log_ok (S\<lparr>li_log := L\<rparr>)"
proof (cases "li_thread S = NoThread \<or> li_thread S = Entering")
  case True
  have inv: "async_inv (thread_locals j (li_log S))" for j using assms(1) True by (auto simp: log_ok_def)
  obtain L where L: "async_append junk msg (li_log S) = Inr L"
    using async_append_inv [OF inv [of junk] assms(2), of junk]
    by (cases "async_append junk msg (li_log S)") (auto simp: append_thread_locals)
  have "async_inv (thread_locals j L)" for j
    using async_append_inv [OF inv [of j] assms(2), of junk] L by (simp add: append_thread_locals)
  with L True assms(1) append_frame [OF L] show ?thesis by (auto simp: log_ok_def)
next
  case False
  with assms async_append_inv [of "li_log S" msg junk] show ?thesis by (auto simp: log_ok_def)
qed

lemma async_inv_running: "async_inv (L\<lparr>al_running := r\<rparr>) = async_inv L"
  by (simp add: async_inv_def buffers_inv_def spares_inv_def content_inv_def)

lemma async_inv_pc: "in_writing (al_pc L) = [] \<Longrightarrow> \<not> (\<exists>bs. p = AWriting bs) \<Longrightarrow> \<not> (\<exists>bs. al_pc L = AWriting bs) \<Longrightarrow>
   async_inv (L\<lparr>al_pc := p\<rparr>) = async_inv L"
  by (cases p; cases "al_pc L") (auto simp: async_inv_def buffers_inv_def spares_inv_def content_inv_def)

lemma writer_turn_inv:
  assumes "async_inv L"
  shows "\<exists>L'. writer_turn L = Inr L' \<and> async_inv L' \<and> al_running L' = al_running L"
proof (cases "al_pc L")
  case (AWriting bs)
  with async_write_inv [OF assms] show ?thesis by (auto simp: writer_turn_def)
next
  case AWaiting
  with async_collect_inv [OF assms] show ?thesis by (auto simp: writer_turn_def)
qed (use assms in \<open>auto simp: writer_turn_def async_inv_pc\<close>)

lemma begin_stop_ok:
  assumes "li_thread S = Working" "log_ok S"
  shows "\<exists>S'. begin_stop S = Inr S' \<and> S' = S\<lparr>li_log := async_stop (li_log S), li_owner := OJoining\<rparr> \<and> log_ok S'"
  using assms by (simp add: begin_stop_def log_ok_def async_stop_def async_inv_running)

lemma phaseE:
  assumes "phase_ok S"
  obtains "at_rest S" | "in_start S" | "at_work S" | "in_join S"
  using assms by (auto simp: phase_ok_def)

lemma owner_turn_ok:
  assumes "phase_ok S" "log_ok S"
  shows "\<exists>S'. owner_turn S = Inr S' \<and> phase_ok S' \<and> log_ok S'"
  using assms(1)
proof (cases rule: phaseE)
  case 1
  then consider "\<exists>cs. li_calls S = Start # cs \<and> to_stop cs \<and> lt_count (li_latch S) = 1" | "li_calls S = [Destroy]" | "li_calls S = []"
    by (auto simp: phases)
  then show ?thesis
  proof cases
    case 1
    then obtain cs where cs: "li_calls S = Start # cs" "to_stop cs" "lt_count (li_latch S) = 1" by blast
    let ?S = "S\<lparr>li_log := (li_log S)\<lparr>al_running := True\<rparr>, li_thread := Entering, li_owner := OStarting, li_calls := cs\<rparr>"
    have "owner_turn S = Inr ?S" using \<open>at_rest S\<close> cs(1) by (simp add: owner_turn_def at_rest_def)
    moreover have "in_start ?S" using \<open>at_rest S\<close> cs by (simp add: at_rest_def in_start_def)
    moreover have "thread_locals j ((li_log S)\<lparr>al_running := True\<rparr>) = (thread_locals j (li_log S))\<lparr>al_running := True\<rparr>" for j
      by (simp add: thread_locals_def)
    then have "log_ok ?S" using assms(2) \<open>at_rest S\<close> by (simp add: log_ok_def at_rest_def async_inv_running)
    ultimately show ?thesis by (auto simp: phase_ok_def)
  qed (use \<open>at_rest S\<close> assms(2) in \<open>auto simp: owner_turn_def Let_def at_rest_def log_ok_def phase_ok_def stopped_def\<close>)
next
  case 2
  then show ?thesis using assms(2)
    by (cases "lt_pc (li_latch S) 0")
      (auto simp: owner_turn_def in_start_def at_work_def phase_ok_def log_ok_def latch_wait_def)
next
  case 3
  then have "li_thread S = Working" by (simp add: at_work_def)
  with 3 assms(2) show ?thesis
    by (auto simp: owner_turn_def at_work_def to_stop_def begin_stop_def Let_def log_ok_def async_stop_def
        async_inv_running phase_ok_def in_join_def stopped_def)
next
  case 4
  then show ?thesis using assms(2) thread_locals_inv [of "li_log S"]
    by (auto simp: owner_turn_def in_join_def at_rest_def phase_ok_def log_ok_def)
qed

lemma thread_turn_ok:
  assumes "phase_ok S" "log_ok S"
  shows "\<exists>S'. thread_turn junk S = Inr S' \<and> phase_ok S' \<and> log_ok S'"
proof (cases "li_thread S")
  case NoThread
  with assms show ?thesis by (simp add: thread_turn_def)
next
  case Entering
  then have "in_start S" using assms(1) by (auto simp: phase_ok_def phases)
  then show ?thesis using Entering assms(2)
    by (auto simp: thread_turn_def in_start_def phase_ok_def log_ok_def thread_locals_def)
next
  case Announcing
  then have "in_start S" using assms(1) by (auto simp: phase_ok_def phases)
  then show ?thesis using Announcing assms(2)
    by (auto simp: thread_turn_def in_start_def phase_ok_def log_ok_def countDown_def Let_def)
next
  case Working
  then obtain L where L: "writer_turn (li_log S) = Inr L" "async_inv L" "al_running L = al_running (li_log S)"
    using writer_turn_inv assms(2) by (auto simp: log_ok_def)
  then show ?thesis using Working assms
    by (auto simp: thread_turn_def phase_ok_def log_ok_def at_rest_def in_start_def at_work_def in_join_def)
qed

lemma life_step_ok:
  assumes "life_step S r" "phase_ok S" "log_ok S"
  shows "\<exists>S'. r = Inr S' \<and> phase_ok S' \<and> log_ok S'"
  using assms(1)
proof (cases rule: life_step.cases)
  case (append msg junk)
  obtain L where "async_append junk msg (li_log S) = Inr L" "al_running L = al_running (li_log S)" "log_ok (S\<lparr>li_log := L\<rparr>)"
    using append_log_ok [OF assms(3) append(3)] by blast
  with append(1) assms(2) show ?thesis
    by (auto simp: phase_ok_def at_rest_def in_start_def at_work_def in_join_def)
qed (use owner_turn_ok [OF assms(2,3)] thread_turn_ok [OF assms(2,3)] in auto)

lemma life_reach_ok: "life_reach cs S \<Longrightarrow> proper cs \<Longrightarrow> phase_ok S \<and> log_ok S"
proof (induction rule: life_reach.induct)
  case (init junk)
  then show ?case
    using ctor_inv [of _ junk]
    by (simp add: phase_ok_def at_rest_def log_ok_def life_init_def latch_init_def AsyncLogging_ctor_def)
next
  case (step S S')
  then show ?case using life_step_ok by blast
qed

section \<open>Every call returns\<close>

text \<open>From \<open>S\<close> on, the owner and the thread can get to a state with \<open>P\<close>.\<close>

definition leads :: "life \<Rightarrow> (life \<Rightarrow> bool) \<Rightarrow> bool" where
  "leads S P \<longleftrightarrow> (\<exists>S'. life_next\<^sup>*\<^sup>* S S' \<and> P S')"

lemma leads_here: "P S \<Longrightarrow> leads S P"
  by (auto simp: leads_def)

lemma leads_step: "life_next S S1 \<Longrightarrow> leads S1 P \<Longrightarrow> leads S P"
  unfolding leads_def by (meson converse_rtranclp_into_rtranclp)

lemma leads_trans:
  assumes "leads S P" "\<And>S1. P S1 \<Longrightarrow> leads S1 Q"
  shows "leads S Q"
  using assms unfolding leads_def by (meson rtranclp_trans)

text \<open>Steps that make a measure smaller lead to where it is zero.\<close>

lemma leads_rank:
  fixes rank :: "life \<Rightarrow> nat"
  assumes "I S" "\<And>S. I S \<Longrightarrow> rank S \<noteq> 0 \<Longrightarrow> \<exists>S1. life_next S S1 \<and> I S1 \<and> rank S1 < rank S"
  shows "leads S (\<lambda>S'. I S' \<and> rank S' = 0)"
  using assms(1)
proof (induction S rule: measure_induct_rule [of rank])
  case (less S)
  show ?case
  proof (cases "rank S = 0")
    case True
    with less.prems show ?thesis by (intro leads_here) simp
  next
    case False
    with assms(2) [OF less.prems] less.IH show ?thesis by (blast intro: leads_step)
  qed
qed

text \<open>How far the thread's loop is from ending, and how far \<open>start\<close> is from returning.\<close>

fun loop_rank :: "async_pc \<Rightarrow> nat" where
  "loop_rank AWaiting = 3"
| "loop_rank (AWriting bs) = 2"
| "loop_rank ACheck = 1"
| "loop_rank ADone = 0"

fun entry_rank :: "thread_pc \<Rightarrow> nat" where
  "entry_rank Entering = 2"
| "entry_rank Announcing = 1"
| "entry_rank _ = 0"

fun wait_rank :: "latch_pc \<Rightarrow> nat" where
  "wait_rank LOutside = 2"
| "wait_rank LTesting = 1"
| "wait_rank _ = 0"

definition returned :: "life \<Rightarrow> bool" where
  "returned S \<longleftrightarrow> li_calls S = [] \<and> li_owner S = OIdle"

lemma writer_rank:
  assumes "async_inv L" "\<not> al_running L" "al_pc L \<noteq> ADone"
  shows "\<exists>L'. writer_turn L = Inr L' \<and> async_inv L' \<and> \<not> al_running L' \<and> loop_rank (al_pc L') < loop_rank (al_pc L)"
proof (cases "al_pc L")
  case (AWriting bs)
  with async_write_inv [OF assms(1)] assms(2) show ?thesis by (auto simp: writer_turn_def)
next
  case AWaiting
  with async_collect_inv [OF assms(1)] assms(2) show ?thesis by (auto simp: writer_turn_def)
qed (use assms in \<open>auto simp: writer_turn_def async_inv_pc\<close>)

lemma join_leads:
  assumes "in_join S" "log_ok S"
  shows "leads S (\<lambda>S'. at_rest S' \<and> stopped (li_calls S') \<and> log_ok S')"
proof -
  let ?I = "\<lambda>S. in_join S \<and> log_ok S" let ?rank = "\<lambda>S. loop_rank (al_pc (li_log S))"
  have "\<exists>S1. life_next S S1 \<and> ?I S1 \<and> ?rank S1 < ?rank S" if S: "?I S" and r: "?rank S \<noteq> 0" for S
  proof -
    have L: "async_inv (li_log S)" "\<not> al_running (li_log S)" "li_thread S = Working"
      using S by (auto simp: in_join_def log_ok_def)
    have "al_pc (li_log S) \<noteq> ADone" using r by auto
    from writer_rank [OF L(1,2) this] obtain L' where L': "writer_turn (li_log S) = Inr L'" "async_inv L'"
      "\<not> al_running L'" "loop_rank (al_pc L') < ?rank S" by blast
    have "thread_turn [] S = Inr (S\<lparr>li_log := L'\<rparr>)" using L(3) L'(1) by (simp add: thread_turn_def)
    then have "life_next S (S\<lparr>li_log := L'\<rparr>)" by (auto simp: life_next_def)
    moreover have "?I (S\<lparr>li_log := L'\<rparr>)" using S L' by (simp add: in_join_def log_ok_def)
    ultimately show ?thesis using L'(4) by auto
  qed
  with leads_rank [of ?I S ?rank] assms have "leads S (\<lambda>S'. ?I S' \<and> ?rank S' = 0)" by blast
  then show ?thesis
  proof (rule leads_trans)
    fix S1 assume S1: "?I S1 \<and> ?rank S1 = 0"
    then have "al_pc (li_log S1) = ADone" by (cases "al_pc (li_log S1)") auto
    with S1 have "owner_turn S1 = Inr (S1\<lparr>li_owner := OIdle, li_thread := NoThread\<rparr>)"
      by (simp add: owner_turn_def in_join_def)
    then have n: "life_next S1 (S1\<lparr>li_owner := OIdle, li_thread := NoThread\<rparr>)" by (simp add: life_next_def)
    have "at_rest (S1\<lparr>li_owner := OIdle, li_thread := NoThread\<rparr>)" "log_ok (S1\<lparr>li_owner := OIdle, li_thread := NoThread\<rparr>)"
      using S1 \<open>al_pc (li_log S1) = ADone\<close> thread_locals_inv [of "li_log S1"]
      by (auto simp: in_join_def at_rest_def log_ok_def)
    with S1 show "leads S1 (\<lambda>S'. at_rest S' \<and> stopped (li_calls S') \<and> log_ok S')"
      by (intro leads_step [OF n] leads_here) (simp add: in_join_def)
  qed
qed

lemma rest_returns:
  assumes "at_rest S" "stopped (li_calls S)"
  shows "leads S returned"
proof (cases "li_calls S = []")
  case True
  with assms show ?thesis by (intro leads_here) (simp add: returned_def at_rest_def)
next
  case False
  then have "li_calls S = [Destroy]" using assms(2) by (simp add: stopped_def)
  with assms have "life_next S (S\<lparr>li_calls := [], li_alive := False\<rparr>)"
    by (simp add: life_next_def owner_turn_def at_rest_def Let_def)
  with assms show ?thesis by (intro leads_step [OF _ leads_here]) (auto simp: returned_def at_rest_def)
qed

lemma join_returns: "in_join S \<Longrightarrow> log_ok S \<Longrightarrow> leads S returned"
  by (rule leads_trans [OF join_leads]) (auto intro: rest_returns)

lemma work_returns:
  assumes "at_work S" "log_ok S"
  shows "leads S returned"
proof (cases "li_calls S = []")
  case True
  with assms(1) show ?thesis by (intro leads_here) (simp add: at_work_def returned_def)
next
  case False
  then obtain S1 where S1: "owner_turn S = Inr S1" "in_join S1"
    using assms(1) by (auto simp: at_work_def to_stop_def owner_turn_def begin_stop_def Let_def async_stop_def in_join_def stopped_def)
  have "phase_ok S" using assms(1) by (simp add: phase_ok_def)
  with owner_turn_ok [OF _ assms(2)] S1(1) have "log_ok S1" by auto
  with S1 show ?thesis by (intro leads_step [OF _ join_returns [of S1]]) (simp_all add: life_next_def)
qed

lemma start_rank:
  assumes "in_start S" "log_ok S" "3 * entry_rank (li_thread S) + wait_rank (lt_pc (li_latch S) 0) \<noteq> 0"
  shows "\<exists>S1. life_next S S1 \<and> (in_start S1 \<and> log_ok S1) \<and>
    3 * entry_rank (li_thread S1) + wait_rank (lt_pc (li_latch S1) 0) <
    3 * entry_rank (li_thread S) + wait_rank (lt_pc (li_latch S) 0)"
proof -
  have ph: "phase_ok S" using assms(1) by (simp add: phase_ok_def)
  show ?thesis
  proof (cases "li_thread S = Working")
    case True
    then have "owner_turn S = Inr (S\<lparr>li_latch := latch_wait 0 (li_latch S)\<rparr>)"
      using assms(1,3) by (cases "lt_pc (li_latch S) 0") (simp_all add: owner_turn_def in_start_def)
    then have n: "life_next S (S\<lparr>li_latch := latch_wait 0 (li_latch S)\<rparr>)" by (simp add: life_next_def)
    show ?thesis
      using True assms by (intro exI [of _ "S\<lparr>li_latch := latch_wait 0 (li_latch S)\<rparr>"] conjI n; cases "lt_pc (li_latch S) 0")
        (auto simp: in_start_def log_ok_def latch_wait_def)
  next
    case False
    obtain S1 where S1: "thread_turn [] S = Inr S1" "log_ok S1"
      using thread_turn_ok [OF ph assms(2)] by blast
    have n: "life_next S S1" using S1(1) by (auto simp: life_next_def)
    show ?thesis
    proof (cases "li_thread S")
      case Entering
      with S1(1) assms(1) have "S1 = S\<lparr>li_log := thread_locals [] (li_log S), li_thread := Announcing\<rparr>"
        by (simp add: thread_turn_def in_start_def)
      with n S1(2) Entering assms(1) show ?thesis by (auto simp: in_start_def thread_locals_def)
    next
      case Announcing
      with S1(1) have e: "S1 = S\<lparr>li_latch := countDown (li_latch S), li_thread := Working\<rparr>"
        by (simp add: thread_turn_def)
      have "in_start S1" "wait_rank (lt_pc (li_latch S1) 0) < 3 + wait_rank (lt_pc (li_latch S) 0)"
        using assms(1) Announcing unfolding e by (auto simp: in_start_def countDown_def Let_def)
      with n S1(2) Announcing e show ?thesis by auto
    qed (use False assms(1) in \<open>auto simp: in_start_def\<close>)
  qed
qed

lemma start_returns_life:
  assumes "in_start S" "log_ok S"
  shows "leads S returned"
proof -
  have "leads S (\<lambda>S'. (in_start S' \<and> log_ok S') \<and> 3 * entry_rank (li_thread S') + wait_rank (lt_pc (li_latch S') 0) = 0)"
    by (rule leads_rank) (use assms start_rank in auto)
  then show ?thesis
  proof (rule leads_trans)
    fix S1 assume S1: "(in_start S1 \<and> log_ok S1) \<and> 3 * entry_rank (li_thread S1) + wait_rank (lt_pc (li_latch S1) 0) = 0"
    then have "li_thread S1 = Working" by (cases "li_thread S1") (auto simp: in_start_def)
    moreover from this S1 have "lt_pc (li_latch S1) 0 = LPassed"
      by (cases "lt_pc (li_latch S1) 0") (auto simp: in_start_def)
    ultimately obtain S2 where S2: "owner_turn S1 = Inr S2" "at_work S2" "log_ok S2"
      using S1 by (auto simp: owner_turn_def in_start_def at_work_def log_ok_def)
    then have "life_next S1 S2" by (simp add: life_next_def)
    from leads_step [OF this work_returns [OF S2(2,3)]] show "leads S1 returned" .
  qed
qed

lemma life_returns:
  assumes "phase_ok S" "log_ok S"
  shows "leads S returned"
  using assms(1)
proof (cases rule: phaseE)
  case 1
  show ?thesis
  proof (cases "stopped (li_calls S)")
    case True
    with 1 show ?thesis by (rule rest_returns)
  next
    case False
    obtain S1 where S1: "owner_turn S = Inr S1" "in_start S1"
      using 1 False by (auto simp: at_rest_def proper_def stopped_def to_stop_def owner_turn_def in_start_def)
    with owner_turn_ok [OF assms] have "log_ok S1" by auto
    with S1 show ?thesis by (intro leads_step [OF _ start_returns_life [of S1]]) (simp_all add: life_next_def)
  qed
qed (use assms(2) start_returns_life work_returns join_returns in auto)

section \<open>Properties\<close>

text \<open>
  C12. The life of the logger. Its owner starts it, stops it and destroys it, or leaves out some of
  that, while other threads append from the first moment on: in every interleaving no step
  fails (no assert of the thread, among them that it finds \<open>running_\<close> set, no null buffer, no access
  out of a buffer, no thread still joinable); the owner and the thread can always get to where all calls
  have returned; the owner sleeps in the latch only while the thread has still to count down; and
  unless buffers have been thrown away, what has been written, is being written and is held are together the
  messages in order, those from before \<open>start\<close> included. Once the thread has been joined nothing is being
  written: what is held then is what \<open>stop\<close> loses (\<open>stop_loses_tail\<close>).
\<close>

theorem logger_life:
  assumes "proper cs" "life_reach cs S"
  shows "(\<forall>r. life_step S r \<longrightarrow> (\<exists>S'. r = Inr S')) \<and>
    (\<exists>S'. life_next\<^sup>*\<^sup>* S S' \<and> returned S') \<and>
    (lt_pc (li_latch S) 0 = LWaiting \<longrightarrow> 0 < lt_count (li_latch S)) \<and>
    (li_thread S = NoThread \<longrightarrow> in_writing (al_pc (li_log S)) = []) \<and>
    (let L = li_log S in \<not> al_dropped L \<longrightarrow> concat (al_out L) @ texts (in_writing (al_pc L)) @ texts (al_buffers L) @
       current_text (al_current L) = accepted (al_msgs L))"
proof -
  have ok: "phase_ok S" "log_ok S" using life_reach_ok [OF assms(2,1)] by auto
  have "\<exists>S'. life_next\<^sup>*\<^sup>* S S' \<and> returned S'" using life_returns [OF ok] by (simp add: leads_def)
  moreover have "lt_pc (li_latch S) 0 = LWaiting \<longrightarrow> 0 < lt_count (li_latch S)"
    using ok(1) by (auto simp: phase_ok_def phases split: if_splits)
  moreover have "li_thread S = NoThread \<longrightarrow> in_writing (al_pc (li_log S)) = []" using ok(2) by (auto simp: log_ok_def)
  moreover have "content_inv (li_log S)" using ok(2) by (rule log_ok_content)
  ultimately show ?thesis using life_step_ok [OF _ ok] by (auto simp: content_inv_def Let_def)
qed

text \<open>A message appended before \<open>start\<close>.\<close>

theorem logger_life_witness:
  "\<exists>L. async_append [] ''early'' (AsyncLogging_ctor []) = Inr L \<and>
     (\<exists>S'. life_next\<^sup>*\<^sup>* ((life_init [] [Start, Stop, Destroy])\<lparr>li_log := L\<rparr>) S' \<and> returned S') \<and>
     concat (al_out L) @ texts (in_writing (al_pc L)) @ texts (al_buffers L) @ current_text (al_current L) = ''early''"
proof -
  let ?I = "life_init [] [Start, Stop, Destroy]"
  have p: "proper [Start, Stop, Destroy]" by (simp add: proper_def)
  have log: "li_log ?I = AsyncLogging_ctor []" by (simp add: life_init_def)
  have i: "life_reach [Start, Stop, Destroy] ?I" by (rule life_reach.init)
  obtain L where L: "async_append [] ''early'' (AsyncLogging_ctor []) = Inr L"
    using append_log_ok [of ?I "''early''" "[]"] life_reach_ok [OF i p] log by auto
  have "life_step ?I (Inr (?I\<lparr>li_log := L\<rparr>))"
    using life_step.append [of ?I "''early''" "[]"] L log by (simp add: life_init_def)
  with i have r: "life_reach [Start, Stop, Destroy] (?I\<lparr>li_log := L\<rparr>)" by (rule life_reach.step)
  have "al_msgs L = [''early''] \<and> \<not> al_dropped L"
    using L by (auto simp: async_append_def AsyncLogging_ctor_def deref_def Let_def bindE_def split: sum.splits if_splits)
  moreover have "accepted [''early''] = ''early''" by (simp add: accepted_def kLargeBuffer_def)
  ultimately show ?thesis using logger_life [OF p r] L by (auto simp: Let_def)
qed

text \<open>Runs in a given order: True is a turn of the owner, False one of the thread.\<close>

fun turns :: "bool list \<Rightarrow> life \<Rightarrow> life res" where
  "turns [] S = Inr S"
| "turns (b # bs) S = bindE (if b then owner_turn S else thread_turn [] S) (turns bs)"

lemma turns_reach: "turns bs S = Inr S' \<Longrightarrow> life_reach cs S \<Longrightarrow> life_reach cs S'"
proof (induction bs arbitrary: S)
  case (Cons b bs)
  then obtain S1 where S1: "(if b then owner_turn S else thread_turn [] S) = Inr S1" "turns bs S1 = Inr S'"
    by auto
  then have "life_step S (Inr S1)" by (cases b) (auto intro: life_step.intros simp flip: S1(1))
  with Cons S1(2) show ?case by (blast intro: life_reach.step)
qed simp

text \<open>
  A logger cannot be started again. The latch counts down once, so that the second \<open>start\<close> does not wait
  for its thread; \<open>stop\<close> right behind it clears \<open>running_\<close>, and the assert at the beginning
  of \<open>threadFunc\<close> fails.
\<close>

theorem restart_fails:
  "\<exists>S. life_reach [Start, Stop, Start, Stop] S \<and> life_step S (Inl AssertFailed)"
proof -
  let ?run = "[True, False, False, True, True, True, True, False, True, True, True, True, True, True]"
  have "\<exists>S. turns ?run (life_init [] [Start, Stop, Start, Stop]) = Inr S \<and> thread_turn [] S = Inl AssertFailed"
    by (simp add: owner_turn_def thread_turn_def life_init_def latch_init_def begin_stop_def async_stop_def writer_turn_def
        latch_wait_def countDown_def thread_locals_def AsyncLogging_ctor_def Let_def)
  then obtain S where S: "turns ?run (life_init [] [Start, Stop, Start, Stop]) = Inr S" "thread_turn [] S = Inl AssertFailed"
    by blast
  have "life_reach [Start, Stop, Start, Stop] S" by (rule turns_reach [OF S(1) life_reach.init])
  moreover have "life_step S (Inl AssertFailed)" using life_step.thread [of S "[]"] S(2) by simp
  ultimately show ?thesis by blast
qed

end
