(* ===== verification/Logger.thy ===== *)
theory Logger
  imports LogStream
begin

text \<open>
  The front end of the log (src/base/logger.h, src/base/logger.cpp): source file names, levels, the
  \<open>Logger\<close> object that formats one line in its constructor and gives it to the output
  function in its destructor, and the macros that make one. The text of the
  current time is an argument, None when \<open>localtime_r\<close> fails.
\<close>

section \<open>Source files\<close>

definition strrchr :: "char list \<Rightarrow> char \<Rightarrow> nat option" where
  "strrchr s c = map_option (\<lambda>i. length s - 1 - i) (memchr (rev s) c)"

record source_file =
  sf_data :: "char list"
  sf_size :: int

text \<open>The constructor for a literal, of known length, and the one for a pointer.\<close>

definition SourceFile_literal :: "char list \<Rightarrow> source_file" where
  "SourceFile_literal arr =
     (let slash = (case strrchr arr (CHR ''/'') of None \<Rightarrow> strrchr arr (CHR 0x5C) | Some i \<Rightarrow> Some i)
      in case slash of
           None \<Rightarrow> \<lparr>sf_data = arr, sf_size = int (length arr)\<rparr>
         | Some i \<Rightarrow> \<lparr>sf_data = drop (Suc i) arr, sf_size = int (length arr) - int (Suc i)\<rparr>)"

definition SourceFile_pointer :: "char list \<Rightarrow> source_file" where
  "SourceFile_pointer filename =
     (let slash = (case strrchr filename (CHR ''/'') of None \<Rightarrow> strrchr filename (CHR 0x5C) | Some i \<Rightarrow> Some i);
          data = (case slash of None \<Rightarrow> filename | Some i \<Rightarrow> drop (Suc i) filename)
      in \<lparr>sf_data = data, sf_size = int (length data)\<rparr>)"

section \<open>Levels\<close>

datatype log_level = E_TRACE | E_DEBUG | E_INFO | E_WARN | E_ERROR | E_FATAL

fun level_num :: "log_level \<Rightarrow> nat" where
  "level_num E_TRACE = 0"
| "level_num E_DEBUG = 1"
| "level_num E_INFO = 2"
| "level_num E_WARN = 3"
| "level_num E_ERROR = 4"
| "level_num E_FATAL = 5"

lemma level_num_inj: "level_num a = level_num b \<Longrightarrow> a = b"
  by (cases a; cases b) auto

instantiation log_level :: linorder
begin

definition less_eq_log_level :: "log_level \<Rightarrow> log_level \<Rightarrow> bool" where
  "less_eq_log_level a b \<longleftrightarrow> level_num a \<le> level_num b"

definition less_log_level :: "log_level \<Rightarrow> log_level \<Rightarrow> bool" where
  "less_log_level a b \<longleftrightarrow> level_num a < level_num b"

instance
  by standard (auto simp: less_eq_log_level_def less_log_level_def intro: level_num_inj)

end

fun LogLevelName :: "log_level \<Rightarrow> char list" where
  "LogLevelName E_TRACE = ''TRACE''"
| "LogLevelName E_DEBUG = ''DEBUG''"
| "LogLevelName E_INFO = ''INFO ''"
| "LogLevelName E_WARN = ''WARN ''"
| "LogLevelName E_ERROR = ''ERROR''"
| "LogLevelName E_FATAL = ''FATAL''"

section \<open>The logger\<close>

text \<open>The global level, the output function (a number) and what output functions were given.\<close>

record logging =
  g_logLevel :: log_level
  g_output :: nat
  g_lines :: "(nat \<times> char list) list"

record logger =
  lg_stream :: fixed_buffer
  lg_level :: log_level

definition setLogLevel :: "log_level \<Rightarrow> logging \<Rightarrow> logging" where
  "setLogLevel l G = G\<lparr>g_logLevel := l\<rparr>"

definition logLevel :: "logging \<Rightarrow> log_level" where
  [simp]: "logLevel G = g_logLevel G"

definition setOutput :: "nat \<Rightarrow> logging \<Rightarrow> logging" where
  "setOutput f G = G\<lparr>g_output := f\<rparr>"

definition formatTime :: "char list option \<Rightarrow> fixed_buffer \<Rightarrow> fixed_buffer res" where
  "formatTime time b = (case time of None \<Rightarrow> Inr b | Some t \<Rightarrow> log_put (LCStr (Some t)) b)"

definition Impl_ctor ::
  "char list \<Rightarrow> char list option \<Rightarrow> log_level \<Rightarrow> source_file \<Rightarrow> int \<Rightarrow> logger res" where
  "Impl_ctor junk time level file line =
     bindE (formatTime time (FixedBuffer_ctor junk)) (\<lambda>b.
     bindE (log_puts [LChar CHR ''|'', LCStr (Some (LogLevelName level)), LCStr (Some ''|''),
              LString (take (nat (sf_size file)) (sf_data file)), LChar CHR '':'', LInt line, LChar CHR '' ''] b)
       (\<lambda>b1. Inr \<lparr>lg_stream = b1, lg_level = level\<rparr>))"

definition Logger_func_ctor ::
  "char list \<Rightarrow> char list option \<Rightarrow> log_level \<Rightarrow> source_file \<Rightarrow> int \<Rightarrow> char list \<Rightarrow> logger res" where
  "Logger_func_ctor junk time level file line func =
     bindE (Impl_ctor junk time level file line) (\<lambda>lg.
     bindE (log_puts [LCStr (Some func), LChar CHR '' ''] (lg_stream lg)) (\<lambda>b. Inr (lg\<lparr>lg_stream := b\<rparr>)))"

definition Impl_finish :: "logger \<Rightarrow> logger res" where
  [simp]: "Impl_finish lg = bindE (log_put (LChar CHR 0x0A) (lg_stream lg)) (\<lambda>b. Inr (lg\<lparr>lg_stream := b\<rparr>))"

text \<open>The destructor: the line goes out, and with \<open>E_FATAL\<close> the program ends.\<close>

definition Logger_dtor :: "logger \<Rightarrow> logging \<Rightarrow> logging res" where
  "Logger_dtor lg G =
     bindE (Impl_finish lg) (\<lambda>lg1.
       let buf = lg_stream lg1 in
       Inr (G\<lparr>g_lines := g_lines G @ [(g_output G, take (nat (fb_length buf)) (fb_data buf))]\<rparr>))"

text \<open>The macros. The second component of the result says whether \<open>abort\<close> is called behind the output.\<close>

datatype log_macro = LOG_TRACE | LOG_DEBUG | LOG_INFO | LOG_WARN | LOG_ERROR | LOG_FATAL

definition log_line ::
  "logger res \<Rightarrow> log_arg list \<Rightarrow> logging \<Rightarrow> (logging \<times> bool) res" where
  "log_line mk args G =
     bindE mk (\<lambda>lg. bindE (log_puts args (lg_stream lg)) (\<lambda>b.
     bindE (Logger_dtor (lg\<lparr>lg_stream := b\<rparr>) G) (\<lambda>G1. Inr (G1, lg_level lg = E_FATAL))))"

fun log_statement ::
  "log_macro \<Rightarrow> char list \<Rightarrow> char list option \<Rightarrow> char list \<Rightarrow> int \<Rightarrow> char list \<Rightarrow> log_arg list \<Rightarrow>
   logging \<Rightarrow> (logging \<times> bool) res" where
  "log_statement LOG_TRACE junk time path line func args G =
     (if logLevel G \<le> E_TRACE
      then log_line (Logger_func_ctor junk time E_TRACE (SourceFile_literal path) line func) args G
      else Inr (G, False))"
| "log_statement LOG_DEBUG junk time path line func args G =
     (if logLevel G \<le> E_DEBUG
      then log_line (Logger_func_ctor junk time E_DEBUG (SourceFile_literal path) line func) args G
      else Inr (G, False))"
| "log_statement LOG_INFO junk time path line func args G =
     (if logLevel G \<le> E_INFO
      then log_line (Impl_ctor junk time E_INFO (SourceFile_literal path) line) args G
      else Inr (G, False))"
| "log_statement LOG_WARN junk time path line func args G =
     log_line (Impl_ctor junk time E_WARN (SourceFile_literal path) line) args G"
| "log_statement LOG_ERROR junk time path line func args G =
     log_line (Impl_ctor junk time E_ERROR (SourceFile_literal path) line) args G"
| "log_statement LOG_FATAL junk time path line func args G =
     log_line (Impl_ctor junk time E_FATAL (SourceFile_literal path) line) args G"

section \<open>Names of source files\<close>

lemma memchr_split:
  "memchr xs c = Some i \<Longrightarrow> xs = take i xs @ c # drop (Suc i) xs"
  by (metis memchr_SomeD id_take_nth_drop)

lemma strrchr_Some:
  assumes "strrchr s c = Some i"
  shows "i < length s \<and> s = take i s @ c # drop (Suc i) s \<and> c \<notin> set (drop (Suc i) s)"
proof -
  obtain j where j: "memchr (rev s) c = Some j" "i = length s - 1 - j"
    using assms by (auto simp: strrchr_def)
  from memchr_SomeD [OF j(1)] have l: "j < length s" "rev s ! j = c" "c \<notin> set (take j (rev s))" by auto
  have i: "i < length s" "s ! i = c" using l j(2) by (auto simp: rev_nth)
  have "drop (Suc i) s = rev (take j (rev s))" using l(1) j(2) by (simp add: take_rev Suc_diff_Suc)
  then have "c \<notin> set (drop (Suc i) s)" using l(3) by simp
  with i show ?thesis using id_take_nth_drop [OF i(1)] by simp
qed

lemma strrchr_None: "strrchr s c = None \<longleftrightarrow> c \<notin> set s"
  by (simp add: strrchr_def memchr_None)

text \<open>
  \<open>SourceFile\<close> keeps the base name, whichever constructor is used: the part of the path behind
  its last slash, or without a slash behind its last backslash, or all of it; its size
  is its length.
\<close>

theorem source_file_basename:
  "SourceFile_literal p = SourceFile_pointer p \<and>
   sf_size (SourceFile_literal p) = int (length (sf_data (SourceFile_literal p))) \<and>
   (\<exists>dir. p = dir @ sf_data (SourceFile_literal p) \<and>
      (if CHR ''/'' \<in> set p then dir \<noteq> [] \<and> last dir = CHR ''/'' \<and> CHR ''/'' \<notin> set (sf_data (SourceFile_literal p))
       else if CHR 0x5C \<in> set p then dir \<noteq> [] \<and> last dir = CHR 0x5C \<and> CHR 0x5C \<notin> set (sf_data (SourceFile_literal p))
       else dir = []))"
proof -
  have split: "\<exists>dir. p = dir @ drop (Suc i) p \<and> dir \<noteq> [] \<and> last dir = c \<and> c \<notin> set (drop (Suc i) p) \<and> c \<in> set p \<and> i < length p"
    if "strrchr p c = Some i" for c i
  proof (intro exI conjI)
    note s = strrchr_Some [OF that]
    show "p = (take i p @ [c]) @ drop (Suc i) p" using s by simp
    show "c \<in> set p" using s by (metis in_set_conv_decomp)
  qed (use strrchr_Some [OF that] in auto)
  show ?thesis
  proof (cases "strrchr p (CHR ''/'')")
    case (Some i)
    from split [OF this] Some show ?thesis
      by (auto simp: SourceFile_literal_def SourceFile_pointer_def Let_def)
  next
    case None
    then have ns: "CHR ''/'' \<notin> set p" by (simp add: strrchr_None)
    show ?thesis
    proof (cases "strrchr p (CHR 0x5C)")
      case (Some i)
      from split [OF this] Some None ns show ?thesis
        by (auto simp: SourceFile_literal_def SourceFile_pointer_def Let_def)
    next
      case none: None
      then have "CHR 0x5C \<notin> set p" by (simp add: strrchr_None)
      then show ?thesis using None none ns
        by (simp add: SourceFile_literal_def SourceFile_pointer_def)
    qed
  qed
qed

section \<open>Lines\<close>

fun macro_level :: "log_macro \<Rightarrow> log_level" where
  "macro_level LOG_TRACE = E_TRACE"
| "macro_level LOG_DEBUG = E_DEBUG"
| "macro_level LOG_INFO = E_INFO"
| "macro_level LOG_WARN = E_WARN"
| "macro_level LOG_ERROR = E_ERROR"
| "macro_level LOG_FATAL = E_FATAL"

text \<open>Everything a statement puts on its stream, the newline of the destructor included.\<close>

definition line_args ::
  "log_macro \<Rightarrow> char list option \<Rightarrow> char list \<Rightarrow> int \<Rightarrow> char list \<Rightarrow> log_arg list \<Rightarrow> log_arg list" where
  "line_args m time path line func args =
     (case time of None \<Rightarrow> [] | Some t \<Rightarrow> [LCStr (Some t)]) @
     [LChar CHR ''|'', LCStr (Some (LogLevelName (macro_level m))), LCStr (Some ''|''),
      LString (sf_data (SourceFile_pointer path)), LChar CHR '':'', LInt line, LChar CHR '' ''] @
     (if macro_level m \<le> E_DEBUG then [LCStr (Some func), LChar CHR '' ''] else []) @
     args @ [LChar CHR 0x0A]"

lemma log_puts_append: "log_puts (as @ bs) b = bindE (log_puts as b) (log_puts bs)"
proof (induction as arbitrary: b)
  case (Cons a as)
  then show ?case by (cases "log_put a b") simp_all
qed simp

lemma log_puts_one: "log_puts [a] b = log_put a b"
  by (cases "log_put a b") simp_all

lemma literal_eq: "sf_data (SourceFile_literal p) = sf_data (SourceFile_pointer p)"
  by (simp add: SourceFile_literal_def SourceFile_pointer_def Let_def split: option.splits)

lemma literal_size: "take (nat (sf_size (SourceFile_literal p))) (sf_data (SourceFile_literal p)) =
    sf_data (SourceFile_pointer p)"
  by (auto simp: SourceFile_literal_def SourceFile_pointer_def Let_def split: option.splits)

definition emit :: "fixed_buffer \<Rightarrow> logging \<Rightarrow> logging" where
  "emit b G = G\<lparr>g_lines := g_lines G @ [(g_output G, take (nat (fb_length b)) (fb_data b))]\<rparr>"

definition header_args :: "char list option \<Rightarrow> log_level \<Rightarrow> char list \<Rightarrow> int \<Rightarrow> log_arg list" where
  "header_args time level path line =
     (case time of None \<Rightarrow> [] | Some t \<Rightarrow> [LCStr (Some t)]) @
     [LChar CHR ''|'', LCStr (Some (LogLevelName level)), LCStr (Some ''|''),
      LString (sf_data (SourceFile_pointer path)), LChar CHR '':'', LInt line, LChar CHR '' '']"

lemma formatTime_puts: "formatTime time b = log_puts (case time of None \<Rightarrow> [] | Some t \<Rightarrow> [LCStr (Some t)]) b"
  by (simp add: formatTime_def log_puts_one split: option.split del: log_puts.simps(2) log_put.simps)

lemma Impl_ctor_puts:
  "Impl_ctor junk time level (SourceFile_literal path) line =
     bindE (log_puts (header_args time level path line) (FixedBuffer_ctor junk))
       (\<lambda>b. Inr \<lparr>lg_stream = b, lg_level = level\<rparr>)"
  unfolding Impl_ctor_def formatTime_puts literal_size header_args_def log_puts_append bindE_assoc ..

lemma Logger_func_ctor_puts:
  "Logger_func_ctor junk time level (SourceFile_literal path) line func =
     bindE (log_puts (header_args time level path line @ [LCStr (Some func), LChar CHR '' '']) (FixedBuffer_ctor junk))
       (\<lambda>b. Inr \<lparr>lg_stream = b, lg_level = level\<rparr>)"
  unfolding Logger_func_ctor_def Impl_ctor_puts log_puts_append bindE_assoc
  by (rule arg_cong2 [where f = bindE]) (simp_all del: log_puts.simps)

lemma log_line_puts:
  "log_line (bindE (log_puts hs b0) (\<lambda>b. Inr \<lparr>lg_stream = b, lg_level = level\<rparr>)) args G =
     bindE (log_puts (hs @ args @ [LChar CHR 0x0A]) b0) (\<lambda>b. Inr (emit b G, level = E_FATAL))"
  unfolding log_line_def Logger_dtor_def emit_def log_puts_append bindE_assoc log_puts_one
  by (simp del: log_put.simps add: bindE_assoc)

definition statement_on :: "log_macro \<Rightarrow> logging \<Rightarrow> bool" where
  "statement_on m G \<longleftrightarrow> m \<in> {LOG_WARN, LOG_ERROR, LOG_FATAL} \<or> g_logLevel G \<le> macro_level m"

lemma log_statement_puts:
  "log_statement m junk time path line func args G =
     (if statement_on m G
      then bindE (log_puts (line_args m time path line func args) (FixedBuffer_ctor junk))
             (\<lambda>b. Inr (emit b G, m = LOG_FATAL))
      else Inr (G, False))"
  by (cases m)
    (simp_all only: log_statement.simps statement_on_def macro_level.simps line_args_def
      Impl_ctor_puts Logger_func_ctor_puts log_line_puts header_args_def append_assoc less_eq_log_level_def
      level_num.simps log_macro.simps log_level.simps if_True if_False insert_iff empty_iff append_Nil append_Cons,
      simp_all del: log_puts.simps)

lemma log_room_text: "log_arg_ok a \<Longrightarrow> int (length (log_text a)) < log_room a"
proof (cases a)
  case (LInt v)
  moreover assume "log_arg_ok a"
  ultimately show ?thesis using convert_length [of v] by (simp add: convert_decimal)
next
  case (LPtr p)
  then show ?thesis using convertHex_length [of p] by simp
qed auto

lemma log_spec_length:
  "\<forall>a\<in>set as. log_arg_ok a \<Longrightarrow> 0 < avail \<Longrightarrow> int (length (log_spec avail as)) < avail"
proof (induction as arbitrary: avail)
  case (Cons a as)
  show ?case
  proof (cases "log_room a \<le> avail")
    case True
    then have "0 < avail - int (length (log_text a))" using log_room_text [of a] Cons.prems(1) by simp
    from Cons.IH [OF _ this] Cons.prems(1) True show ?thesis by simp
  next
    case False
    then show ?thesis using Cons.IH [of avail] Cons.prems by simp
  qed
qed simp

definition texts_length :: "log_arg list \<Rightarrow> nat" where
  "texts_length as = length (concat (map log_text as))"

lemma log_room_le: "log_room a \<le> int (length (log_text a)) + 32"
  by (cases a) auto

lemma log_spec_fits:
  "int (texts_length as) + 32 \<le> avail \<Longrightarrow> log_spec avail as = concat (map log_text as)"
proof (induction as arbitrary: avail)
  case (Cons a as)
  then have "log_room a \<le> avail" using log_room_le [of a] by (simp add: texts_length_def)
  moreover have "log_spec (avail - int (length (log_text a))) as = concat (map log_text as)"
    using Cons by (intro Cons.IH) (simp add: texts_length_def)
  ultimately show ?case by simp
qed simp

text \<open>Arguments a statement can have: an \<open>int\<close> line number and strings shorter than \<open>2^31\<close>.\<close>

definition statement_ok :: "char list option \<Rightarrow> char list \<Rightarrow> int \<Rightarrow> char list \<Rightarrow> log_arg list \<Rightarrow> bool" where
  "statement_ok time path line func args \<longleftrightarrow>
     (case time of None \<Rightarrow> True | Some t \<Rightarrow> length t < 2147483648) \<and> length path < 2147483648 \<and>
     int64_range line \<and> length func < 2147483648 \<and> (\<forall>a\<in>set args. log_arg_ok a)"

lemma basename_length: "length (sf_data (SourceFile_pointer p)) \<le> length p"
  by (auto simp: SourceFile_pointer_def Let_def split: option.split)

lemma line_args_ok: "statement_ok time path line func args \<Longrightarrow> \<forall>a\<in>set (line_args m time path line func args). log_arg_ok a"
  using basename_length [of path]
  by (cases m) (auto simp: statement_ok_def line_args_def less_eq_log_level_def split: option.splits)

lemma emit_text: "fb_ok b \<Longrightarrow> emit b G = G\<lparr>g_lines := g_lines G @ [(g_output G, fb_text b)]\<rparr>"
  by (simp add: emit_def fb_length_def fb_text_def)

lemma log_statement_run:
  assumes "length junk = kSmallBuffer" "statement_ok time path line func args"
  shows "log_statement m junk time path line func args G =
     Inr (if statement_on m G
          then (G\<lparr>g_lines := g_lines G @ [(g_output G, log_spec 4000 (line_args m time path line func args))]\<rparr>, m = LOG_FATAL)
          else (G, False))"
proof -
  let ?b = "FixedBuffer_ctor junk"
  have b: "fb_ok ?b" "fb_text ?b = []" "fb_avail ?b = 4000"
    using assms(1) by (simp_all add: fb_ok_def fb_text_def fb_avail_def FixedBuffer_ctor_def kSmallBuffer_def)
  obtain b1 where "log_puts (line_args m time path line func args) ?b = Inr b1" "fb_ok b1"
    "fb_text b1 = log_spec 4000 (line_args m time path line func args)"
    using log_puts_spec [OF b(1) line_args_ok [OF assms(2)]] b(2,3) by auto
  then show ?thesis by (simp add: log_statement_puts emit_text)
qed

text \<open>
  One statement, one call of the output function, never more than 3999 bytes and never a write
  outside of the line's buffer, whatever the arguments: what does not fit is left out, the
  final newline too. \<open>LOG_TRACE\<close>, \<open>LOG_DEBUG\<close> and \<open>LOG_INFO\<close> obey the level that is set,
  the others always print, and \<open>LOG_FATAL\<close> alone aborts, behind the output.
\<close>

theorem log_statement_spec:
  assumes "length junk = kSmallBuffer" "statement_ok time path line func args"
  shows "\<exists>txt. length txt < kSmallBuffer \<and>
     log_statement m junk time path line func args G =
       Inr (if statement_on m G
            then (G\<lparr>g_lines := g_lines G @ [(g_output G, txt)]\<rparr>, m = LOG_FATAL)
            else (G, False))"
proof (intro exI conjI)
  show "log_statement m junk time path line func args G =
       Inr (if statement_on m G
            then (G\<lparr>g_lines := g_lines G @ [(g_output G, log_spec 4000 (line_args m time path line func args))]\<rparr>, m = LOG_FATAL)
            else (G, False))"
    by (rule log_statement_run [OF assms])
  show "length (log_spec 4000 (line_args m time path line func args)) < kSmallBuffer"
    using log_spec_length [OF line_args_ok [OF assms(2)], of 4000 m] by (simp add: kSmallBuffer_def)
qed

definition quiet :: logging where
  "quiet = \<lparr>g_logLevel = E_FATAL, g_output = 1, g_lines = []\<rparr>"

theorem log_statement_spec_witness:
  "log_statement LOG_DEBUG (replicate kSmallBuffer CHR ''?'') None ''a/b.cpp'' 7 ''f'' [] quiet = Inr (quiet, False) \<and>
   (\<exists>G txt. log_statement LOG_WARN (replicate kSmallBuffer CHR ''?'') None ''a/b.cpp'' 7 ''f'' [] quiet = Inr (G, False) \<and>
      g_lines G = [(1, txt)] \<and> length txt < kSmallBuffer)"
proof -
  have ok: "statement_ok None ''a/b.cpp'' 7 ''f'' []" by (simp add: statement_ok_def int64_range_def)
  have len: "length (replicate kSmallBuffer CHR ''?'') = kSmallBuffer" by simp
  show ?thesis
    using log_statement_spec [OF len ok, of LOG_DEBUG quiet] log_statement_spec [OF len ok, of LOG_WARN quiet]
    by (auto simp: statement_on_def quiet_def less_eq_log_level_def)
qed

text \<open>
  C38. A statement that fits prints its line: the time, the level's name of five letters, the base
  name of the source file and the line, the function with the two lowest levels, the
  arguments one after the other, and a newline.
\<close>

theorem log_statement_text:
  assumes "length junk = kSmallBuffer" "statement_ok (Some t) path line func args" "statement_on m G"
    and "length t + length path + length func + texts_length args + 64 < kSmallBuffer"
  shows "\<exists>G'. log_statement m junk (Some t) path line func args G = Inr (G', m = LOG_FATAL) \<and>
     g_lines G' = g_lines G @ [(g_output G,
       t @ ''|'' @ LogLevelName (macro_level m) @ ''|'' @ sf_data (SourceFile_pointer path) @ '':'' @ decimal line @ '' '' @
       (if macro_level m \<le> E_DEBUG then func @ '' '' else []) @ concat (map log_text args) @ [CHR 0x0A])]"
proof -
  have l: "length (decimal line) \<le> 20" "length (LogLevelName (macro_level m)) = 5"
    using convert_length [of line] assms(2) by (simp_all add: statement_ok_def convert_decimal) (cases m; simp)
  have "int (texts_length (line_args m (Some t) path line func args)) + 32 \<le> 4000"
    using assms(4) l basename_length [of path]
    by (simp add: texts_length_def line_args_def kSmallBuffer_def split: if_splits)
  from log_spec_fits [OF this] log_statement_run [OF assms(1,2), of m G] assms(3)
  show ?thesis by (simp add: line_args_def)
qed

theorem log_statement_text_witness:
  "\<exists>G'. log_statement LOG_FATAL (replicate kSmallBuffer CHR ''?'') (Some ''now'') ''a/b.cpp'' 7 ''f'' [LCStr (Some ''bind ''), LInt (-1)] quiet =
       Inr (G', True) \<and>
     g_lines G' = [(1, ''now|FATAL|b.cpp:7 bind -1'' @ [CHR 0x0A])]"
proof -
  have ok: "statement_ok (Some ''now'') ''a/b.cpp'' 7 ''f'' [LCStr (Some ''bind ''), LInt (-1)]"
    by (simp add: statement_ok_def int64_range_def)
  have dec: "decimal 7 = ''7''" "decimal (-1) = ''-1''" by code_simp+
  have base: "sf_data (SourceFile_pointer ''a/b.cpp'') = ''b.cpp''" by code_simp
  have "length ''now'' + length ''a/b.cpp'' + length ''f'' + texts_length [LCStr (Some ''bind ''), LInt (-1)] + 64 < kSmallBuffer"
    by (simp add: texts_length_def dec kSmallBuffer_def)
  from log_statement_text [OF _ ok _ this, of "replicate kSmallBuffer CHR ''?''" LOG_FATAL quiet]
  show ?thesis
    by (simp add: statement_on_def quiet_def dec base less_eq_log_level_def)
qed

end
