(* ===== verification/LogFile.thy ===== *)
theory LogFile
  imports Prelude
begin

text \<open>
  Log files on disk: \<open>AppendFile\<close> (src/base/file_util.h, src/base/file_util.cpp), \<open>LogFile\<close>
  (src/base/log_file.h, src/base/log_file.cpp) and \<open>ProcessInfo\<close> (src/base/process_info.cpp). The
  disk is the map from paths to contents; a file's content includes what its stdio
  buffer still holds, and \<open>af_unflushed\<close> counts the bytes appended since the last flush. What
  \<open>fwrite\<close> takes is a list of lengths, after which it takes everything; the times
  \<open>time(NULL)\<close> returns are arguments.
\<close>

section \<open>AppendFile\<close>

record append_file =
  af_path :: "char list"
  af_written :: int
  af_unflushed :: nat

type_synonym disk = "char list \<Rightarrow> char list"

text \<open>\<open>fopen\<close> in append mode; on a null stream \<open>setbuffer\<close> faults.\<close>

definition AppendFile_ctor :: "bool \<Rightarrow> char list \<Rightarrow> append_file res" where
  "AppendFile_ctor opens path =
     (if opens then Inr \<lparr>af_path = path, af_written = 0, af_unflushed = 0\<rparr> else Inl NullDeref)"

text \<open>One \<open>fwrite\<close>: how many of the \<open>n\<close> bytes it takes.\<close>

fun fwrite_count :: "nat \<Rightarrow> nat list \<Rightarrow> nat \<times> nat list" where
  "fwrite_count n [] = (n, [])"
| "fwrite_count n (k # ks) = (min k n, ks)"

text \<open>The loop of \<open>append\<close>: \<open>n\<close> bytes of the line are taken; the result is how many are at the end.\<close>

function append_loop :: "nat \<Rightarrow> nat \<Rightarrow> nat list \<Rightarrow> nat \<times> nat list" where
  "append_loop len n ks =
     (if len \<le> n then (n, ks)
      else case fwrite_count (len - n) ks of (x, ks1) \<Rightarrow>
        if x = 0 then (n, ks1) else append_loop len (n + x) ks1)"
  by pat_completeness auto

termination append_loop
  by (relation "measure (\<lambda>(len, n, ks). len - n)") auto

declare append_loop.simps [simp del]

definition AppendFile_append ::
  "nat list \<Rightarrow> char list \<Rightarrow> append_file \<Rightarrow> disk \<Rightarrow> append_file \<times> disk \<times> nat list" where
  "AppendFile_append ks line f d =
     (case fwrite_count (length line) ks of (n0, ks0) \<Rightarrow>
      case append_loop (length line) n0 ks0 of (n, ks1) \<Rightarrow>
        (f\<lparr>af_written := af_written f + int (length line), af_unflushed := af_unflushed f + n\<rparr>,
         d(af_path f := d (af_path f) @ take n line), ks1))"

definition AppendFile_flush :: "append_file \<Rightarrow> append_file" where
  "AppendFile_flush f = f\<lparr>af_unflushed := 0\<rparr>"

text \<open>The destructor: \<open>fclose\<close> writes out what stdio still holds.\<close>

definition AppendFile_dtor :: "append_file \<Rightarrow> append_file" where
  "AppendFile_dtor f = f\<lparr>af_unflushed := 0\<rparr>"

section \<open>ProcessInfo\<close>

text \<open>\<open>hostname\<close>: \<open>buf\<close> is the array of 256 bytes as \<open>gethostname\<close> leaves it, \<open>ok\<close> whether it succeeds.\<close>

definition hostname :: "bool \<Rightarrow> char list \<Rightarrow> char list" where
  "hostname ok buf =
     (if ok then takeWhile (\<lambda>c. c \<noteq> CHR 0x00) (buf[255 := CHR 0x00]) else ''unknownhost'')"

section \<open>LogFile\<close>

definition kRollPerSeconds :: int where
  "kRollPerSeconds = 60 * 60 * 24"

record log_file =
  lf_basename :: "char list"
  lf_rollSize :: int
  lf_checkEveryN :: int
  lf_flushInterval :: int
  lf_threadSafe :: bool
  lf_startOfPeriod :: int
  lf_lastRoll :: int
  lf_lastFlush :: int
  lf_count :: int
  lf_file :: "append_file option"

text \<open>What the machine contributes: the text \<open>strftime\<close> makes of a time with the format \<open>.%Y%m%d.\<close>,
  the host's name and which paths can be opened.\<close>

record machine =
  mc_stamp :: "int \<Rightarrow> char list"
  mc_host :: "char list"
  mc_opens :: "char list \<Rightarrow> bool"

definition getLogFileName :: "machine \<Rightarrow> char list \<Rightarrow> int \<Rightarrow> char list" where
  "getLogFileName M basename now = basename @ mc_stamp M now @ mc_host M @ ''.log''"

definition period :: "int \<Rightarrow> int" where
  "period now = c_div now kRollPerSeconds * kRollPerSeconds"

definition rollFile :: "machine \<Rightarrow> int \<Rightarrow> log_file \<Rightarrow> (bool \<times> log_file) res" where
  "rollFile M now L =
     (if lf_lastRoll L < now
      then bindE (AppendFile_ctor (mc_opens M (getLogFileName M (lf_basename L) now))
                    (getLogFileName M (lf_basename L) now)) (\<lambda>f.
           Inr (True, L\<lparr>lf_lastRoll := now, lf_lastFlush := now, lf_startOfPeriod := period now,
                        lf_file := Some f\<rparr>))
      else Inr (False, L))"

text \<open>The constructor leaves \<open>startOfPeriod_\<close>, \<open>lastRoll_\<close>, \<open>lastFlush_\<close> and \<open>count_\<close> uninitialised:
  their values are the components of \<open>junk\<close>.\<close>

definition LogFile_ctor ::
  "machine \<Rightarrow> int \<times> int \<times> int \<times> int \<Rightarrow> int \<Rightarrow> char list \<Rightarrow> int \<Rightarrow> bool \<Rightarrow> int \<Rightarrow> int \<Rightarrow> log_file res" where
  "LogFile_ctor M junk now basename rollSize threadSafe flushInterval checkEveryN =
     (case junk of (period0, roll0, flush0, count0) \<Rightarrow>
        bindE (rollFile M now \<lparr>lf_basename = basename, lf_rollSize = rollSize,
            lf_checkEveryN = checkEveryN, lf_flushInterval = flushInterval, lf_threadSafe = threadSafe,
            lf_startOfPeriod = period0, lf_lastRoll = roll0, lf_lastFlush = flush0, lf_count = count0,
            lf_file = None\<rparr>) (\<lambda>(_, L). Inr L))"

text \<open>
  \<open>append_unlocked\<close>: \<open>t1\<close> is the time of its own check, \<open>t2\<close> the one \<open>rollFile\<close> reads. The
  comparisons are those of the code.
\<close>

definition after_append :: "machine \<Rightarrow> int \<Rightarrow> int \<Rightarrow> append_file \<Rightarrow> log_file \<Rightarrow> log_file res" where
  "after_append M t1 t2 f L =
     (if af_written f > lf_rollSize L then bindE (rollFile M t2 L) (\<lambda>(_, L1). Inr L1)
      else
        let L1 = L\<lparr>lf_count := lf_count L + 1\<rparr> in
        if lf_count L1 \<ge> lf_checkEveryN L1 then
          let L2 = L1\<lparr>lf_count := 0\<rparr> in
          if period t1 \<noteq> lf_startOfPeriod L2 then bindE (rollFile M t2 L2) (\<lambda>(_, L3). Inr L3)
          else if t1 - lf_lastFlush L2 > lf_flushInterval L2
          then Inr (L2\<lparr>lf_lastFlush := t1, lf_file := Some (AppendFile_flush f)\<rparr>)
          else Inr L2
        else Inr L1)"

definition append_unlocked ::
  "machine \<Rightarrow> int \<Rightarrow> int \<Rightarrow> nat list \<Rightarrow> char list \<Rightarrow> log_file \<Rightarrow> disk \<Rightarrow> (log_file \<times> disk \<times> nat list) res" where
  "append_unlocked M t1 t2 ks line L d =
     (case lf_file L of
        None \<Rightarrow> Inl NullDeref
      | Some f \<Rightarrow>
          (case AppendFile_append ks line f d of (f1, d1, ks1) \<Rightarrow>
             bindE (after_append M t1 t2 f1 (L\<lparr>lf_file := Some f1\<rparr>)) (\<lambda>L1. Inr (L1, d1, ks1))))"

text \<open>\<open>append\<close> and \<open>flush\<close> with whether they take the mutex: the two tests are opposite.\<close>

definition LogFile_append ::
  "machine \<Rightarrow> int \<Rightarrow> int \<Rightarrow> nat list \<Rightarrow> char list \<Rightarrow> log_file \<Rightarrow> disk \<Rightarrow>
   bool \<times> (log_file \<times> disk \<times> nat list) res" where
  "LogFile_append M t1 t2 ks line L d = (\<not> lf_threadSafe L, append_unlocked M t1 t2 ks line L d)"

definition LogFile_flush :: "log_file \<Rightarrow> bool \<times> log_file res" where
  "LogFile_flush L =
     (lf_threadSafe L,
      case lf_file L of None \<Rightarrow> Inl NullDeref | Some f \<Rightarrow> Inr (L\<lparr>lf_file := Some (AppendFile_flush f)\<rparr>))"

text \<open>Many lines; each comes with its two times.\<close>

fun append_lines ::
  "machine \<Rightarrow> (int \<times> int \<times> char list) list \<Rightarrow> nat list \<Rightarrow> log_file \<Rightarrow> disk \<Rightarrow> (log_file \<times> disk) res" where
  "append_lines M [] ks L d = Inr (L, d)"
| "append_lines M ((t1, t2, line) # ls) ks L d =
     bindE (snd (LogFile_append M t1 t2 ks line L d)) (\<lambda>(L1, d1, ks1). append_lines M ls ks1 L1 d1)"

section \<open>Writing a line\<close>

lemma append_loop_le: "n \<le> len \<Longrightarrow> append_loop len n ks = (m, ks') \<Longrightarrow> n \<le> m \<and> m \<le> len"
proof (induction len n ks rule: append_loop.induct)
  case (1 len n ks)
  obtain x ks1 where c: "fwrite_count (len - n) ks = (x, ks1)" by fastforce
  have x: "x \<le> len - n" using c by (cases ks) auto
  show ?case
  proof (cases "len \<le> n \<or> x = 0")
    case True
    then show ?thesis using 1(2,3) c by (subst (asm) append_loop.simps) (auto split: if_splits)
  next
    case False
    then have "append_loop len (n + x) ks1 = (m, ks')"
      using 1(3) c by (subst (asm) append_loop.simps) simp
    from 1(1) [OF _ c [symmetric] _ _ this] False x 1(2) show ?thesis by fastforce
  qed
qed

text \<open>A stream that never refuses.\<close>

definition takes_some :: "nat list \<Rightarrow> bool" where
  "takes_some ks \<longleftrightarrow> 0 \<notin> set ks"

lemma append_loop_all:
  "takes_some ks \<Longrightarrow> n \<le> len \<Longrightarrow> append_loop len n ks = (m, ks') \<Longrightarrow> m = len \<and> takes_some ks'"
proof (induction len n ks rule: append_loop.induct)
  case (1 len n ks)
  obtain x ks1 where c: "fwrite_count (len - n) ks = (x, ks1)" by fastforce
  have x: "x \<le> len - n" "takes_some ks1" and pos: "n < len \<Longrightarrow> 0 < x"
    using c 1(2) by (cases ks; auto simp: takes_some_def)+
  show ?case
  proof (cases "len \<le> n")
    case True
    then show ?thesis using 1(2-4) by (subst (asm) append_loop.simps) auto
  next
    case False
    then have "append_loop len (n + x) ks1 = (m, ks')" "x \<noteq> 0"
      using 1(4) c pos by (subst (asm) append_loop.simps, simp_all)
    with 1(1) [OF False c [symmetric] _ x(2)] x(1) False show ?thesis by simp
  qed
qed

lemma AppendFile_append_effect:
  obtains n ks' where "AppendFile_append ks line f d =
       (f\<lparr>af_written := af_written f + int (length line), af_unflushed := af_unflushed f + n\<rparr>,
        d(af_path f := d (af_path f) @ take n line), ks')"
    "n \<le> length line" "takes_some ks \<longrightarrow> n = length line \<and> takes_some ks'"
proof -
  obtain n0 ks0 where c: "fwrite_count (length line) ks = (n0, ks0)" by fastforce
  obtain n ks1 where l: "append_loop (length line) n0 ks0 = (n, ks1)" by fastforce
  have n0: "n0 \<le> length line" "takes_some ks \<Longrightarrow> takes_some ks0"
    using c by (cases ks; auto simp: takes_some_def)+
  have "n \<le> length line" using append_loop_le [OF n0(1) l] by simp
  moreover have "takes_some ks \<longrightarrow> n = length line \<and> takes_some ks1"
    using append_loop_all [OF n0(2) n0(1) l] by simp
  ultimately show thesis using that [of n ks1] c l by (simp add: AppendFile_append_def)
qed

text \<open>
  \<open>AppendFile::append\<close> adds to its file the line, or when the stream refuses a prefix of it,
  and touches no other file; \<open>writtenBytes\<close> counts the whole line in both cases.
\<close>

theorem append_file_spec:
  "case AppendFile_append ks line f d of (f', d', ks') \<Rightarrow>
     (\<exists>n \<le> length line. d' = d(af_path f := d (af_path f) @ take n line) \<and>
        af_unflushed f' = af_unflushed f + n \<and> (takes_some ks \<longrightarrow> n = length line)) \<and>
     af_path f' = af_path f \<and> af_written f' = af_written f + int (length line)"
proof -
  obtain n ks' where "AppendFile_append ks line f d =
       (f\<lparr>af_written := af_written f + int (length line), af_unflushed := af_unflushed f + n\<rparr>,
        d(af_path f := d (af_path f) @ take n line), ks')"
    "n \<le> length line" "takes_some ks \<longrightarrow> n = length line \<and> takes_some ks'"
    by (rule AppendFile_append_effect [of ks line f d])
  then show ?thesis by auto
qed

theorem append_file_spec_witness:
  "case AppendFile_append [1, 2] ''hello'' \<lparr>af_path = ''p'', af_written = 0, af_unflushed = 0\<rparr> (\<lambda>_. ''x'') of (f', d', _) \<Rightarrow>
     d' ''p'' = ''xhello'' \<and> d' ''q'' = ''x'' \<and> af_written f' = 5"
proof -
  have "takes_some [1, 2]" by (simp add: takes_some_def)
  then show ?thesis
    using append_file_spec [where ks = "[1, 2]" and line = "''hello''" and d = "\<lambda>_. ''x''" and
        f = "\<lparr>af_path = ''p'', af_written = 0, af_unflushed = 0\<rparr>"]
    by (auto split: prod.splits)
qed

section \<open>Rolling\<close>

lemma rollFile_cases:
  assumes "rollFile M now L = Inr (b, L')"
  shows "if lf_lastRoll L < now
     then lf_basename L' = lf_basename L \<and>
       lf_file L' = Some \<lparr>af_path = getLogFileName M (lf_basename L) now, af_written = 0, af_unflushed = 0\<rparr>
     else L' = L"
  using assms by (auto simp: rollFile_def AppendFile_ctor_def split: if_splits)

text \<open>Behind a line, the file in use is the same one, or the one of the time \<open>t2\<close>.\<close>

lemma after_append_file:
  assumes "after_append M t1 t2 f L = Inr L'" "lf_file L = Some f"
  shows "lf_basename L' = lf_basename L \<and>
     (\<exists>g. lf_file L' = Some g \<and> (af_path g = af_path f \<or> af_path g = getLogFileName M (lf_basename L) t2))"
proof -
  have roll: "lf_basename L2 = lf_basename L \<and>
      (\<exists>g. lf_file L2 = Some g \<and> (af_path g = af_path f \<or> af_path g = getLogFileName M (lf_basename L) t2))"
    if "rollFile M t2 L1 = Inr (b, L2)" "lf_basename L1 = lf_basename L" "lf_file L1 = Some f" for L1 b L2
    using rollFile_cases [OF that(1)] that(2,3) by (auto split: if_splits)
  have count: "lf_basename (L\<lparr>lf_count := n\<rparr>) = lf_basename L" "lf_file (L\<lparr>lf_count := n\<rparr>) = Some f" for n
    using assms(2) by simp_all
  consider "af_written f > lf_rollSize L"
    | "af_written f \<le> lf_rollSize L" "lf_count L + 1 \<ge> lf_checkEveryN L" "period t1 \<noteq> lf_startOfPeriod L"
    | "\<exists>n. L' = L\<lparr>lf_count := n\<rparr>"
    | "\<exists>n. L' = L\<lparr>lf_count := n, lf_lastFlush := t1, lf_file := Some (AppendFile_flush f)\<rparr>"
    using assms(1) by (auto simp: after_append_def Let_def split: if_splits)
  then show ?thesis
  proof cases
    case 1
    then obtain b where "rollFile M t2 L = Inr (b, L')" using assms(1) by (auto simp: after_append_def)
    from roll [OF this refl assms(2)] show ?thesis .
  next
    case 2
    then obtain b where "rollFile M t2 (L\<lparr>lf_count := 0\<rparr>) = Inr (b, L')"
      using assms(1) by (auto simp: after_append_def Let_def)
    from roll [OF this count] show ?thesis .
  next
    case 3
    then show ?thesis using assms(2) by auto
  next
    case 4
    then show ?thesis by (auto simp: AppendFile_flush_def)
  qed
qed

lemma append_unlocked_file:
  assumes "append_unlocked M t1 t2 ks line L d = Inr (L', d', ks')" "lf_file L = Some f" "takes_some ks"
  shows "d' = d(af_path f := d (af_path f) @ line) \<and> takes_some ks' \<and> lf_basename L' = lf_basename L \<and>
     (\<exists>g. lf_file L' = Some g \<and> (af_path g = af_path f \<or> af_path g = getLogFileName M (lf_basename L) t2))"
proof -
  obtain n ks1 where a: "AppendFile_append ks line f d =
       (f\<lparr>af_written := af_written f + int (length line), af_unflushed := af_unflushed f + n\<rparr>,
        d(af_path f := d (af_path f) @ take n line), ks1)" and n: "n = length line" "takes_some ks1"
    using AppendFile_append_effect [of ks line f d] assms(3) by metis
  let ?f = "f\<lparr>af_written := af_written f + int (length line), af_unflushed := af_unflushed f + n\<rparr>"
  obtain L1 where L1: "after_append M t1 t2 ?f (L\<lparr>lf_file := Some ?f\<rparr>) = Inr L1"
    "L' = L1" "d' = d(af_path f := d (af_path f) @ line)" "ks' = ks1"
    using assms(1,2) a n by (auto simp: append_unlocked_def)
  from after_append_file [OF L1(1)] L1(2-4) n show ?thesis by simp
qed

text \<open>What a run leaves of the lines in the file \<open>p\<close> when line \<open>i\<close> went to the \<open>i\<close>-th path.\<close>

definition lines_for :: "char list \<Rightarrow> char list list \<Rightarrow> (int \<times> int \<times> char list) list \<Rightarrow> char list" where
  "lines_for p paths ls = concat (map (\<lambda>(q, (t1, t2, line)). if q = p then line else []) (zip paths ls))"

text \<open>The \<open>i\<close>-th path is the one of the file the log has open when the \<open>i\<close>-th line comes: the lines before it
  leave that file in use.\<close>

definition in_use_before ::
  "machine \<Rightarrow> (int \<times> int \<times> char list) list \<Rightarrow> nat list \<Rightarrow> log_file \<Rightarrow> disk \<Rightarrow> nat \<Rightarrow> char list \<Rightarrow> bool" where
  "in_use_before M ls ks L d i p \<longleftrightarrow>
     (\<exists>Li di g. append_lines M (take i ls) ks L d = Inr (Li, di) \<and> lf_file Li = Some g \<and> af_path g = p)"

text \<open>Behind a line the file in use is the same one, or the one of the time \<open>rollFile\<close> has read then.\<close>

definition rolls_to :: "machine \<Rightarrow> char list \<Rightarrow> int \<times> int \<times> char list \<Rightarrow> char list \<Rightarrow> char list \<Rightarrow> bool" where
  "rolls_to M base x p q \<longleftrightarrow> (case x of (t1, t2, line) \<Rightarrow> q = p \<or> q = getLogFileName M base t2)"

lemma append_lines_run:
  "append_lines M ls ks L d = Inr (L', d') \<Longrightarrow> lf_file L = Some f \<Longrightarrow> takes_some ks \<Longrightarrow>
   \<exists>paths. length paths = length ls \<and> (\<forall>p. d' p = d p @ lines_for p paths ls) \<and>
     (\<forall>i<length ls. in_use_before M ls ks L d i (paths ! i)) \<and>
     (\<forall>i. Suc i < length ls \<longrightarrow> rolls_to M (lf_basename L) (ls ! i) (paths ! i) (paths ! Suc i))"
proof (induction ls arbitrary: ks L d f)
  case Nil
  then show ?case by (simp add: lines_for_def)
next
  case (Cons x ls)
  obtain t1 t2 line where x: "x = (t1, t2, line)" by (cases x)
  obtain L1 d1 ks1 where a: "append_unlocked M t1 t2 ks line L d = Inr (L1, d1, ks1)"
    and r: "append_lines M ls ks1 L1 d1 = Inr (L', d')"
    using Cons.prems(1) by (auto simp: x LogFile_append_def)
  from append_unlocked_file [OF a Cons.prems(2,3)] obtain g where
    g: "d1 = d(af_path f := d (af_path f) @ line)" "takes_some ks1" "lf_basename L1 = lf_basename L"
      "lf_file L1 = Some g" "af_path g = af_path f \<or> af_path g = getLogFileName M (lf_basename L) t2"
    by auto
  from Cons.IH [OF r g(4,2)] g(3) obtain paths where
    ih: "length paths = length ls" "\<forall>p. d' p = d1 p @ lines_for p paths ls"
      "\<forall>i<length ls. in_use_before M ls ks1 L1 d1 i (paths ! i)"
      "\<forall>i. Suc i < length ls \<longrightarrow> rolls_to M (lf_basename L) (ls ! i) (paths ! i) (paths ! Suc i)"
    by auto
  let ?paths = "af_path f # paths"
  have use: "in_use_before M (x # ls) ks L d i (?paths ! i)" if "i < length (x # ls)" for i
  proof (cases i)
    case 0
    with Cons.prems(2) show ?thesis by (simp add: in_use_before_def)
  next
    case (Suc k)
    with ih(3) that a show ?thesis by (auto simp: in_use_before_def x LogFile_append_def)
  qed
  moreover have "rolls_to M (lf_basename L) ((x # ls) ! i) (?paths ! i) (?paths ! Suc i)" if "Suc i < length (x # ls)" for i
  proof (cases i)
    case 0
    with that have "in_use_before M ls ks1 L1 d1 0 (paths ! 0)" using ih(3) by simp
    then have "paths ! 0 = af_path g" using g(4) by (simp add: in_use_before_def)
    with 0 g(5) show ?thesis by (simp add: rolls_to_def x)
  next
    case (Suc k)
    with ih(4) that show ?thesis by simp
  qed
  moreover have "\<forall>p. d' p = d p @ lines_for p ?paths (x # ls)" using ih(2) g(1) by (auto simp: x lines_for_def)
  ultimately show ?case using ih(1) by (intro exI [of _ ?paths]) simp
qed

text \<open>So every path is the first one or a name made from one of the times.\<close>

lemma rolls_to_paths:
  assumes "length paths = length ls" "\<forall>i. Suc i < length ls \<longrightarrow> rolls_to M base (ls ! i) (paths ! i) (paths ! Suc i)"
    and "i < length ls"
  shows "paths ! i = paths ! 0 \<or> paths ! i \<in> (\<lambda>(t1, t2, line). getLogFileName M base t2) ` set ls"
  using assms(3)
proof (induction i)
  case (Suc i)
  obtain t1 t2 line where x: "ls ! i = (t1, t2, line)" by (cases "ls ! i")
  have "(t1, t2, line) \<in> set ls" using Suc.prems x by (metis Suc_lessD nth_mem)
  moreover have "paths ! Suc i = paths ! i \<or> paths ! Suc i = getLogFileName M base t2"
    using assms(2) Suc.prems x by (fastforce simp: rolls_to_def)
  ultimately show ?case using Suc by force
qed simp

text \<open>Where every path can be opened, appending to an open log succeeds.\<close>

lemma append_unlocked_total:
  assumes "\<forall>p. mc_opens M p" "lf_file L = Some f"
  shows "\<exists>L1 d1 ks1. append_unlocked M t1 t2 ks line L d = Inr (L1, d1, ks1) \<and> lf_file L1 \<noteq> None"
proof -
  obtain f1 d1 ks1 where a: "AppendFile_append ks line f d = (f1, d1, ks1)" by (metis prod_cases3)
  have "\<exists>L1. after_append M t1 t2 f1 (L\<lparr>lf_file := Some f1\<rparr>) = Inr L1 \<and> lf_file L1 \<noteq> None"
    using assms(1) by (auto simp: after_append_def rollFile_def AppendFile_ctor_def Let_def)
  then show ?thesis using a assms(2) by (auto simp: append_unlocked_def)
qed

lemma append_lines_total:
  "\<forall>p. mc_opens M p \<Longrightarrow> lf_file L = Some f \<Longrightarrow> \<exists>L' d'. append_lines M ls ks L d = Inr (L', d')"
proof (induction ls arbitrary: ks L d f)
  case (Cons x ls)
  obtain t1 t2 line where x: "x = (t1, t2, line)" by (cases x)
  obtain L1 d1 ks1 where a: "append_unlocked M t1 t2 ks line L d = Inr (L1, d1, ks1)" "lf_file L1 \<noteq> None"
    using append_unlocked_total [OF Cons.prems, of t1 t2 ks line d] by blast
  then obtain g where "lf_file L1 = Some g" by auto
  from Cons.IH [OF Cons.prems(1) this, of ks1 d1] a show ?case by (auto simp: x LogFile_append_def)
qed simp

text \<open>
  C35. No line is lost, cut or moved by rolling: where every path can be opened, any run of appends to
  an open log whose streams do not refuse, with any times, returns; each line is whole in the file that
  was in use before it, and in every file the new bytes are its lines in the order appended. From one line to
  the next the file in use stays the same or becomes the one named by the time read behind the first of them.
\<close>

theorem log_lines_kept:
  assumes "\<forall>p. mc_opens M p" "lf_file L = Some f" "takes_some ks"
  shows "\<exists>L' d' paths. append_lines M ls ks L d = Inr (L', d') \<and> length paths = length ls \<and>
     (\<forall>p. d' p = d p @ lines_for p paths ls) \<and>
     (\<forall>i<length ls. in_use_before M ls ks L d i (paths ! i)) \<and>
     (\<forall>i. Suc i < length ls \<longrightarrow> rolls_to M (lf_basename L) (ls ! i) (paths ! i) (paths ! Suc i))"
proof -
  obtain L' d' where r: "append_lines M ls ks L d = Inr (L', d')"
    using append_lines_total [OF assms(1,2)] by blast
  with append_lines_run [OF r assms(2,3)] show ?thesis by blast
qed

lemma append_lines_one_file:
  assumes "append_lines M ls ks L d = Inr (L', d')" "lf_file L = Some f" "takes_some ks"
    and "\<forall>(t1, t2, line)\<in>set ls. getLogFileName M (lf_basename L) t2 = af_path f"
  shows "d' = d(af_path f := d (af_path f) @ concat (map (\<lambda>(t1, t2, line). line) ls))"
proof -
  obtain paths where p: "length paths = length ls" "\<forall>p. d' p = d p @ lines_for p paths ls"
    "\<forall>i<length ls. in_use_before M ls ks L d i (paths ! i)"
    "\<forall>i. Suc i < length ls \<longrightarrow> rolls_to M (lf_basename L) (ls ! i) (paths ! i) (paths ! Suc i)"
    using append_lines_run [OF assms(1-3)] by blast
  have "paths ! i = af_path f" if i: "i < length ls" for i
  proof -
    from i have "0 < length ls" by linarith
    with p(3) have "in_use_before M ls ks L d 0 (paths ! 0)" by blast
    then have "paths ! 0 = af_path f" using assms(2) by (simp add: in_use_before_def)
    with rolls_to_paths [OF p(1,4) i] assms(4) show ?thesis by fastforce
  qed
  then have "\<forall>q\<in>set paths. q = af_path f" using p(1) by (metis in_set_conv_nth)
  with p(1) have "paths = replicate (length ls) (af_path f)"
    by (metis replicate_eqI)
  moreover have "lines_for (af_path f) (replicate (length xs) (af_path f)) xs = concat (map (\<lambda>(t1, t2, line). line) xs)"
    for xs by (induction xs) (auto simp: lines_for_def)
  moreover have "p \<noteq> af_path f \<Longrightarrow> lines_for p (replicate (length xs) (af_path f)) xs = []" for p xs
    by (induction xs) (auto simp: lines_for_def)
  ultimately show ?thesis using p(2) by auto
qed

definition demo_machine :: machine where
  "demo_machine = \<lparr>mc_stamp = (\<lambda>t. if t < 86400 then ''.19700101.'' else ''.19700102.''),
     mc_host = ''h'', mc_opens = (\<lambda>_. True)\<rparr>"

text \<open>A log of the first day that rolls after every line.\<close>

definition demo_log :: log_file where
  "demo_log = \<lparr>lf_basename = ''b'', lf_rollSize = 0, lf_checkEveryN = 1024, lf_flushInterval = 3,
     lf_threadSafe = False, lf_startOfPeriod = 0, lf_lastRoll = 5, lf_lastFlush = 5, lf_count = 0,
     lf_file = Some \<lparr>af_path = ''b.19700101.h.log'', af_written = 0, af_unflushed = 0\<rparr>\<rparr>"

lemmas log_run_defs = LogFile_append_def append_unlocked_def demo_log_def AppendFile_append_def
  append_loop.simps after_append_def rollFile_def AppendFile_ctor_def getLogFileName_def demo_machine_def

lemma demo_run_next_day:
  "\<exists>L' d'. append_lines demo_machine [(6, 90000, ''one''), (90000, 90000, ''two'')] [2] demo_log (\<lambda>_. []) = Inr (L', d') \<and>
     d' ''b.19700102.h.log'' = ''two''"
  by (simp add: log_run_defs)

lemma demo_run_same_day:
  "\<exists>L' d'. append_lines demo_machine [(6, 9, ''one''), (9, 9, ''two'')] [2] demo_log (\<lambda>_. []) = Inr (L', d')"
  by (simp add: log_run_defs)

lemma demo_log_file:
  "lf_file demo_log = Some \<lparr>af_path = ''b.19700101.h.log'', af_written = 0, af_unflushed = 0\<rparr>"
  by (simp add: demo_log_def)

text \<open>A line that makes the log roll on the next day stays in the file of the day before; the one behind it does not.\<close>

theorem log_lines_kept_witness:
  "\<exists>L' d' paths. append_lines demo_machine [(6, 90000, ''one''), (90000, 90000, ''two'')] [2] demo_log (\<lambda>_. []) = Inr (L', d') \<and>
     d' ''b.19700102.h.log'' = ''two'' \<and> length paths = 2 \<and> paths ! 0 = ''b.19700101.h.log'' \<and>
     rolls_to demo_machine ''b'' (6, 90000, ''one'') (paths ! 0) (paths ! 1) \<and>
     d' ''b.19700101.h.log'' = lines_for ''b.19700101.h.log'' paths [(6, 90000, ''one''), (90000, 90000, ''two'')]"
proof -
  let ?ls = "[(6 :: int, 90000 :: int, ''one''), (90000, 90000, ''two'')]"
  have o: "\<forall>p. mc_opens demo_machine p" by (simp add: demo_machine_def)
  have "takes_some [2]" by (simp add: takes_some_def)
  from log_lines_kept [OF o demo_log_file this, of ?ls "\<lambda>_. []"]
  obtain L' d' paths where r: "append_lines demo_machine ?ls [2] demo_log (\<lambda>_. []) = Inr (L', d')"
    and p: "length paths = length ?ls" "\<forall>p. d' p = [] @ lines_for p paths ?ls"
      "\<forall>i<length ?ls. in_use_before demo_machine ?ls [2] demo_log (\<lambda>_. []) i (paths ! i)"
      "\<forall>i. Suc i < length ?ls \<longrightarrow> rolls_to demo_machine (lf_basename demo_log) (?ls ! i) (paths ! i) (paths ! Suc i)" by blast
  have "in_use_before demo_machine ?ls [2] demo_log (\<lambda>_. []) 0 (paths ! 0)" using p(3) by simp
  then have "paths ! 0 = ''b.19700101.h.log''" by (simp add: in_use_before_def demo_log_file)
  moreover have "rolls_to demo_machine ''b'' (6, 90000, ''one'') (paths ! 0) (paths ! 1)"
    using p(4) by (auto simp: demo_log_def)
  moreover have "length paths = 2" "d' ''b.19700101.h.log'' = lines_for ''b.19700101.h.log'' paths ?ls"
    using p(1,2) by simp_all
  moreover have "d' ''b.19700102.h.log'' = ''two''" using demo_run_next_day r by auto
  ultimately show ?thesis using r by blast
qed

text \<open>
  The limit on a file's size does not hold: the name of a log has only the day in it, so
  that rolling within a day opens the same file again, behind what it holds. All
  lines of a day end in one file, whatever \<open>rollSize_\<close> is.
\<close>

theorem size_roll_same_file:
  assumes "append_lines M ls ks L d = Inr (L', d')" "lf_file L = Some f" "takes_some ks"
    and "\<forall>(t1, t2, line)\<in>set ls. mc_stamp M t2 = day"
    and "af_path f = lf_basename L @ day @ mc_host M @ ''.log''"
  shows "d' = d(af_path f := d (af_path f) @ concat (map (\<lambda>(t1, t2, line). line) ls))"
proof (rule append_lines_one_file [OF assms(1-3)])
  show "\<forall>(t1, t2, line)\<in>set ls. getLogFileName M (lf_basename L) t2 = af_path f"
    using assms(4,5) by (fastforce simp: getLogFileName_def)
qed

theorem size_roll_same_file_witness:
  "\<exists>L' d'. append_lines demo_machine [(6, 9, ''one''), (9, 9, ''two'')] [2] demo_log (\<lambda>_. []) = Inr (L', d') \<and>
     d' ''b.19700101.h.log'' = ''onetwo'' \<and> lf_rollSize demo_log = 0"
proof -
  obtain L' d' where
    r: "append_lines demo_machine [(6, 9, ''one''), (9, 9, ''two'')] [2] demo_log (\<lambda>_. []) = Inr (L', d')"
    using demo_run_same_day by blast
  have t: "takes_some [2]" by (simp add: takes_some_def)
  have "d' ''b.19700101.h.log'' = ''onetwo''"
    using size_roll_same_file [OF r demo_log_file t, of "''.19700101.''"]
    by (simp add: demo_log_def demo_machine_def)
  moreover have "lf_rollSize demo_log = 0" by (simp add: demo_log_def)
  ultimately show ?thesis using r by blast
qed

text \<open>
  The members the constructor does not initialise matter: when \<open>lastRoll_\<close> happens to hold
  the current time or a later one, no file is opened, and the first append dereferences
  a null pointer.
\<close>

theorem log_file_uninitialised:
  "\<exists>L. LogFile_ctor M (p0, now + int k, f0, c0) now basename rollSize threadSafe flushInterval checkEveryN = Inr L \<and>
     (\<forall>t1 t2 ks line d. snd (LogFile_append M t1 t2 ks line L d) = Inl NullDeref)"
  by (simp add: LogFile_ctor_def rollFile_def LogFile_append_def append_unlocked_def)

end
