(* ===== verification/LogProgram.thy ===== *)
theory LogProgram
  imports AsyncLife Logger LogFile
begin

text \<open>
  A program that logs, and the one of src/test/test_log.cpp: several threads execute log statements
  (src/base/logger.h), whose output function is the \<open>append\<close> of one asynchronous logger
  (src/base/async_logging.cpp), which its owner starts and stops. Formatting a line touches only the
  statement's own stream, so that a statement is one step with the append of its line.
\<close>

section \<open>Statements\<close>

text \<open>A statement with the text of its time.\<close>

type_synonym statement = "log_macro \<times> char list option \<times> char list \<times> int \<times> char list \<times> log_arg list"

text \<open>The logger's globals with the output function of the program, before a statement has printed.\<close>

definition with_level :: "log_level \<Rightarrow> logging" where
  "with_level l = \<lparr>g_logLevel = l, g_output = 1, g_lines = []\<rparr>"

fun statement_fine :: "statement \<Rightarrow> bool" where
  "statement_fine (m, time, path, line, func, args) \<longleftrightarrow> statement_ok time path line func args \<and> m \<noteq> LOG_FATAL"

text \<open>The line a statement prints, if its level is on.\<close>

fun line_of :: "log_level \<Rightarrow> statement \<Rightarrow> char list list" where
  "line_of l (m, time, path, line, func, args) =
     (if statement_on m (with_level l) then [log_spec 4000 (line_args m time path line func args)] else [])"

definition lines_of :: "log_level \<Rightarrow> statement list \<Rightarrow> char list list" where
  "lines_of l ss = concat (map (line_of l) ss)"

lemma lines_of_simps [simp]: "lines_of l [] = []" "lines_of l (s # ss) = line_of l s @ lines_of l ss"
  by (simp_all add: lines_of_def)

section \<open>The program\<close>

text \<open>\<open>lp_tags\<close> records which thread has appended which line.\<close>

record log_prog =
  lp_life :: life
  lp_todo :: "nat \<Rightarrow> statement list"
  lp_tags :: "(nat \<times> char list) list"

fun writelogs :: "char list \<Rightarrow> char list list \<Rightarrow> async \<Rightarrow> async res" where
  "writelogs mem [] L = Inr L"
| "writelogs mem (x # xs) L = bindE (async_append mem x L) (writelogs mem xs)"

text \<open>Thread \<open>t\<close> executes its next statement; \<open>junk\<close> is the memory of the stream, \<open>mem\<close> that of a new buffer.\<close>

definition statement_turn :: "log_level \<Rightarrow> char list \<Rightarrow> char list \<Rightarrow> nat \<Rightarrow> log_prog \<Rightarrow> log_prog res" where
  "statement_turn l junk mem t P =
     (case lp_todo P t of
        [] \<Rightarrow> Inr P
      | (m, time, path, line, func, args) # ss \<Rightarrow>
          bindE (log_statement m junk time path line func args (with_level l)) (\<lambda>(G, aborts).
          bindE (writelogs mem (map snd (g_lines G)) (li_log (lp_life P))) (\<lambda>L.
            if aborts then Inl FatalAbort
            else Inr (P\<lparr>lp_life := (lp_life P)\<lparr>li_log := L\<rparr>, lp_todo := (lp_todo P)(t := ss),
                        lp_tags := lp_tags P @ map (\<lambda>x. (t, snd x)) (g_lines G)\<rparr>))))"

definition prog_init :: "char list \<Rightarrow> owner_call list \<Rightarrow> (nat \<Rightarrow> statement list) \<Rightarrow> log_prog" where
  "prog_init mem cs prog = \<lparr>lp_life = life_init mem cs, lp_todo = prog, lp_tags = []\<rparr>"

inductive prog_step :: "log_level \<Rightarrow> log_prog \<Rightarrow> log_prog res \<Rightarrow> bool" for l where
  statement: "li_alive (lp_life P) \<Longrightarrow> length junk = kSmallBuffer \<Longrightarrow> prog_step l P (statement_turn l junk mem t P)"
| owner: "prog_step l P (bindE (owner_turn (lp_life P)) (\<lambda>S. Inr (P\<lparr>lp_life := S\<rparr>)))"
| thread: "prog_step l P (bindE (thread_turn mem (lp_life P)) (\<lambda>S. Inr (P\<lparr>lp_life := S\<rparr>)))"

inductive prog_reach :: "log_level \<Rightarrow> owner_call list \<Rightarrow> (nat \<Rightarrow> statement list) \<Rightarrow> log_prog \<Rightarrow> bool" for l cs prog where
  init: "prog_reach l cs prog (prog_init mem cs prog)"
| step: "prog_reach l cs prog P \<Longrightarrow> prog_step l P (Inr P') \<Longrightarrow> prog_reach l cs prog P'"

section \<open>Lemmas\<close>

text \<open>The lines thread \<open>t\<close> has appended.\<close>

definition appended :: "nat \<Rightarrow> log_prog \<Rightarrow> char list list" where
  "appended t P = map snd (filter (\<lambda>(u, x). u = t) (lp_tags P))"

definition prog_ok :: "log_level \<Rightarrow> owner_call list \<Rightarrow> (nat \<Rightarrow> statement list) \<Rightarrow> log_prog \<Rightarrow> bool" where
  "prog_ok l cs prog P \<longleftrightarrow> life_reach cs (lp_life P) \<and> al_msgs (li_log (lp_life P)) = map snd (lp_tags P) \<and>
     (\<forall>t. appended t P @ lines_of l (lp_todo P t) = lines_of l (prog t)) \<and> (\<forall>t. \<forall>s\<in>set (lp_todo P t). statement_fine s)"

lemma owner_turn_msgs: "owner_turn S = Inr S' \<Longrightarrow> al_msgs (li_log S') = al_msgs (li_log S)"
  by (auto simp: owner_turn_def begin_stop_def async_stop_def Let_def
      split: owner_pc.splits owner_call.splits list.splits if_splits)

lemma writer_turn_msgs: "writer_turn L = Inr L' \<Longrightarrow> al_msgs L' = al_msgs L"
  by (auto simp: writer_turn_def async_collect_def async_write_def Let_def bindE_def deref_def assertE_def
      split: async_pc.splits sum.splits option.splits if_splits)

lemma thread_turn_msgs: "thread_turn mem S = Inr S' \<Longrightarrow> al_msgs (li_log S') = al_msgs (li_log S)"
  by (auto simp: thread_turn_def thread_locals_def assertE_def bindE_def split: thread_pc.splits sum.splits if_splits
      dest: writer_turn_msgs)

lemma line_of_short:
  "statement_fine s \<Longrightarrow> x \<in> set (line_of l s) \<Longrightarrow> length x < kSmallBuffer"
  using log_spec_length [OF line_args_ok, of _ _ _ _ _ 4000] by (cases s) (fastforce simp: kSmallBuffer_def split: if_splits)

lemma statement_turn_ok:
  assumes ok: "prog_ok l cs prog P" and cs: "proper cs" and alive: "li_alive (lp_life P)" and junk: "length junk = kSmallBuffer"
  shows "\<exists>P'. statement_turn l junk mem t P = Inr P' \<and> prog_ok l cs prog P' \<and>
    (\<forall>s ss. lp_todo P t = s # ss \<longrightarrow> lp_tags P' = lp_tags P @ map (\<lambda>x. (t, x)) (line_of l s) \<and>
      lp_life P' = (lp_life P)\<lparr>li_log := li_log (lp_life P')\<rparr> \<and>
      writelogs mem (line_of l s) (li_log (lp_life P)) = Inr (li_log (lp_life P')))"
proof (cases "lp_todo P t")
  case Nil
  with ok show ?thesis by (simp add: statement_turn_def)
next
  case (Cons s ss)
  obtain m time path line func args where s: "s = (m, time, path, line, func, args)" by (metis prod_cases6)
  have fine: "statement_fine s" using ok Cons unfolding prog_ok_def by (metis list.set_intros(1))
  then have st: "statement_ok time path line func args" "m \<noteq> LOG_FATAL" by (simp_all add: s)
  let ?G = "(with_level l)\<lparr>g_lines := map (\<lambda>x. (1, x)) (line_of l s)\<rparr>"
  have run: "log_statement m junk time path line func args (with_level l) = Inr (?G, False)"
    using log_statement_run [OF junk st(1), of m "with_level l"] st(2)
    by (simp add: s with_level_def del: log_statement.simps)
  have reach: "life_reach cs (lp_life P)" using ok by (simp add: prog_ok_def)
  note lok = life_reach_ok [OF reach cs]
  have "length x < 2147483648" if "x \<in> set (line_of l s)" for x
    using line_of_short [OF fine that] by (simp add: kSmallBuffer_def)
  then obtain L where L: "writelogs mem (line_of l s) (li_log (lp_life P)) = Inr L" "life_reach cs ((lp_life P)\<lparr>li_log := L\<rparr>)"
    "al_msgs L = al_msgs (li_log (lp_life P)) @ line_of l s"
  proof (cases "line_of l s")
    case Nil
    with reach show ?thesis by (intro that [of "li_log (lp_life P)"]) simp_all
  next
    case (Cons x xs)
    then have xs: "xs = []" "length x < 2147483648"
      using \<open>\<And>x. x \<in> set (line_of l s) \<Longrightarrow> length x < 2147483648\<close> by (simp_all add: s split: if_splits)
    obtain L where "async_append mem x (li_log (lp_life P)) = Inr L" using append_log_ok [of "lp_life P"] lok xs(2) by blast
    moreover from this have "life_step (lp_life P) (Inr ((lp_life P)\<lparr>li_log := L\<rparr>))"
      using life_step.append [OF alive xs(2), of mem] by simp
    ultimately show ?thesis using reach Cons xs(1)
      by (intro that [of L]) (simp_all add: append_frame life_reach.step)
  qed
  let ?P = "P\<lparr>lp_life := (lp_life P)\<lparr>li_log := L\<rparr>, lp_todo := (lp_todo P)(t := ss),
      lp_tags := lp_tags P @ map (\<lambda>x. (t, x)) (line_of l s)\<rparr>"
  have turn: "statement_turn l junk mem t P = Inr ?P"
    unfolding statement_turn_def Cons s prod.case list.case run [unfolded s] bindE_simps
    using L(1) by (simp add: s comp_def del: line_of.simps)
  have "appended u ?P = appended u P @ (if u = t then line_of l s else [])" for u
    by (simp add: appended_def filter_map comp_def del: line_of.simps)
  moreover have "statement_fine x" if "x \<in> set ss" for x
    using ok Cons that unfolding prog_ok_def by (metis list.set_intros(2))
  moreover have "appended t P @ line_of l s @ lines_of l ss = lines_of l (prog t)"
    using ok Cons unfolding prog_ok_def by (metis lines_of_simps(2))
  ultimately have "prog_ok l cs prog ?P"
    using ok L(2,3) by (simp add: prog_ok_def comp_def del: line_of.simps statement_fine.simps)
  with turn L(1) Cons show ?thesis by (intro exI [of _ ?P]) (simp del: line_of.simps)
qed

lemma prog_step_ok:
  assumes "prog_step l P r" "prog_ok l cs prog P" "proper cs"
  shows "\<exists>P'. r = Inr P' \<and> prog_ok l cs prog P'"
proof -
  have reach: "life_reach cs (lp_life P)" using assms(2) by (simp add: prog_ok_def)
  note ok = life_reach_ok [OF reach assms(3)]
  have turn: "prog_ok l cs prog (P\<lparr>lp_life := S\<rparr>)"
    if "life_step (lp_life P) (Inr S)" "al_msgs (li_log S) = al_msgs (li_log (lp_life P))" for S
    using assms(2) life_reach.step [OF reach that(1)] that(2) by (simp add: prog_ok_def appended_def)
  show ?thesis
    using assms(1)
  proof (cases rule: prog_step.cases)
    case (statement junk mem t)
    with statement_turn_ok [OF assms(2,3)] show ?thesis by blast
  next
    case owner
    obtain S where S: "owner_turn (lp_life P) = Inr S" using owner_turn_ok ok by blast
    with turn [of S] owner owner_turn_msgs [OF S] life_step.owner [of "lp_life P"] show ?thesis by simp
  next
    case (thread mem)
    obtain S where S: "thread_turn mem (lp_life P) = Inr S" using thread_turn_ok ok by blast
    with turn [of S] thread thread_turn_msgs [OF S] life_step.thread [of "lp_life P" mem] show ?thesis by simp
  qed
qed

lemma prog_reach_ok:
  assumes "prog_reach l cs prog P" "proper cs" "\<forall>t. \<forall>s\<in>set (prog t). statement_fine s"
  shows "prog_ok l cs prog P"
  using assms(1)
proof (induction rule: prog_reach.induct)
  case (init mem)
  have "life_reach cs (life_init mem cs)" by (rule life_reach.init)
  moreover have "al_msgs (li_log (life_init mem cs)) = []" by (simp add: life_init_def AsyncLogging_ctor_def)
  ultimately show ?case using assms(3) by (simp add: prog_ok_def prog_init_def appended_def)
next
  case (step P P')
  then show ?case using prog_step_ok [OF _ _ assms(2)] by blast
qed

text \<open>What the logger holds and has not yet handed to the file.\<close>

definition held_text :: "async \<Rightarrow> char list" where
  "held_text L = texts (in_writing (al_pc L)) @ texts (al_buffers L) @ current_text (al_current L)"

lemma prog_text:
  assumes ok: "prog_ok l cs prog P" and cs: "proper cs" and fine: "\<forall>t. \<forall>s\<in>set (prog t). statement_fine s"
    and "\<not> al_dropped (li_log (lp_life P))"
  shows "concat (al_out (li_log (lp_life P))) @ held_text (li_log (lp_life P)) = concat (map snd (lp_tags P))"
proof -
  have "log_ok (lp_life P)" using life_reach_ok ok cs by (auto simp: prog_ok_def)
  then have "concat (al_out (li_log (lp_life P))) @ held_text (li_log (lp_life P)) = accepted (map snd (lp_tags P))"
    using log_ok_content [of "lp_life P"] assms(4) ok by (simp add: content_inv_def held_text_def prog_ok_def)
  moreover have "length x < kLargeBuffer" if x: "(t, x) \<in> set (lp_tags P)" for t x
  proof -
    have "x \<in> set (appended t P)" using x by (force simp: appended_def)
    moreover have "appended t P @ lines_of l (lp_todo P t) = lines_of l (prog t)" using ok by (simp add: prog_ok_def)
    ultimately have "x \<in> set (lines_of l (prog t))" by (metis UnI1 set_append)
    then obtain s where "s \<in> set (prog t)" "x \<in> set (line_of l s)" by (auto simp: lines_of_def)
    with line_of_short fine have "length x < kSmallBuffer" by blast
    then show ?thesis by (simp add: kSmallBuffer_def kLargeBuffer_def)
  qed
  then have "accepted (map snd (lp_tags P)) = concat (map snd (lp_tags P))"
    unfolding accepted_def by (intro arg_cong [where f = concat] filter_True) auto
  ultimately show ?thesis by simp
qed

lemma written_out_held: "written_out L \<Longrightarrow> held_text L = []"
  by (simp add: written_out_def held_text_def)

lemma prog_step_reach: "prog_step l P r \<Longrightarrow> r = Inr P' \<Longrightarrow> prog_reach l cs prog P \<Longrightarrow> prog_reach l cs prog P'"
  using prog_reach.step by blast

lemma prog_thread:
  assumes "prog_reach l cs prog P" "li_thread (lp_life P) = Working" "writer_turn (li_log (lp_life P)) = Inr L"
  shows "prog_reach l cs prog (P\<lparr>lp_life := (lp_life P)\<lparr>li_log := L\<rparr>\<rparr>)"
  using prog_step_reach [OF prog_step.thread [of l P "[]"] _ assms(1)] assms(2,3) by (simp add: thread_turn_def)

text \<open>The thread on its own writes what is held.\<close>

lemma thread_flushes:
  assumes reach: "prog_reach l cs prog P" and cs: "proper cs" and fine: "\<forall>t. \<forall>s\<in>set (prog t). statement_fine s"
    and t: "li_thread (lp_life P) = Working" "al_pc (li_log (lp_life P)) = ACheck" "al_running (li_log (lp_life P))"
    and few: "length (al_buffers (li_log (lp_life P))) < 25" "\<not> al_dropped (li_log (lp_life P))"
  shows "\<exists>P'. prog_reach l cs prog P' \<and> lp_tags P' = lp_tags P \<and> lp_todo P' = lp_todo P \<and>
    written_out (li_log (lp_life P')) \<and> \<not> al_dropped (li_log (lp_life P'))"
proof -
  let ?S = "lp_life P" let ?L0 = "(li_log ?S)\<lparr>al_pc := AWaiting\<rparr>"
  have "prog_ok l cs prog P" using prog_reach_ok [OF reach cs fine] .
  then have "log_ok ?S" using life_reach_ok [OF _ cs] by (simp add: prog_ok_def)
  then have "async_inv (li_log ?S)" using t(1) by (simp add: log_ok_def)
  then have inv: "async_inv ?L0" using async_inv_pc [of "li_log ?S" AWaiting] t(2) by simp
  obtain L1 bs c where L1: "async_collect ?L0 = Inr L1" "async_inv L1" "al_pc L1 = AWriting bs"
    "length bs = Suc (length (al_buffers ?L0))" "al_buffers L1 = []" "al_current L1 = Some c" "empty_ok c"
    "al_dropped L1 = al_dropped ?L0"
    using async_collect_inv [OF inv] by auto
  obtain L2 where L2: "async_write bs L1 = Inr L2" "al_pc L2 = ACheck" "al_buffers L2 = []" "al_current L2 = Some c" "\<not> al_dropped L2"
    using async_write_inv [OF L1(2,3)] L1(4-8) few by auto
  let ?at = "\<lambda>L. P\<lparr>lp_life := ?S\<lparr>li_log := L\<rparr>\<rparr>"
  have turns: "writer_turn (li_log ?S) = Inr ?L0" "writer_turn ?L0 = Inr L1" "writer_turn L1 = Inr L2"
    using t(2,3) L1(1,3) L2(1) by (simp_all add: writer_turn_def)
  have "prog_reach l cs prog (?at ?L0)" using prog_thread [OF reach t(1) turns(1)] .
  from prog_thread [OF this _ , of L1] t(1) turns(2) have "prog_reach l cs prog (?at L1)" by simp
  from prog_thread [OF this _ , of L2] t(1) turns(3) have "prog_reach l cs prog (?at L2)" by simp
  moreover have "written_out L2" using L2(2-4) empty_ok_simps(2) [OF L1(7)] by (simp add: written_out_def)
  ultimately show ?thesis using L2(5) by (intro exI [of _ "?at L2"]) simp
qed

section \<open>The test program\<close>

text \<open>What the threads of src/test/test_log.cpp log: thread 0 is \<open>main\<close>, the next four are the workers. The name of
  the source file, the times, and the texts of the thread ids are arguments.\<close>

definition logworker :: "char list \<Rightarrow> (nat \<Rightarrow> char list) \<Rightarrow> char list \<Rightarrow> statement list" where
  "logworker file time tid =
     map (\<lambda>i. (LOG_DEBUG, Some (time i), file, 15, ''logworker'', [LInt (int i), LChar CHR '' '', LString tid])) [0..<10]"

definition test_log :: "char list \<Rightarrow> (nat \<Rightarrow> nat \<Rightarrow> char list) \<Rightarrow> (nat \<Rightarrow> char list) \<Rightarrow> nat \<Rightarrow> statement list" where
  "test_log file time tid t =
     (if t = 0 then [(LOG_DEBUG, Some (time 0 0), file, 29, ''main'', [LCStr (Some ''start test'')])]
      else if t \<le> 4 then logworker file (time t) (tid t) else [])"

lemma test_log_fine:
  assumes "length file < 2147483648" "\<forall>t i. length (time t i) < 2147483648" "\<forall>t. length (tid t) < 2147483648"
  shows "\<forall>t. \<forall>s\<in>set (test_log file time tid t). statement_fine s"
  using assms by (auto simp: test_log_def logworker_def statement_ok_def int64_range_def)

text \<open>It starts the logger, and the main thread prints its line.\<close>

lemma one_line_run:
  assumes "proper (Start # cs)" and fine: "\<forall>t. \<forall>s\<in>set (prog t). statement_fine s"
    and "prog 0 = [s]" "line_of l s = [x]"
  shows "\<exists>P. prog_reach l (Start # cs) prog P \<and> lp_tags P = [(0, x)] \<and>
    written_out (li_log (lp_life P)) \<and> \<not> al_dropped (li_log (lp_life P))"
proof -
  let ?cs = "Start # cs" let ?P0 = "prog_init [] ?cs prog"
  have r0: "prog_reach l ?cs prog ?P0" by (rule prog_reach.init)
  obtain S1 where S1: "owner_turn (lp_life ?P0) = Inr S1" "li_thread S1 = Entering" "al_running (li_log S1)"
    "li_alive S1" "al_buffers (li_log S1) = []" "\<not> al_dropped (li_log S1)" "al_pc (li_log S1) = ADone"
    by (simp add: prog_init_def owner_turn_def life_init_def AsyncLogging_ctor_def)
  let ?P1 = "?P0\<lparr>lp_life := S1\<rparr>"
  have r1: "prog_reach l ?cs prog ?P1" using prog_step_reach [OF prog_step.owner _ r0] S1(1) by simp
  let ?S2 = "S1\<lparr>li_log := thread_locals [] (li_log S1), li_thread := Announcing\<rparr>"
  have "thread_turn [] S1 = Inr ?S2" using S1(2,3) by (simp add: thread_turn_def assertE_def)
  then have r2: "prog_reach l ?cs prog (?P1\<lparr>lp_life := ?S2\<rparr>)"
    using prog_step_reach [OF prog_step.thread [of l ?P1 "[]"] _ r1] by simp
  let ?S3 = "?S2\<lparr>li_latch := countDown (li_latch S1), li_thread := Working\<rparr>" let ?P3 = "?P1\<lparr>lp_life := ?S3\<rparr>"
  have "thread_turn [] ?S2 = Inr ?S3" by (simp add: thread_turn_def)
  then have r3: "prog_reach l ?cs prog ?P3"
    using prog_step_reach [OF prog_step.thread [of l "?P1\<lparr>lp_life := ?S2\<rparr>" "[]"] _ r2] by simp
  have ok3: "prog_ok l ?cs prog ?P3" using prog_reach_ok [OF r3 assms(1,2)] .
  have al3: "li_alive (lp_life ?P3)" using S1(4) by simp
  have todo: "lp_todo ?P3 0 = [s]" using assms(3) by (simp add: prog_init_def)
  have len: "length (replicate kSmallBuffer CHR ''?'') = kSmallBuffer" by simp
  obtain P4 where run4: "statement_turn l (replicate kSmallBuffer CHR ''?'') [] 0 ?P3 = Inr P4"
    and eff: "\<forall>s ss. lp_todo ?P3 0 = s # ss \<longrightarrow> lp_tags P4 = lp_tags ?P3 @ map (\<lambda>x. (0, x)) (line_of l s) \<and>
      lp_life P4 = (lp_life ?P3)\<lparr>li_log := li_log (lp_life P4)\<rparr> \<and>
      writelogs [] (line_of l s) (li_log (lp_life ?P3)) = Inr (li_log (lp_life P4))"
    using statement_turn_ok [OF ok3 assms(1) al3 len, of "[]" 0] by blast
  have P4: "lp_tags P4 = [(0, x)]" "lp_life P4 = ?S3\<lparr>li_log := li_log (lp_life P4)\<rparr>"
    "writelogs [] [x] (thread_locals [] (li_log S1)) = Inr (li_log (lp_life P4))"
    using mp [OF spec [OF spec [OF eff, of s], of "[]"] todo] unfolding assms(4) by (simp_all add: prog_init_def)
  have r4: "prog_reach l ?cs prog P4"
    using prog_step_reach [OF prog_step.statement [OF al3 len] run4 r3] .
  have "async_append [] x (thread_locals [] (li_log S1)) = Inr (li_log (lp_life P4))"
    using P4(3) by (simp add: bindE_def split: sum.splits)
  then have a4: "al_pc (li_log (lp_life P4)) = ACheck" "al_running (li_log (lp_life P4))"
    "length (al_buffers (li_log (lp_life P4))) < 25" "\<not> al_dropped (li_log (lp_life P4))"
    using append_frame [of "[]" x "thread_locals [] (li_log S1)"] S1(3,5,6) by (simp_all add: thread_locals_def)
  have "li_thread (lp_life P4) = Working" by (subst P4(2)) simp
  from thread_flushes [OF r4 assms(1,2) this a4] P4(1) show ?thesis by auto
qed

end
