(* ===== verification/Spec2Isabelle.thy ===== *)
theory Spec2Isabelle
  imports Pollers LoopSync Draining CrossThread HelloRuns TimerProgram GreetProgram HttpProgram LogProgram
begin

text \<open>
  xweb is a small C++11 network library in the reactor style: an event loop per thread, a poller over epoll
  or kqueue, channels that bind descriptors to handlers, TCP connections with user-level buffers, a server
  that owns them, a small HTTP server, and a logging library with a front end, an asynchronous back end and
  log files.

  \<^bold>\<open>How the parts interact.\<close> A loop asks its poller for the active channels, calls their
  handlers, then the functors other threads have queued; a queued functor or \<open>quit\<close> wakes it
  through an eventfd. A server's acceptor channel makes connections, whose channels call
  \<open>handleRead\<close>, \<open>handleWrite\<close> and \<open>handleClose\<close>; these move bytes
  between the socket and two buffers and call the user's callbacks, which may call the connection again. The
  server drops a closed connection from its map, and the last reference destroys it. The HTTP server hands
  each connection to a loop of a thread pool. A log statement formats a line in a stream of its own and
  gives it to an output function, such as the append of the asynchronous logger, whose thread writes full
  buffers to a log file.

  \<^bold>\<open>Theories and code.\<close>
  \<^item> Prelude: fallible results (\<open>fault + 'a\<close>: a failed assert, an exception, a fatal log
    line, a null pointer or an access out of bounds), \<open>size_t\<close> and \<open>int\<close>
    arithmetic with its wrap-around, C division, \<open>std::copy\<close>, \<open>std::search\<close>,
    \<open>memchr\<close>, \<open>memcmp\<close>, \<open>vector::resize\<close>.
  \<^item> StringPiece: src/base/StringPiece.h. StdLib: decimal text and \<open>std::map\<close> with string
    keys.
  \<^item> NetBuffer: \<open>Buffer\<close>, src/net/buffer.h and src/net/buffer.cpp.
  \<^item> Chan: \<open>Channel\<close>, src/net/channel.h and src/net/channel.cpp. Poller, Epoller, Kqueue:
    src/net/poller.h, src/net/linux/epoller.cpp, src/net/mac/kqueue_poller.cpp. Pollers: the two pollers
    side by side on one schedule.
  \<^item> EventLoop: src/net/event_loop.cpp, one call at a time; LoopSync: the same code as interleaved
    steps of the loop thread, of other threads and of the kernel: \<open>poll\<close> sleeps while the eventfd holds 0, unless the
    kernel reports another descriptor (\<open>report_step\<close>). TimerProgram: the program src/test/test_loop.cpp, with
    either poller.
  \<^item> TcpConn, ConnFrame, TcpProps, ConnTotal, Draining: \<open>TcpConnection\<close>,
    src/net/tcp_connection.cpp, its operations, the relations they all respect, what holds of runs of them,
    that every call of the sending side returns, and what happens once the output is drained. CrossThread:
    sends of several threads on one connection, through the queue of its loop.
  \<^item> Sockets: src/net/socket.cpp, src/net/inet_address.h. TcpServer: \<open>Acceptor\<close> and
    \<open>TcpServer\<close>, src/net/acceptor.cpp and src/net/tcp_server.cpp. HelloServer, HelloRuns: the
    server program src/test/test_tcpserver.cpp, from its \<open>main\<close> through any number of
    iterations of its loop. GreetProgram: the program src/test/test_acceptor.cpp, an acceptor on its own,
    likewise.
  \<^item> Threads: src/net/thread_pool.cpp, src/net/event_loop_thread.cpp, src/base/countdown_latch.cpp.
  \<^item> Rio: src/base/rio.cpp. Http: the functions of src/net/http_data.cpp that read a request and send
    a file; HttpServer: the classes \<open>HttpData\<close> and \<open>HttpServer\<close>,
    src/net/http_data.cpp and src/net/http_server.cpp, on the loops of EventLoop and the pool of Threads.
    HttpWaits: which reads of a handler wait for a client that stops sending, as the sockets are blocking.
    HttpProgram: the program src/test/test.cpp, the loops of all its threads interleaved, each step a poll,
    a handler or the pending functors; a handler that waits for ever is None.
  \<^item> LogStream: src/base/log_stream.h and src/base/log_stream.cpp. Logger: src/base/logger.h and
    src/base/logger.cpp. AsyncLog: the buffers and the thread of src/base/async_logging.cpp; AsyncLife: the
    same logger from its constructor to its destructor, with the calls of its owner,
    src/base/async_logging.h. LogFile: src/base/file_util.cpp, src/base/log_file.cpp and the host name of
    src/base/process_info.cpp. LogProgram: threads that log through one asynchronous logger, and the program
    src/test/test_log.cpp.

  An object is a record with its members; a method is a function from the old state to the new one, or to a
  fault. Objects that extend each other share one extensible record: the loop, the world of connections on
  it, the server around that. Pointers to channels, connections and loops are numbers, and what they point
  to is a map in the state. System calls, the clock and uninitialised memory are arguments; the sequence of
  calls an operation makes, where it matters, is part of its result. User code is an argument too: callbacks
  are named by numbers, and the environment says what calling one does to the whole world.

  \<^bold>\<open>What the lemmas show.\<close> For the buffer: well-formed through any calls, a queue of
  bytes, integers most significant byte first and read back, search and shrinking. For the poller interface, a locale with
  the two pollers as instances: registration is consistent, and so is an iteration of the loop, of a
  connection's handlers (\<open>conn_poller\<close>) and of the HTTP server (\<open>http_poller\<close>).
  For the loop: no wakeup is lost, functors run in order and all of them, a cancelled timer runs no more,
  \<open>quit\<close> ends it, a call from another thread has the effect of a direct one, later. For
  connections: messages reach the kernel whole and in order for every pattern of short writes and with
  callbacks that send, states only move forward, shutdown waits for the output; what several threads send
  arrives as an interleaving, each thread's messages in their order. \<open>conn_writes\<close>,
  \<open>conn_events\<close> and \<open>conn_relation\<close> are the contracts of a relation that the
  operations respect, on one connection or on all, with the order of the states, the calm of a connection,
  the server's map and the frame of one connection as instances. For the server: its map, the end of a
  connection, and, for the program with its real callbacks, that nothing fails and every client is served,
  however long it runs; that every client of the acceptor program is greeted; the same for the HTTP program,
  whatever the order of its threads, with whole responses only and no more of them than requests, as long as its
  clients do not stop inside a request and the page can be opened, which \<open>io_ok\<close> lists with the other conditions.
  For the two pollers: without timers, failures and reports of both directions at once they report and forget the same
  channels. For Rio: \<open>reader\<close> and \<open>steady_reader\<close> are the contracts of a
  descriptor and of the buffered reader, from which lines, requests and files follow. For the log: a line is
  what its statement says, bounded by its buffer; the asynchronous logger breaks no assert, all calls of its
  owner return, it loses nothing while it runs and keeps up, and its thread needs at most four turns to write what it
  holds; log files keep every line in the file in use before it; and, in this
  theory, all of that together from the statements of any number of threads to the disk. Several theorems
  state what the code does where it is not what was meant: reading stops when the output is drained,
  timers never fire on Linux, the limit of a file's size does not hold, messages behind \<open>stop\<close>
  are lost, a logger cannot be started twice, a \<open>quit\<close> before \<open>loop\<close> is lost, a
  response is longer than announced, half a request hangs a loop of the HTTP server.

  \<^bold>\<open>Bounds and fuel.\<close> \<open>loop\<close> takes the number of iterations as fuel and is
  None while it runs; it returns a state, with some fuel, exactly when \<open>running_\<close> is down behind an iteration, none
  before it having failed. \<open>serve_static\<close> takes fuel as well: one more than the length of the file is enough,
  as every round takes at least one byte, and no fuel is enough when the file cannot be opened. All other
  loops are total functions, those of Rio because a script of what a descriptor does is finite. Sizes are
  assumed below \<open>PTRDIFF_MAX\<close>, which is the largest object there is, or where the code casts to
  \<open>int\<close> below \<open>2^31\<close>.

  \<^bold>\<open>Not modelled.\<close> The choice of the poller at compile time, the Windows branches, casts
  of src/base/Types.h, the type definitions of src/net/callback.h, and the two clients under src/test,
  src/test/test_acceptor_client.cpp and src/test/t_tcpclient.cpp, which only make system calls. What
  is printed to the standard output, except that printing must not read out of bounds. Memory exhaustion,
  signals, and the weak memory model: a step of an interleaving is a section the code protects with a mutex,
  or one atomic access.
\<close>

section \<open>From a log statement to the disk\<close>

text \<open>
  C26. The whole path of the log, for a program whose threads log through one asynchronous logger
  while its owner starts and stops it, in any interleaving. No step fails. What the logger's thread
  has handed over goes to the open log file, where files can be opened, and the file of the day ends with
  exactly the lines appended so far, but for those the logger still holds, each of them whole, unless buffers
  have been thrown away. Each thread's lines are those of its statements, in their order.
\<close>

theorem log_pipeline:
  assumes "proper cs" "\<forall>t. \<forall>s\<in>set (prog t). statement_fine s" "prog_reach l cs prog P"
    and "\<forall>p. mc_opens M p" "lf_file L = Some f" "takes_some ks"
    and "map (\<lambda>(t1, t2, line). line) ls = al_out (li_log (lp_life P))"
    and "\<forall>(t1, t2, line)\<in>set ls. getLogFileName M (lf_basename L) t2 = af_path f"
  shows "(\<forall>r. prog_step l P r \<longrightarrow> (\<exists>P'. r = Inr P')) \<and>
    (\<exists>L' written. append_lines M ls ks L d = Inr (L', d(af_path f := d (af_path f) @ written)) \<and>
      (\<not> al_dropped (li_log (lp_life P)) \<longrightarrow> written @ held_text (li_log (lp_life P)) = concat (map snd (lp_tags P)))) \<and>
    (\<forall>t. appended t P @ lines_of l (lp_todo P t) = lines_of l (prog t))"
proof -
  have ok: "prog_ok l cs prog P" using prog_reach_ok [OF assms(3,1,2)] .
  obtain L' d' where r: "append_lines M ls ks L d = Inr (L', d')" using append_lines_total [OF assms(4,5)] by blast
  have "d' = d(af_path f := d (af_path f) @ concat (al_out (li_log (lp_life P))))"
    using append_lines_one_file [OF r assms(5,6,8)] unfolding assms(7) .
  with r prog_text [OF ok assms(1,2)]
  have "\<exists>L' written. append_lines M ls ks L d = Inr (L', d(af_path f := d (af_path f) @ written)) \<and>
    (\<not> al_dropped (li_log (lp_life P)) \<longrightarrow> written @ held_text (li_log (lp_life P)) = concat (map snd (lp_tags P)))" by blast
  moreover have "\<forall>r. prog_step l P r \<longrightarrow> (\<exists>P'. r = Inr P')" using prog_step_ok [OF _ ok assms(1)] by blast
  ultimately show ?thesis using ok by (simp add: prog_ok_def)
qed

text \<open>The first line of the test program, for the witness.\<close>

definition demo_line :: "char list" where
  "demo_line = ''now|DEBUG|test_log.cpp:29 main start test'' @ [CHR 0x0A]"

lemma demo_line_of:
  "line_of E_TRACE (LOG_DEBUG, Some ''now'', ''test_log.cpp'', 29, ''main'', [LCStr (Some ''start test'')]) = [demo_line]"
proof -
  let ?as = "line_args LOG_DEBUG (Some ''now'') ''test_log.cpp'' 29 ''main'' [LCStr (Some ''start test'')]"
  have dec: "decimal 29 = ''29''" by code_simp
  have base: "sf_data (SourceFile_pointer ''test_log.cpp'') = ''test_log.cpp''" by code_simp
  have line: "concat (map log_text ?as) = demo_line"
    by (simp add: line_args_def dec base demo_line_def less_eq_log_level_def)
  have "log_spec 4000 ?as = demo_line"
    using log_spec_fits [of ?as 4000] unfolding texts_length_def line by (simp add: demo_line_def)
  then show ?thesis by (simp add: statement_on_def with_level_def less_eq_log_level_def)
qed

theorem log_pipeline_witness:
  "\<exists>P L' d'. prog_reach E_TRACE [Start, Stop] (test_log ''test_log.cpp'' (\<lambda>_ _. ''now'') (\<lambda>_. ''1'')) P \<and>
     lp_tags P = [(0, demo_line)] \<and>
     append_lines demo_machine (map (\<lambda>x. (6, 6, x)) (al_out (li_log (lp_life P)))) [] demo_log (\<lambda>_. []) = Inr (L', d') \<and>
     d' ''b.19700101.h.log'' = demo_line"
proof -
  let ?prog = "test_log ''test_log.cpp'' (\<lambda>_ _. ''now'') (\<lambda>_. ''1'')"
  have cs: "proper [Start, Stop]" by (simp add: proper_def)
  have fine: "\<forall>t. \<forall>s\<in>set (?prog t). statement_fine s" by (rule test_log_fine) simp_all
  have main: "?prog 0 = [(LOG_DEBUG, Some ''now'', ''test_log.cpp'', 29, ''main'', [LCStr (Some ''start test'')])]"
    by (simp add: test_log_def)
  obtain P where P: "prog_reach E_TRACE [Start, Stop] ?prog P" "lp_tags P = [(0, demo_line)]"
    "written_out (li_log (lp_life P))" "\<not> al_dropped (li_log (lp_life P))"
    using one_line_run [OF cs fine main demo_line_of] by blast
  define ls where "ls = map (\<lambda>x. (6 :: int, 6 :: int, x)) (al_out (li_log (lp_life P)))"
  have lines: "map (\<lambda>(t1, t2, line). line) ls = al_out (li_log (lp_life P))" by (simp add: ls_def comp_def)
  have opens: "\<forall>p. mc_opens demo_machine p" by (simp add: demo_machine_def)
  have day: "\<forall>(t1, t2, line)\<in>set ls. getLogFileName demo_machine (lf_basename demo_log) t2 =
      af_path \<lparr>af_path = ''b.19700101.h.log'', af_written = 0, af_unflushed = 0\<rparr>"
    by (auto simp: ls_def getLogFileName_def demo_machine_def demo_log_def)
  have ks: "takes_some []" by (simp add: takes_some_def)
  obtain L' where "append_lines demo_machine ls [] demo_log (\<lambda>_. []) =
      Inr (L', (\<lambda>_. [])(''b.19700101.h.log'' := demo_line))"
    using log_pipeline [OF cs fine P(1) opens demo_log_file ks lines day, of "\<lambda>_. []"] P(2,4) written_out_held [OF P(3)]
    by auto
  with P(1,2) show ?thesis unfolding ls_def by (metis fun_upd_same)
qed

end
